(* ===== verification/Prelude.thy ===== *)
theory Prelude
  imports Main "HOL-Library.Word"
begin

text \<open>
  Shared vocabulary of the development: the machine types of the 32-bit MIPS
  kernel, the error codes of \<^verbatim>\<open>kern/include/kern/errno.h\<close>, the outcome type in
  which every kernel routine is modelled, and the generic lemmas on lists,
  options and words that the components use.

  A routine that may stop the kernel is modelled as a function into
  \<open>'a outcome\<close>: \<open>Done x\<close> is a normal return, \<open>Stop Panic\<close> a failed
  \<^verbatim>\<open>KASSERT\<close> or a call of \<^verbatim>\<open>panic\<close>, \<open>Stop Fault\<close> an access through a null
  pointer or outside the object (undefined behaviour in C), and
  \<open>Stop Blocked\<close> a wait that no step of the calling thread can end.
  An error code that the routine hands back to its caller is an ordinary value,
  \<open>Inl e\<close> of a sum or \<open>Some e\<close> of \<open>errno option\<close> (with \<open>None\<close> for the C result 0).
\<close>

unbundle bit_operations_syntax

type_synonym u8 = "8 word"
type_synonym u16 = "16 word"
type_synonym u32 = "32 word"
type_synonym u64 = "64 word"

section \<open>Error codes\<close>

datatype errno =
    ENOSYS | ENOMEM | EAGAIN | EINTR | EFAULT | ENAMETOOLONG | EINVAL | EPERM
  | EACCES | EMPROC | ENPROC | ENOEXEC | E2BIG | ESRCH | ECHILD | ENOTDIR
  | EISDIR | ENOENT | ELOOP | ENOTEMPTY | EEXIST | EMLINK | EXDEV | ENODEV
  | ENXIO | EBUSY | EMFILE | ENFILE | EBADF | EIOCTL | EIO | ESPIPE | EPIPE
  | EROFS | ENOSPC | EDQUOT | EFBIG

fun errno_code :: "errno \<Rightarrow> nat" where
  "errno_code ENOSYS = 1" | "errno_code ENOMEM = 3" | "errno_code EAGAIN = 4"
| "errno_code EINTR = 5" | "errno_code EFAULT = 6" | "errno_code ENAMETOOLONG = 7"
| "errno_code EINVAL = 8" | "errno_code EPERM = 9" | "errno_code EACCES = 10"
| "errno_code EMPROC = 11" | "errno_code ENPROC = 12" | "errno_code ENOEXEC = 13"
| "errno_code E2BIG = 14" | "errno_code ESRCH = 15" | "errno_code ECHILD = 16"
| "errno_code ENOTDIR = 17" | "errno_code EISDIR = 18" | "errno_code ENOENT = 19"
| "errno_code ELOOP = 20" | "errno_code ENOTEMPTY = 21" | "errno_code EEXIST = 22"
| "errno_code EMLINK = 23" | "errno_code EXDEV = 24" | "errno_code ENODEV = 25"
| "errno_code ENXIO = 26" | "errno_code EBUSY = 27" | "errno_code EMFILE = 28"
| "errno_code ENFILE = 29" | "errno_code EBADF = 30" | "errno_code EIOCTL = 31"
| "errno_code EIO = 32" | "errno_code ESPIPE = 33" | "errno_code EPIPE = 34"
| "errno_code EROFS = 35" | "errno_code ENOSPC = 36" | "errno_code EDQUOT = 37"
| "errno_code EFBIG = 38"

section \<open>Outcomes\<close>

datatype stop = Panic | Fault | Blocked

datatype 'a outcome = Done 'a | Stop stop

fun obind :: "'a outcome \<Rightarrow> ('a \<Rightarrow> 'b outcome) \<Rightarrow> 'b outcome" where
  "obind (Done x) f = f x"
| "obind (Stop r) f = Stop r"

definition kassert :: "bool \<Rightarrow> unit outcome" where
  "kassert b = (if b then Done () else Stop Panic)"

definition nth_or_fault :: "'a list \<Rightarrow> nat \<Rightarrow> 'a outcome" where
  "nth_or_fault xs i = (if i < length xs then Done (xs ! i) else Stop Fault)"

definition upd_or_fault :: "'a list \<Rightarrow> nat \<Rightarrow> 'a \<Rightarrow> 'a list outcome" where
  "upd_or_fault xs i x = (if i < length xs then Done (xs[i := x]) else Stop Fault)"

definition deref :: "'a option \<Rightarrow> 'a outcome" where
  "deref p = (case p of None \<Rightarrow> Stop Fault | Some x \<Rightarrow> Done x)"

named_theorems outcome_simps \<open>rewriting rules for the outcome combinators\<close>

lemma obind_Done_iff [outcome_simps]:
  "obind m f = Done y \<longleftrightarrow> (\<exists>x. m = Done x \<and> f x = Done y)"
  by (cases m) auto

lemma obind_Stop_iff [outcome_simps]:
  "obind m f = Stop r \<longleftrightarrow> m = Stop r \<or> (\<exists>x. m = Done x \<and> f x = Stop r)"
  by (cases m) auto

lemma obind_assoc: "obind (obind m f) g = obind m (\<lambda>x. obind (f x) g)"
  by (cases m) auto

lemma obind_Done_right [simp]: "obind m Done = m"
  by (cases m) auto

lemma obind_cong [fundef_cong]:
  "m = n \<Longrightarrow> (\<And>x. n = Done x \<Longrightarrow> f x = g x) \<Longrightarrow> obind m f = obind n g"
  by (cases n) auto

lemma obind_kassert [simp]:
  "obind (kassert b) f = (if b then f () else Stop Panic)"
  by (simp add: kassert_def)

lemma obind_nth [simp]:
  "obind (nth_or_fault xs i) f = (if i < length xs then f (xs ! i) else Stop Fault)"
  by (simp add: nth_or_fault_def)

lemma obind_upd [simp]:
  "obind (upd_or_fault xs i x) f = (if i < length xs then f (xs[i := x]) else Stop Fault)"
  by (simp add: upd_or_fault_def)

lemma obind_deref_Some [simp]: "obind (deref (Some x)) f = f x"
  by (simp add: deref_def)

lemma obind_deref_None [simp]: "obind (deref None) f = Stop Fault"
  by (simp add: deref_def)

lemma deref_Done_iff [outcome_simps]: "deref p = Done x \<longleftrightarrow> p = Some x"
  by (auto simp: deref_def split: option.splits)

section \<open>Lists\<close>

lemma list_update_append_take:
  "n < length xs \<Longrightarrow> take (Suc n) (xs[n := x]) = take n xs @ [x]"
  by (simp add: take_Suc_conv_app_nth)

text \<open>Updated maps stay folded: an update is read only where it is applied.\<close>

declare fun_upd_apply [simp del]
declare fun_upd_same [simp]
declare fun_upd_other [simp]

section \<open>Words\<close>

lemma len32: "LENGTH(32) = 32"
  by simp

lemma unat_Suc_lt:
  fixes x :: "'a::len word"
  shows "unat x + 1 < 2 ^ LENGTH('a) \<Longrightarrow> unat (x + 1) = unat x + 1"
  by (simp add: unat_word_ariths)

lemma unat_inc:
  fixes x :: "'a::len word"
  assumes "x + 1 \<noteq> 0"
  shows "unat (x + 1) = unat x + 1"
proof (rule unat_Suc_lt, rule ccontr)
  assume "\<not> unat x + 1 < 2 ^ LENGTH('a)"
  moreover have "unat x < 2 ^ LENGTH('a)" by (rule unsigned_less)
  ultimately have "unat x + 1 = 2 ^ LENGTH('a)" by linarith
  then have "unat (x + 1) = 0" by (simp add: unat_word_ariths)
  then show False using assms by (simp add: unat_eq_zero)
qed

lemma unat_pow2:
  assumes "n < LENGTH('a)"
  shows "unat (2 ^ n :: 'a::len word) = 2 ^ n"
proof -
  have "(2 ^ n :: 'a word) = of_nat (2 ^ n)" by simp
  then have "unat (2 ^ n :: 'a word) = 2 ^ n mod 2 ^ LENGTH('a)"
    by (metis unat_of_nat)
  with assms show ?thesis by simp
qed

lemma unat_less_2p: "unat (w :: 'a::len word) < 2 ^ LENGTH('a)"
  by (rule unsigned_less)

lemma unat_of_nat_small: "n < 2 ^ LENGTH('a) \<Longrightarrow> unat (of_nat n :: 'a::len word) = n"
  by (simp add: unat_of_nat)

lemma unat_sub_less:
  fixes x y :: "'a::len word"
  assumes "x \<le> y" "x \<noteq> 0"
  shows "unat (y - x) < unat y"
proof -
  have "0 < unat x" using assms(2) by (simp add: unat_gt_0)
  moreover have "unat x \<le> unat y" using assms(1) by (simp add: word_le_nat_alt)
  ultimately show ?thesis using assms(1) by (simp add: unat_sub)
qed

end
