(* ===== verification/KArray.thy ===== *)
theory KArray
  imports Prelude
begin

text \<open>
  The resizeable pointer array of \<^verbatim>\<open>kern/lib/array.c\<close> and \<^verbatim>\<open>kern/include/array.h\<close>.

  The structure keeps the allocated block \<open>a_v\<close> (one list element per pointer-sized
  cell), the element count \<open>a_num\<close> and the capacity \<open>a_max\<close>, the last two as 32-bit
  unsigned words with the source's wrap-around. \<open>kmalloc\<close> is a parameter: given a
  size in bytes it returns a block (its cells hold arbitrary contents) or fails.
\<close>

record 'a karray =
  a_v :: "'a list"
  a_num :: u32
  a_max :: u32

type_synonym 'a kmalloc = "nat \<Rightarrow> 'a list option"

definition array_init :: "'a karray" where
  "array_init = \<lparr>a_v = [], a_num = 0, a_max = 0\<rparr>"

definition array_num :: "'a karray \<Rightarrow> u32" where
  "array_num a = a_num a"

definition array_get :: "'a karray \<Rightarrow> u32 \<Rightarrow> 'a outcome" where
  "array_get a i =
     obind (kassert (i < a_num a)) (\<lambda>_. nth_or_fault (a_v a) (unat i))"

definition array_set :: "'a karray \<Rightarrow> u32 \<Rightarrow> 'a \<Rightarrow> 'a karray outcome" where
  "array_set a i x =
     obind (kassert (i < a_num a)) (\<lambda>_.
     obind (upd_or_fault (a_v a) (unat i) x) (\<lambda>v. Done (a\<lparr>a_v := v\<rparr>)))"

text \<open>The capacity loop: it doubles, in 32-bit arithmetic, until the request fits.\<close>

partial_function (option) grow_max :: "u32 \<Rightarrow> u32 \<Rightarrow> u32 option" where
  "grow_max num newmax =
     (if newmax < num then grow_max num (if newmax \<noteq> 0 then newmax * 2 else 4)
      else Some newmax)"

text \<open>
  \<^verbatim>\<open>memcpy(dest, src, n)\<close> over cells, as \<open>array_preallocate\<close> uses it: a fault when
  either block is shorter than the \<open>n\<close> cells it is asked to copy.
\<close>

definition copy_cells :: "'a list \<Rightarrow> 'a list \<Rightarrow> nat \<Rightarrow> 'a list outcome" where
  "copy_cells dest src n =
     (if n \<le> length dest \<and> n \<le> length src then Done (take n src @ drop n dest)
      else Stop Fault)"

text \<open>
  \<open>array_preallocate\<close>: the outer \<open>option\<close> is \<open>None\<close> when the capacity loop does not
  end; the size handed to \<open>kmalloc\<close> is \<^verbatim>\<open>newmax*sizeof(*a->v)\<close> in 32-bit arithmetic,
  and the block it returns has a quarter of that many cells.
\<close>

definition array_preallocate ::
  "'a kmalloc \<Rightarrow> 'a karray \<Rightarrow> u32 \<Rightarrow> (errno option \<times> 'a karray) outcome option" where
  "array_preallocate kmalloc a num =
     (if a_max a < num then
        (case grow_max num (a_max a) of
           None \<Rightarrow> None
         | Some newmax \<Rightarrow>
             Some (case kmalloc (unat (newmax * 4)) of
               None \<Rightarrow> Done (Some ENOMEM, a)
             | Some newptr \<Rightarrow>
                 obind (copy_cells newptr (a_v a) (unat (a_num a))) (\<lambda>v.
                   Done (None, a\<lparr>a_v := v, a_max := newmax\<rparr>))))
      else Some (Done (None, a)))"

definition array_setsize ::
  "'a kmalloc \<Rightarrow> 'a karray \<Rightarrow> u32 \<Rightarrow> (errno option \<times> 'a karray) outcome option" where
  "array_setsize kmalloc a num =
     map_option (\<lambda>r. obind r (\<lambda>(e, a').
       Done (case e of Some _ \<Rightarrow> (e, a') | None \<Rightarrow> (None, a'\<lparr>a_num := num\<rparr>))))
     (array_preallocate kmalloc a num)"

definition array_add ::
  "'a kmalloc \<Rightarrow> 'a karray \<Rightarrow> 'a \<Rightarrow> ((errno + u32) \<times> 'a karray) outcome option" where
  "array_add kmalloc a x =
     (let index = a_num a in
      map_option (\<lambda>r. obind r (\<lambda>(e, a').
        case e of
          Some er \<Rightarrow> Done (Inl er, a')
        | None \<Rightarrow> obind (upd_or_fault (a_v a') (unat index) x) (\<lambda>v.
                    Done (Inr index, a'\<lparr>a_v := v\<rparr>))))
      (array_setsize kmalloc a (index + 1)))"

text \<open>\<^verbatim>\<open>memmove(v+index, v+index+1, n)\<close> over cells.\<close>

definition slide_cells :: "'a list \<Rightarrow> nat \<Rightarrow> nat \<Rightarrow> 'a list outcome" where
  "slide_cells v i n =
     (if i + 1 + n \<le> length v
      then Done (take i v @ take n (drop (i + 1) v) @ drop (i + n) v)
      else Stop Fault)"

definition array_remove :: "'a karray \<Rightarrow> u32 \<Rightarrow> 'a karray outcome" where
  "array_remove a index =
     obind (kassert (a_num a \<le> a_max a)) (\<lambda>_.
     obind (kassert (index < a_num a)) (\<lambda>_.
     let num_to_move = a_num a - (index + 1) in
     obind (slide_cells (a_v a) (unat index) (unat num_to_move)) (\<lambda>v.
       Done (a\<lparr>a_v := v, a_num := a_num a - 1\<rparr>))))"

definition array_cleanup :: "'a karray \<Rightarrow> 'a karray outcome" where
  "array_cleanup a = obind (kassert (a_num a = 0)) (\<lambda>_. Done (a\<lparr>a_v := []\<rparr>))"

section \<open>The invariant and the list abstraction\<close>

definition array_inv :: "'a karray \<Rightarrow> bool" where
  "array_inv a \<longleftrightarrow> length (a_v a) = unat (a_max a) \<and> a_num a \<le> a_max a \<and> unat (a_max a) < 2 ^ 30"

definition array_list :: "'a karray \<Rightarrow> 'a list" where
  "array_list a = take (unat (a_num a)) (a_v a)"

text \<open>What the array relies on of \<open>kmalloc\<close>: a block is as large as requested.\<close>

definition kmalloc_sized :: "'a kmalloc \<Rightarrow> bool" where
  "kmalloc_sized kmalloc \<longleftrightarrow> (\<forall>n b. kmalloc n = Some b \<longrightarrow> length b = n div 4)"

section \<open>The capacity loop\<close>

lemma grow_max_ge: "k \<ge> num \<Longrightarrow> grow_max num k = Some k"
  by (subst grow_max.simps) (simp add: leD)

lemma grow_max_step:
  "k < num \<Longrightarrow> grow_max num k = grow_max num (if k \<noteq> 0 then k * 2 else 4)"
  by (subst grow_max.simps) simp

lemma unat_double: "unat k < 2 ^ 31 \<Longrightarrow> unat (k * 2) = 2 * unat (k :: u32)"
  by (simp add: unat_word_ariths)

lemma grow_max_returns:
  assumes "unat num \<le> 2 ^ 29"
  shows "\<exists>m. grow_max num k = Some m \<and> num \<le> m \<and> (k < num \<longrightarrow> unat m < 2 ^ 30)"
proof (induction "unat num - unat k" arbitrary: k rule: less_induct)
  case less
  show ?case
  proof (cases "k < num")
    case False
    then show ?thesis by (auto simp: not_less grow_max_ge)
  next
    case True
    define k' :: u32 where "k' = (if k \<noteq> 0 then k * 2 else 4)"
    from True assms have small: "unat k < 2 ^ 29" by (simp add: word_less_nat_alt)
    then have k': "unat k' = (if k \<noteq> 0 then 2 * unat k else 4)"
      by (simp add: k'_def unat_double)
    have "unat k < unat k'" using k' by (auto simp: unat_gt_0)
    with True have "unat num - unat k' < unat num - unat k"
      by (simp add: word_less_nat_alt)
    from less [OF this] obtain m where
      m: "grow_max num k' = Some m" "num \<le> m" "k' < num \<longrightarrow> unat m < 2 ^ 30" by blast
    have "unat m < 2 ^ 30"
    proof (cases "k' < num")
      case False
      then have "m = k'" using m(1) by (simp add: grow_max_ge not_less)
      then show ?thesis using k' small by (auto split: if_splits)
    qed (use m(3) in simp)
    with m(1,2) True show ?thesis by (simp add: grow_max_step k'_def)
  qed
qed

text \<open>
  Beyond \<open>2 ^ 31\<close> the doubling wraps to 0 and starts over: the loop never returns.
\<close>

definition pow2_or_zero :: "u32 \<Rightarrow> bool" where
  "pow2_or_zero k \<longleftrightarrow> k = 0 \<or> (\<exists>i < 32. k = 2 ^ i)"

lemma pow2_or_zero_double: "pow2_or_zero k \<Longrightarrow> pow2_or_zero (k * 2)"
proof -
  assume "pow2_or_zero k"
  then consider "k = 0" | i where "i < 32" "k = 2 ^ i" by (auto simp: pow2_or_zero_def)
  then show "pow2_or_zero (k * 2)"
  proof cases
    case (2 i)
    show ?thesis
    proof (cases "i = 31")
      case True
      with 2 show ?thesis by (simp add: pow2_or_zero_def)
    next
      case False
      with 2 have "Suc i < 32" and "k * 2 = 2 ^ Suc i" by auto
      then show ?thesis unfolding pow2_or_zero_def by blast
    qed
  qed (simp add: pow2_or_zero_def)
qed

lemma pow2_or_zero_bound: "pow2_or_zero k \<Longrightarrow> unat k \<le> 2 ^ 31"
proof -
  assume "pow2_or_zero k"
  then consider "k = 0" | i where "i < 32" "k = 2 ^ i" by (auto simp: pow2_or_zero_def)
  then show ?thesis
  proof cases
    case (2 i)
    then have "unat k = 2 ^ i" by (simp add: unat_pow2)
    also have "\<dots> \<le> 2 ^ 31" using \<open>i < 32\<close> by (intro power_increasing) auto
    finally show ?thesis .
  qed simp
qed

lemma grow_max_pow2:
  assumes "grow_max num k = Some m" "pow2_or_zero k"
  shows "num \<le> m \<and> pow2_or_zero m"
proof -
  have "pow2_or_zero k \<longrightarrow> num \<le> m \<and> pow2_or_zero m"
  proof (rule grow_max.raw_induct
      [where P = "\<lambda>num k m. pow2_or_zero k \<longrightarrow> num \<le> m \<and> pow2_or_zero m", OF _ assms(1)])
    fix f :: "u32 \<Rightarrow> u32 \<Rightarrow> u32 option" and num k m :: u32
    assume IH: "\<And>num k m. f num k = Some m \<Longrightarrow> pow2_or_zero k \<longrightarrow> num \<le> m \<and> pow2_or_zero m"
      and eq: "(if k < num then f num (if k \<noteq> 0 then k * 2 else 4) else Some k) = Some m"
    have four: "pow2_or_zero 4"
      unfolding pow2_or_zero_def by (rule disjI2, rule exI [of _ 2]) simp
    show "pow2_or_zero k \<longrightarrow> num \<le> m \<and> pow2_or_zero m"
    proof (cases "k < num")
      case True
      with eq have "f num (if k \<noteq> 0 then k * 2 else 4) = Some m" by simp
      from IH [OF this] show ?thesis using pow2_or_zero_double four by (auto split: if_splits)
    next
      case False
      with eq show ?thesis by (auto simp: not_less)
    qed
  qed
  with assms(2) show ?thesis by blast
qed

lemma grow_max_diverges:
  assumes "unat num > 2 ^ 31" shows "grow_max num 0 = None"
proof (rule ccontr)
  assume "grow_max num 0 \<noteq> None"
  then obtain m where "grow_max num 0 = Some m" by blast
  then have "num \<le> m" "pow2_or_zero m"
    using grow_max_pow2 by (auto simp: pow2_or_zero_def)
  then show False using pow2_or_zero_bound [of m] assms by (simp add: word_le_nat_alt)
qed

section \<open>The operations against the list abstraction\<close>

lemma length_array_list [simp]: "array_inv a \<Longrightarrow> length (array_list a) = unat (a_num a)"
  by (simp add: array_inv_def array_list_def word_le_nat_alt)

lemma array_init_list: "array_inv array_init \<and> array_list array_init = []"
  by (simp add: array_inv_def array_list_def array_init_def)

lemma array_get_list:
  "array_inv a \<Longrightarrow> array_get a i =
     (if unat i < length (array_list a) then Done (array_list a ! unat i) else Stop Panic)"
  by (auto simp: array_get_def array_inv_def array_list_def word_le_nat_alt
      word_less_nat_alt nth_or_fault_def)

lemma array_set_list:
  assumes "array_inv a" "unat i < length (array_list a)"
  shows "\<exists>a'. array_set a i x = Done a' \<and> array_inv a' \<and>
               array_list a' = (array_list a)[unat i := x]"
  using assms
  by (auto simp: array_set_def array_inv_def array_list_def word_le_nat_alt
      word_less_nat_alt take_update_swap)

lemma array_preallocate_spec:
  assumes k: "kmalloc_sized kmalloc" and inv: "array_inv a" and num: "unat num \<le> 2 ^ 29"
  shows "(\<exists>a'. array_preallocate kmalloc a num = Some (Done (None, a')) \<and> array_inv a' \<and>
              array_list a' = array_list a \<and> a_num a' = a_num a \<and> num \<le> a_max a') \<or>
         array_preallocate kmalloc a num = Some (Done (Some ENOMEM, a))"
proof (cases "a_max a < num")
  case False
  then show ?thesis using inv by (auto simp: array_preallocate_def not_less)
next
  case True
  with num obtain m where m: "grow_max num (a_max a) = Some m" "num \<le> m" "unat m < 2 ^ 30"
    using grow_max_returns by blast
  have size: "unat (m * 4) = 4 * unat m"
    using m(3) by (simp add: unat_word_ariths)
  show ?thesis
  proof (cases "kmalloc (unat (m * 4))")
    case None
    then show ?thesis using True m by (simp add: array_preallocate_def)
  next
    case (Some b)
    then have len: "length b = unat m" using k size by (auto simp: kmalloc_sized_def)
    have ord: "a_num a \<le> a_max a" "a_max a < num" "num \<le> m"
      using inv True m by (auto simp: array_inv_def)
    then have le: "unat (a_num a) \<le> unat m" "a_num a \<le> m"
      by (simp_all add: word_le_nat_alt word_less_nat_alt)
    let ?v = "take (unat (a_num a)) (a_v a) @ drop (unat (a_num a)) b"
    have "copy_cells b (a_v a) (unat (a_num a)) = Done ?v"
      using inv le len by (simp add: copy_cells_def array_inv_def word_le_nat_alt)
    then have "array_preallocate kmalloc a num = Some (Done (None, a\<lparr>a_v := ?v, a_max := m\<rparr>))"
      using True m(1) Some by (simp add: array_preallocate_def)
    moreover have "array_inv (a\<lparr>a_v := ?v, a_max := m\<rparr>)"
      using inv m(3) le len by (auto simp: array_inv_def word_le_nat_alt)
    moreover have "array_list (a\<lparr>a_v := ?v, a_max := m\<rparr>) = array_list a"
      using inv by (simp add: array_list_def array_inv_def word_le_nat_alt)
    ultimately show ?thesis using m(2) by auto
  qed
qed

lemma array_setsize_spec:
  assumes "kmalloc_sized kmalloc" "array_inv a" "unat num \<le> 2 ^ 29"
  shows "(\<exists>a'. array_setsize kmalloc a num = Some (Done (None, a')) \<and> array_inv a' \<and>
              a_num a' = num \<and> take (unat (a_num a)) (a_v a') = array_list a) \<or>
         array_setsize kmalloc a num = Some (Done (Some ENOMEM, a))"
  using array_preallocate_spec [OF assms]
proof (elim disjE exE conjE)
  fix a'
  assume *: "array_preallocate kmalloc a num = Some (Done (None, a'))" "array_inv a'"
    "array_list a' = array_list a" "a_num a' = a_num a" "num \<le> a_max a'"
  then have "array_setsize kmalloc a num = Some (Done (None, a'\<lparr>a_num := num\<rparr>))"
    by (simp add: array_setsize_def)
  with * show ?thesis by (auto simp: array_inv_def array_list_def)
qed (simp add: array_setsize_def)

lemma array_add_spec:
  assumes k: "kmalloc_sized kmalloc" and inv: "array_inv a"
    and room: "length (array_list a) < 2 ^ 29"
  shows "(\<exists>a'. array_add kmalloc a x = Some (Done (Inr (a_num a), a')) \<and> array_inv a' \<and>
              array_list a' = array_list a @ [x]) \<or>
         array_add kmalloc a x = Some (Done (Inl ENOMEM, a))"
proof -
  have num: "unat (a_num a + 1) = unat (a_num a) + 1"
    using room inv by (intro unat_Suc_lt) simp
  then have "unat (a_num a + 1) \<le> 2 ^ 29" using room inv by simp
  from array_setsize_spec [OF k inv this] show ?thesis
  proof (elim disjE exE conjE)
    fix a'
    assume *: "array_setsize kmalloc a (a_num a + 1) = Some (Done (None, a'))" "array_inv a'"
      "a_num a' = a_num a + 1" "take (unat (a_num a)) (a_v a') = array_list a"
    have lt: "unat (a_num a) < length (a_v a')"
      using *(2,3) num by (simp add: array_inv_def word_le_nat_alt)
    then have "array_add kmalloc a x =
        Some (Done (Inr (a_num a), a'\<lparr>a_v := (a_v a')[unat (a_num a) := x]\<rparr>))"
      using *(1) by (simp add: array_add_def Let_def)
    then show ?thesis using * lt num
      by (simp add: array_inv_def array_list_def list_update_append_take)
  qed (simp add: array_add_def Let_def)
qed

lemma array_remove_spec:
  assumes inv: "array_inv a" and i: "unat i < length (array_list a)"
  shows "\<exists>a'. array_remove a i = Done a' \<and> array_inv a' \<and>
     array_list a' = take (unat i) (array_list a) @ drop (Suc (unat i)) (array_list a)"
proof -
  let ?n = "unat (a_num a)" and ?i = "unat i"
  have lt: "?i < ?n" using i inv by simp
  have n_max: "?n \<le> length (a_v a)" "a_num a \<le> a_max a"
    using inv by (auto simp: array_inv_def word_le_nat_alt)
  have "unat (i + 1) = ?i + 1"
    using lt unat_less_2p [of "a_num a"] by (intro unat_Suc_lt) simp
  then have mv: "unat (a_num a - (i + 1)) = ?n - (?i + 1)"
    using lt by (simp add: unat_sub_if')
  have n1: "unat (a_num a - 1) = ?n - 1" using lt by (simp add: unat_sub_if')
  let ?v = "take ?i (a_v a) @ take (?n - (?i + 1)) (drop (?i + 1) (a_v a)) @ drop (?n - 1) (a_v a)"
  have rem: "array_remove a i = Done (a\<lparr>a_v := ?v, a_num := a_num a - 1\<rparr>)"
    using lt n_max mv by (simp add: array_remove_def slide_cells_def Let_def word_less_nat_alt)
  have len: "length ?v = length (a_v a)" using lt n_max by simp
  have inv': "array_inv (a\<lparr>a_v := ?v, a_num := a_num a - 1\<rparr>)"
    using inv len n1 by (auto simp: array_inv_def word_le_nat_alt)
  have "take (?n - 1) ?v = take ?i (a_v a) @ take (?n - (?i + 1)) (drop (?i + 1) (a_v a))"
    using lt n_max by simp
  also have "\<dots> = take ?i (array_list a) @ drop (Suc ?i) (array_list a)"
    using lt by (simp add: array_list_def min_def drop_take)
  finally show ?thesis using rem inv' n1 by (simp add: array_list_def)
qed

section \<open>The contract of a growable array\<close>

text \<open>
  The contract a client of a growable array relies on: \<open>add\<close> either fails and leaves
  the array as it was, or appends and returns the new element's index; \<open>get\<close> reads the
  element at an index below the count; \<open>remove\<close> closes the gap. \<open>kok\<close> is what the array
  in turn relies on of its allocator.
\<close>

locale growable_array =
  fixes kok :: "'k \<Rightarrow> bool"
    and inv :: "'s \<Rightarrow> bool"
    and lst :: "'s \<Rightarrow> 'a list"
    and limit :: nat
    and add :: "'k \<Rightarrow> 's \<Rightarrow> 'a \<Rightarrow> ((errno + u32) \<times> 's) outcome option"
    and get :: "'s \<Rightarrow> u32 \<Rightarrow> 'a outcome"
    and remove :: "'s \<Rightarrow> u32 \<Rightarrow> 's outcome"
  assumes add_law: "kok k \<Longrightarrow> inv s \<Longrightarrow> length (lst s) < limit \<Longrightarrow>
      (\<exists>i s'. add k s x = Some (Done (Inr i, s')) \<and> unat i = length (lst s) \<and> inv s' \<and>
              lst s' = lst s @ [x]) \<or>
      (\<exists>e. add k s x = Some (Done (Inl e, s)))"
    and get_law: "inv s \<Longrightarrow> unat i < length (lst s) \<Longrightarrow> get s i = Done (lst s ! unat i)"
    and remove_law: "inv s \<Longrightarrow> unat i < length (lst s) \<Longrightarrow>
      \<exists>s'. remove s i = Done s' \<and> inv s' \<and>
           lst s' = take (unat i) (lst s) @ drop (Suc (unat i)) (lst s)"
begin

lemma add_get:
  assumes "kok k" "inv s" "length (lst s) < limit" "add k s x = Some (Done (Inr i, s'))"
  shows "get s' i = Done x"
    and "unat j < length (lst s) \<Longrightarrow> get s' j = get s j"
  using add_law [OF assms(1-3), of x] assms(2,4) get_law by (auto simp: nth_append)

lemma add_remove_last:
  assumes "kok k" "inv s" "length (lst s) < limit" "add k s x = Some (Done (Inr i, s'))"
  shows "\<exists>s''. remove s' i = Done s'' \<and> inv s'' \<and> lst s'' = lst s"
proof -
  from add_law [OF assms(1-3), of x] assms(4)
  have s': "inv s'" "unat i = length (lst s)" "lst s' = lst s @ [x]" by auto
  with remove_law [of s' i] show ?thesis by auto
qed

lemma get_after_remove:
  assumes "inv s" "unat i < length (lst s)" "remove s i = Done s'" "unat j + 1 < length (lst s)"
  shows "get s' j = Done (lst s ! (if unat j < unat i then unat j else unat j + 1))"
proof -
  from remove_law [OF assms(1,2)] assms(3)
  have s': "inv s'" "lst s' = take (unat i) (lst s) @ drop (Suc (unat i)) (lst s)" by auto
  with assms(2,4) have "unat j < length (lst s')" by auto
  from get_law [OF s'(1) this] show ?thesis
    using s'(2) assms(2,4) by (auto simp: nth_append)
qed

end

interpretation karr: growable_array kmalloc_sized array_inv array_list "2 ^ 29"
  array_add array_get array_remove
proof (unfold_locales, goal_cases)
  case (1 k s x)
  then have "unat (a_num s) = length (array_list s)" by simp
  with array_add_spec [OF 1, of x] show ?case by blast
next
  case (2 s i)
  then show ?case by (simp add: array_get_list)
next
  case (3 s i)
  then show ?case by (rule array_remove_spec)
qed

section \<open>Properties\<close>

text \<open>C37.  The array implements a list: \<^verbatim>\<open>array_add\<close> appends and returns the index of the new
  element, or reports \<^verbatim>\<open>ENOMEM\<close> and changes nothing; \<^verbatim>\<open>array_get\<close> reads by index and fails its
  assertion out of range; \<^verbatim>\<open>array_remove\<close> deletes one element and closes the gap.\<close>

theorem array_refines_list:
  assumes "kmalloc_sized kmalloc" "array_inv a" "length (array_list a) < 2 ^ 29"
  shows "(\<exists>r a'. array_add kmalloc a x = Some (Done (r, a')) \<and> array_inv a' \<and>
      (case r of Inr i \<Rightarrow> unat i = length (array_list a) \<and> array_list a' = array_list a @ [x] \<and> array_get a' i = Done x
       | Inl e \<Rightarrow> e = ENOMEM \<and> a' = a)) \<and>
    array_get a i = (if unat i < length (array_list a) then Done (array_list a ! unat i) else Stop Panic) \<and>
    (unat i < length (array_list a) \<longrightarrow> (\<exists>a'. array_remove a i = Done a' \<and> array_inv a' \<and>
       array_list a' = take (unat i) (array_list a) @ drop (Suc (unat i)) (array_list a)))"
proof -
  have "\<exists>r a'. array_add kmalloc a x = Some (Done (r, a')) \<and> array_inv a' \<and>
      (case r of Inr i \<Rightarrow> unat i = length (array_list a) \<and> array_list a' = array_list a @ [x] \<and> array_get a' i = Done x
       | Inl e \<Rightarrow> e = ENOMEM \<and> a' = a)"
    using array_add_spec [OF assms, of x] karr.add_get(1) [OF assms] assms(2) by (auto simp: length_array_list)
  then show ?thesis using array_get_list [OF assms(2)] array_remove_spec [OF assms(2)] by simp
qed

theorem array_refines_list_witness:
  "\<exists>r a'. array_add (\<lambda>n. Some (replicate (n div 4) (0::nat))) array_init 7 = Some (Done (r, a')) \<and> array_inv a'"
proof -
  have "kmalloc_sized (\<lambda>n. Some (replicate (n div 4) (0::nat)))" by (simp add: kmalloc_sized_def)
  then show ?thesis
    using array_refines_list [of "\<lambda>n. Some (replicate (n div 4) (0::nat))" array_init 7 0] array_init_list
    by (auto simp: array_init_def)
qed

text \<open>C38.  The capacity loop of \<^verbatim>\<open>array_preallocate\<close> ends with a capacity that fits for every
  request up to \<open>2 ^ 29\<close>; from an empty array it never ends for a request above \<open>2 ^ 31\<close>,
  because the doubled capacity wraps to zero.\<close>

theorem array_preallocate_loop:
  "(unat num \<le> 2 ^ 29 \<longrightarrow> (\<exists>m. grow_max num k = Some m \<and> num \<le> m)) \<and>
   (2 ^ 31 < unat num \<longrightarrow> array_preallocate kmalloc array_init num = None)"
proof -
  have "array_preallocate kmalloc array_init num = None" if "2 ^ 31 < unat num"
    using grow_max_diverges [OF that] that
    by (auto simp: array_preallocate_def array_init_def word_less_nat_alt)
  then show ?thesis using grow_max_returns by blast
qed

theorem array_preallocate_loop_witness:
  "array_preallocate (\<lambda>_. None) (array_init :: nat karray) 0x90000000 = None \<and> (\<exists>m. grow_max 100 0 = Some m)"
  using array_preallocate_loop [where num = "0x90000000" and kmalloc = "\<lambda>_. None :: nat list option"]
    array_preallocate_loop [where num = 100 and k = 0] by auto

end
