(* ===== verification/KBitmap.thy ===== *)
theory KBitmap
  imports Prelude
begin

text \<open>
  The fixed-size bit array of \<^verbatim>\<open>kern/lib/bitmap.c\<close>, which SFS uses as its map of free
  disk blocks. The bits are kept in bytes, low bit first, as on disk; the bits of the
  last byte beyond \<open>nbits\<close> are marked in use when the map is created, so that a search
  for a clear bit never returns one of them.
\<close>

record bitmap =
  nbits :: u32
  bm_v :: "u8 list"

definition DIVROUNDUP :: "u32 \<Rightarrow> u32 \<Rightarrow> u32" where
  "DIVROUNDUP a b = (a + b - 1) div b"

text \<open>\<^verbatim>\<open>(WORD_TYPE)1 << offset\<close>\<close>

definition bit_mask :: "nat \<Rightarrow> u8" where
  "bit_mask offset = push_bit offset 1"

text \<open>\<^verbatim>\<open>for (j=overbits; j<BITS_PER_WORD; j++) b->v[ix] |= 1 << j\<close>\<close>

function mark_over :: "nat \<Rightarrow> u8 \<Rightarrow> u8" where
  "mark_over j w = (if j < 8 then mark_over (Suc j) (w OR bit_mask j) else w)"
  by pat_completeness auto
termination
  by (relation "measure (\<lambda>(j, w). 8 - j)") auto

text \<open>
  \<open>bitmap_create\<close>: the two flags say whether each of the two \<open>kmalloc\<close> calls succeeds.
\<close>

definition bitmap_create :: "bool \<Rightarrow> bool \<Rightarrow> u32 \<Rightarrow> bitmap option outcome" where
  "bitmap_create ok1 ok2 n =
     (let words = DIVROUNDUP n 8 in
      if \<not> ok1 then Done None
      else if \<not> ok2 then Done None
      else
        let v = replicate (unat words) 0 in
        if words > n div 8 then
          let ix = words - 1; overbits = n - ix * 8 in
          obind (kassert (n div 8 = words - 1)) (\<lambda>_.
          obind (kassert (overbits > 0 \<and> overbits < 8)) (\<lambda>_.
          obind (nth_or_fault v (unat ix)) (\<lambda>w.
            Done (Some \<lparr>nbits = n, bm_v = v[unat ix := mark_over (unat overbits) w]\<rparr>))))
        else Done (Some \<lparr>nbits = n, bm_v = v\<rparr>))"

text \<open>The inner loop of \<open>bitmap_alloc\<close>: the first clear bit of one byte.\<close>

function first_clear :: "u8 \<Rightarrow> nat \<Rightarrow> nat option" where
  "first_clear w offset =
     (if offset < 8 then
        if w AND bit_mask offset = 0 then Some offset else first_clear w (Suc offset)
      else None)"
  by pat_completeness auto
termination
  by (relation "measure (\<lambda>(w, offset). 8 - offset)") auto

text \<open>The outer loop, from byte \<open>ix\<close> on.\<close>

function bitmap_alloc_from :: "bitmap \<Rightarrow> nat \<Rightarrow> nat \<Rightarrow> ((errno + u32) \<times> bitmap) outcome" where
  "bitmap_alloc_from b maxix ix =
     (if ix < maxix then
        if ix < length (bm_v b) then
          if bm_v b ! ix \<noteq> 0xff then
            (case first_clear (bm_v b ! ix) 0 of
               Some offset \<Rightarrow>
                 let index = of_nat ix * 8 + of_nat offset in
                 obind (kassert (index < nbits b)) (\<lambda>_.
                   Done (Inr index,
                     b\<lparr>bm_v := (bm_v b)[ix := bm_v b ! ix OR bit_mask offset]\<rparr>))
             | None \<Rightarrow> Stop Panic)
          else bitmap_alloc_from b maxix (Suc ix)
        else Stop Fault
      else Done (Inl ENOSPC, b))"
  by pat_completeness auto
termination
  by (relation "measure (\<lambda>(b, maxix, ix). maxix - ix)") auto

definition bitmap_alloc :: "bitmap \<Rightarrow> ((errno + u32) \<times> bitmap) outcome" where
  "bitmap_alloc b = bitmap_alloc_from b (unat (DIVROUNDUP (nbits b) 8)) 0"

definition bitmap_translate :: "u32 \<Rightarrow> nat \<times> u8" where
  "bitmap_translate bitno = (unat (bitno div 8), bit_mask (unat (bitno mod 8)))"

definition bitmap_mark :: "bitmap \<Rightarrow> u32 \<Rightarrow> bitmap outcome" where
  "bitmap_mark b index =
     obind (kassert (index < nbits b)) (\<lambda>_.
     let (ix, mask) = bitmap_translate index in
     obind (nth_or_fault (bm_v b) ix) (\<lambda>w.
     obind (kassert (w AND mask = 0)) (\<lambda>_.
       Done (b\<lparr>bm_v := (bm_v b)[ix := w OR mask]\<rparr>))))"

definition bitmap_unmark :: "bitmap \<Rightarrow> u32 \<Rightarrow> bitmap outcome" where
  "bitmap_unmark b index =
     obind (kassert (index < nbits b)) (\<lambda>_.
     let (ix, mask) = bitmap_translate index in
     obind (nth_or_fault (bm_v b) ix) (\<lambda>w.
     obind (kassert (w AND mask \<noteq> 0)) (\<lambda>_.
       Done (b\<lparr>bm_v := (bm_v b)[ix := w AND NOT mask]\<rparr>))))"

definition bitmap_isset :: "bitmap \<Rightarrow> u32 \<Rightarrow> u8 outcome" where
  "bitmap_isset b index =
     (let (ix, mask) = bitmap_translate index in
      obind (nth_or_fault (bm_v b) ix) (\<lambda>w. Done (w AND mask)))"

section \<open>The set of marked bits and the invariant\<close>

definition bm_bit :: "bitmap \<Rightarrow> nat \<Rightarrow> bool" where
  "bm_bit b i = bit (bm_v b ! (i div 8)) (i mod 8)"

definition marked :: "bitmap \<Rightarrow> nat set" where
  "marked b = {i. i < unat (nbits b) \<and> bm_bit b i}"

definition bitmap_inv :: "bitmap \<Rightarrow> bool" where
  "bitmap_inv b \<longleftrightarrow>
     unat (nbits b) \<le> 2 ^ 32 - 8 \<and>
     length (bm_v b) = (unat (nbits b) + 7) div 8 \<and>
     (\<forall>i. unat (nbits b) \<le> i \<longrightarrow> i < 8 * length (bm_v b) \<longrightarrow> bm_bit b i)"

section \<open>Single bytes\<close>

declare mark_over.simps [simp del] first_clear.simps [simp del]
  bitmap_alloc_from.simps [simp del]

lemma and_bit_mask [simp]: "w AND bit_mask n = 0 \<longleftrightarrow> \<not> bit w n"
  by (simp add: bit_mask_def and_exp_eq_0_iff_not_bit push_bit_of_1)

lemma bit_or_mask: "n < 8 \<Longrightarrow> bit (w OR bit_mask n) m \<longleftrightarrow> bit w m \<or> m = n"
  by (auto simp: bit_mask_def bit_or_iff bit_exp_iff)

lemma bit_and_not_mask: "n < 8 \<Longrightarrow> bit (w AND NOT (bit_mask n)) m \<longleftrightarrow> bit w m \<and> m \<noteq> n"
  by (auto simp: bit_mask_def bit_and_iff bit_not_iff bit_exp_iff dest: bit_imp_le_length)

lemma byte_full_iff: "w = (0xff :: u8) \<longleftrightarrow> (\<forall>n < 8. bit w n)"
proof -
  have "(0xff :: u8) = - 1" by simp
  then show ?thesis
    by (auto simp: bit_eq_iff)
qed

lemma mark_over_bit: "bit (mark_over j w) m \<longleftrightarrow> bit w m \<or> j \<le> m \<and> m < 8"
proof (induction j w rule: mark_over.induct)
  case (1 j w)
  show ?case
  proof (cases "j < 8")
    case True
    with "1.IH" show ?thesis
      by (subst mark_over.simps) (auto simp: bit_or_mask)
  next
    case False
    then show ?thesis by (subst mark_over.simps) auto
  qed
qed

lemma first_clear_Some:
  "first_clear w k = Some n \<longleftrightarrow> k \<le> n \<and> n < 8 \<and> \<not> bit w n \<and> (\<forall>m. k \<le> m \<longrightarrow> m < n \<longrightarrow> bit w m)"
proof (induction w k rule: first_clear.induct)
  case (1 w k)
  show ?case
  proof (cases "k < 8 \<and> bit w k")
    case True
    then have "first_clear w k = first_clear w (Suc k)"
      by (subst first_clear.simps) simp
    moreover from True have "w AND bit_mask k \<noteq> 0" by simp
    moreover have "(\<forall>m. k \<le> m \<longrightarrow> m < n \<longrightarrow> bit w m) \<longleftrightarrow> (\<forall>m. Suc k \<le> m \<longrightarrow> m < n \<longrightarrow> bit w m)"
      using True by (metis Suc_le_eq le_less)
    ultimately show ?thesis using "1.IH" True by (auto simp: Suc_le_eq order.order_iff_strict)
  next
    case False
    then have "first_clear w k = (if k < 8 then Some k else None)"
      by (subst first_clear.simps) simp
    then show ?thesis using False by (auto simp: le_less)
  qed
qed

lemma first_clear_exists: "w \<noteq> 0xff \<Longrightarrow> \<exists>n. first_clear w 0 = Some n"
proof -
  assume "w \<noteq> 0xff"
  then have ex: "\<exists>n. n < 8 \<and> \<not> bit w n" by (simp add: byte_full_iff)
  define n where "n = (LEAST n. n < 8 \<and> \<not> bit w n)"
  from ex have "n < 8 \<and> \<not> bit w n" unfolding n_def by (rule LeastI_ex)
  moreover have "bit w m" if "m < n" for m
    using not_less_Least [of m "\<lambda>n. n < 8 \<and> \<not> bit w n"] that calculation
    unfolding n_def by auto
  ultimately show ?thesis by (auto simp: first_clear_Some)
qed

section \<open>Whole bitmaps\<close>

lemma unat_DIVROUNDUP:
  "unat n \<le> 2 ^ 32 - 8 \<Longrightarrow> unat (DIVROUNDUP n 8) = (unat n + 7) div 8"
proof -
  assume le: "unat n \<le> 2 ^ 32 - 8"
  have seven: "n + 8 - 1 = n + (7 :: u32)" by simp
  have sum: "unat (n + 7) = unat n + 7" using le by (simp add: unat_word_ariths)
  have "unat (DIVROUNDUP n 8) = unat (n + 7) div unat (8 :: u32)"
    by (simp only: DIVROUNDUP_def seven unat_div_distrib)
  also have "\<dots> = (unat n + 7) div 8" by (simp only: sum) simp
  finally show ?thesis .
qed

lemma index_split:
  assumes "bitmap_inv b" "i < unat (nbits b)"
  shows "i div 8 < length (bm_v b)"
  using assms by (auto simp: bitmap_inv_def)

lemma bitmap_translate_eq:
  "bitmap_translate i = (unat i div 8, bit_mask (unat i mod 8))"
  by (simp add: bitmap_translate_def unat_div_distrib unat_mod_distrib)

text \<open>Setting or clearing one bit of the underlying bytes.\<close>

lemma bm_bit_update:
  assumes "k div 8 < length (bm_v b)"
    and "\<And>m. m < 8 \<Longrightarrow> bit w m \<longleftrightarrow> (if m = k mod 8 then x else bit (bm_v b ! (k div 8)) m)"
  shows "bm_bit (b\<lparr>bm_v := (bm_v b)[k div 8 := w]\<rparr>) i = (if i = k then x else bm_bit b i)"
proof (cases "i div 8 = k div 8")
  case True
  have "i = k \<longleftrightarrow> i mod 8 = k mod 8"
    using True by (metis div_mult_mod_eq)
  then show ?thesis using True assms by (auto simp: bm_bit_def)
next
  case False
  then show ?thesis by (auto simp: bm_bit_def)
qed

lemma bitmap_inv_update:
  assumes "bitmap_inv b" "k < unat (nbits b)"
    and "\<And>i. bm_bit (b\<lparr>bm_v := (bm_v b)[k div 8 := w]\<rparr>) i = (if i = k then x else bm_bit b i)"
  shows "bitmap_inv (b\<lparr>bm_v := (bm_v b)[k div 8 := w]\<rparr>)"
  using assms by (auto simp: bitmap_inv_def)

lemma marked_update:
  assumes "k < unat (nbits b)"
    and "\<And>i. bm_bit (b\<lparr>bm_v := (bm_v b)[k div 8 := w]\<rparr>) i = (if i = k then x else bm_bit b i)"
  shows "marked (b\<lparr>bm_v := (bm_v b)[k div 8 := w]\<rparr>) =
     (if x then insert k (marked b) else marked b - {k})"
  using assms by (auto simp: marked_def)

lemma bitmap_mark_spec:
  assumes inv: "bitmap_inv b" and i: "unat i < unat (nbits b)"
  shows "unat i \<notin> marked b \<Longrightarrow>
      \<exists>b'. bitmap_mark b i = Done b' \<and> bitmap_inv b' \<and> nbits b' = nbits b \<and>
           marked b' = insert (unat i) (marked b)"
    and "unat i \<in> marked b \<Longrightarrow> bitmap_mark b i = Stop Panic"
proof -
  let ?k = "unat i" let ?w = "bm_v b ! (?k div 8)"
  have lt: "?k div 8 < length (bm_v b)" using inv i by (rule index_split)
  have bit_k: "bit ?w (?k mod 8) \<longleftrightarrow> ?k \<in> marked b" using i by (simp add: marked_def bm_bit_def)
  let ?b = "b\<lparr>bm_v := (bm_v b)[?k div 8 := ?w OR bit_mask (?k mod 8)]\<rparr>"
  have upd: "bm_bit ?b j = (if j = ?k then True else bm_bit b j)" for j
    by (rule bm_bit_update [OF lt]) (simp add: bit_or_mask)
  have eq: "bitmap_mark b i = (if bit ?w (?k mod 8) then Stop Panic else Done ?b)"
    using lt i by (simp add: bitmap_mark_def bitmap_translate_eq word_less_nat_alt)
  show "\<exists>b'. bitmap_mark b i = Done b' \<and> bitmap_inv b' \<and> nbits b' = nbits b \<and>
           marked b' = insert ?k (marked b)" if "?k \<notin> marked b"
    using that eq bit_k bitmap_inv_update [OF inv i upd] marked_update [OF i upd] by simp
  show "bitmap_mark b i = Stop Panic" if "?k \<in> marked b"
    using that eq bit_k by simp
qed

lemma bitmap_unmark_spec:
  assumes inv: "bitmap_inv b" and i: "unat i < unat (nbits b)"
  shows "unat i \<in> marked b \<Longrightarrow>
      \<exists>b'. bitmap_unmark b i = Done b' \<and> bitmap_inv b' \<and> nbits b' = nbits b \<and>
           marked b' = marked b - {unat i}"
    and "unat i \<notin> marked b \<Longrightarrow> bitmap_unmark b i = Stop Panic"
proof -
  let ?k = "unat i" let ?w = "bm_v b ! (?k div 8)"
  have lt: "?k div 8 < length (bm_v b)" using inv i by (rule index_split)
  have bit_k: "bit ?w (?k mod 8) \<longleftrightarrow> ?k \<in> marked b" using i by (simp add: marked_def bm_bit_def)
  let ?b = "b\<lparr>bm_v := (bm_v b)[?k div 8 := ?w AND NOT (bit_mask (?k mod 8))]\<rparr>"
  have upd: "bm_bit ?b j = (if j = ?k then False else bm_bit b j)" for j
    by (rule bm_bit_update [OF lt]) (simp add: bit_and_not_mask)
  have eq: "bitmap_unmark b i = (if bit ?w (?k mod 8) then Done ?b else Stop Panic)"
    using lt i by (simp add: bitmap_unmark_def bitmap_translate_eq word_less_nat_alt)
  show "\<exists>b'. bitmap_unmark b i = Done b' \<and> bitmap_inv b' \<and> nbits b' = nbits b \<and>
           marked b' = marked b - {?k}" if "?k \<in> marked b"
    using that eq bit_k bitmap_inv_update [OF inv i upd] marked_update [OF i upd] by simp
  show "bitmap_unmark b i = Stop Panic" if "?k \<notin> marked b"
    using that eq bit_k by simp
qed

lemma bitmap_isset_spec:
  assumes "bitmap_inv b" "unat i < unat (nbits b)"
  shows "\<exists>w. bitmap_isset b i = Done w \<and> (w \<noteq> 0 \<longleftrightarrow> unat i \<in> marked b)"
  using index_split [OF assms] assms(2)
  by (simp add: bitmap_isset_def bitmap_translate_eq marked_def bm_bit_def)

text \<open>The search: every byte below \<open>ix\<close> is full.\<close>

lemma full_byte_bits:
  assumes "ix < length (bm_v b)"
  shows "bm_v b ! ix = 0xff \<longleftrightarrow> (\<forall>i. i div 8 = ix \<longrightarrow> bm_bit b i)"
proof
  assume "\<forall>i. i div 8 = ix \<longrightarrow> bm_bit b i"
  then have "bm_bit b (ix * 8 + n)" if "n < 8" for n using that by simp
  then have "bit (bm_v b ! ix) n" if "n < 8" for n
    using that unfolding bm_bit_def by (metis add.commute div_mult_self3 mod_mult_self3
        mod_less div_less add_0 zero_neq_numeral)
  then show "bm_v b ! ix = 0xff" by (simp add: byte_full_iff)
qed (auto simp: byte_full_iff bm_bit_def)

lemma bitmap_alloc_from_spec:
  assumes inv: "bitmap_inv b" and full: "\<And>i. i < 8 * ix \<Longrightarrow> bm_bit b i"
  shows "if marked b = {..<unat (nbits b)}
         then bitmap_alloc_from b (length (bm_v b)) ix = Done (Inl ENOSPC, b)
         else \<exists>i b'. bitmap_alloc_from b (length (bm_v b)) ix = Done (Inr i, b') \<and>
                unat i < unat (nbits b) \<and> unat i \<notin> marked b \<and> {..<unat i} \<subseteq> marked b \<and>
                bitmap_inv b' \<and> nbits b' = nbits b \<and> marked b' = insert (unat i) (marked b)"
  using full
proof (induction "length (bm_v b) - ix" arbitrary: ix rule: less_induct)
  case less
  note full = less.prems
  have nb: "unat (nbits b) \<le> 8 * length (bm_v b)" using inv by (auto simp: bitmap_inv_def)
  show ?case
  proof (cases "ix < length (bm_v b)")
    case False
    then have "bm_bit b i" if "i < unat (nbits b)" for i using full nb that by simp
    then have "marked b = {..<unat (nbits b)}" by (auto simp: marked_def)
    then show ?thesis using False by (subst bitmap_alloc_from.simps) simp
  next
    case True
    show ?thesis
    proof (cases "bm_v b ! ix = 0xff")
      case full_byte: True
      then have "bm_bit b i" if "i < 8 * Suc ix" for i
      proof (cases "i < 8 * ix")
        case False
        with that have "i div 8 = ix" by simp
        with full_byte True show ?thesis by (simp add: full_byte_bits)
      qed (use full in simp)
      moreover have "bitmap_alloc_from b (length (bm_v b)) ix =
          bitmap_alloc_from b (length (bm_v b)) (Suc ix)"
        using True full_byte by (subst bitmap_alloc_from.simps) simp
      ultimately show ?thesis using less.hyps [of "Suc ix"] True by simp
    next
      case False
      then obtain n where n: "first_clear (bm_v b ! ix) 0 = Some n"
        using first_clear_exists by blast
      then have clear: "n < 8" "\<not> bit (bm_v b ! ix) n" "\<And>m. m < n \<Longrightarrow> bit (bm_v b ! ix) m"
        by (auto simp: first_clear_Some)
      let ?k = "ix * 8 + n"
      have k: "?k div 8 = ix" "?k mod 8 = n" using clear(1) by auto
      have not_k: "\<not> bm_bit b ?k" using k clear(2) by (simp add: bm_bit_def)
      have k_lt: "?k < unat (nbits b)"
      proof (rule ccontr)
        assume "\<not> ?k < unat (nbits b)"
        moreover have "?k < 8 * length (bm_v b)" using True clear(1) by simp
        ultimately show False using inv not_k by (simp add: bitmap_inv_def)
      qed
      have below: "bm_bit b i" if "i < ?k" for i
      proof (cases "i < 8 * ix")
        case False
        with that clear(1) have "i div 8 = ix" by simp
        moreover have "i mod 8 < n" using that calculation mult_div_mod_eq [of 8 i] by linarith
        ultimately have "i div 8 = ix" "i mod 8 < n" .
        then show ?thesis using clear(3) by (simp add: bm_bit_def)
      qed (use full in simp)
      have small: "?k < 2 ^ 32" using k_lt unat_less_2p [of "nbits b"] by simp
      then have idx: "unat (of_nat ix * 8 + of_nat n :: u32) = ?k"
        using unat_of_nat_small [of ?k, where 'a = 32] by simp
      let ?b = "b\<lparr>bm_v := (bm_v b)[?k div 8 := bm_v b ! (?k div 8) OR bit_mask (?k mod 8)]\<rparr>"
      have upd: "bm_bit ?b j = (if j = ?k then True else bm_bit b j)" for j
        by (rule bm_bit_update) (use True k clear(1) in \<open>simp_all add: bit_or_mask\<close>)
      have "bitmap_alloc_from b (length (bm_v b)) ix =
          Done (Inr (of_nat ix * 8 + of_nat n), ?b)"
        using True False n k_lt idx k
        by (subst bitmap_alloc_from.simps) (simp add: Let_def word_less_nat_alt)
      moreover have "marked b \<noteq> {..<unat (nbits b)}"
        using k_lt not_k by (auto simp: marked_def set_eq_iff)
      ultimately show ?thesis
        using idx k_lt not_k below bitmap_inv_update [OF inv k_lt upd] marked_update [OF k_lt upd]
        by (auto simp: marked_def)
    qed
  qed
qed

lemma bitmap_alloc_spec:
  assumes "bitmap_inv b"
  shows "if marked b = {..<unat (nbits b)}
         then bitmap_alloc b = Done (Inl ENOSPC, b)
         else \<exists>i b'. bitmap_alloc b = Done (Inr i, b') \<and>
                unat i < unat (nbits b) \<and> unat i \<notin> marked b \<and> {..<unat i} \<subseteq> marked b \<and>
                bitmap_inv b' \<and> nbits b' = nbits b \<and> marked b' = insert (unat i) (marked b)"
proof -
  have "unat (DIVROUNDUP (nbits b) 8) = length (bm_v b)"
    using assms by (simp add: bitmap_inv_def unat_DIVROUNDUP)
  then show ?thesis
    using bitmap_alloc_from_spec [OF assms, of 0] by (simp add: bitmap_alloc_def)
qed

lemma divroundup_8: "(N + 7) div 8 = N div 8 + (if N mod 8 = 0 then 0 else (1::nat))"
proof -
  have "N + 7 = (N mod 8 + 7) + 8 * (N div 8)" using mult_div_mod_eq [of 8 N] by simp
  then have "(N + 7) div 8 = (N mod 8 + 7) div 8 + N div 8" by (metis div_mult_self2 zero_neq_numeral
        add.commute)
  moreover have "(N mod 8 + 7) div 8 = (if N mod 8 = 0 then 0 else 1)"
  proof (cases "N mod 8 = 0")
    case False
    have "N mod 8 < 8" by simp
    with False have "8 \<le> N mod 8 + 7" "N mod 8 + 7 < 16" by linarith+
    then show ?thesis using False by (simp add: div_nat_eqI)
  qed simp
  ultimately show ?thesis by simp
qed

text \<open>
  A fresh bitmap: nothing is marked and the bits beyond the end are out of reach.
\<close>

lemma bitmap_create_spec:
  assumes "unat n \<le> 2 ^ 32 - 8"
  shows "\<exists>b. bitmap_create True True n = Done (Some b) \<and> bitmap_inv b \<and> nbits b = n \<and>
             marked b = {}"
proof -
  define N where "N = unat n"
  define W where "W = (N + 7) div 8"
  have W: "unat (DIVROUNDUP n 8) = W" using assms by (simp add: unat_DIVROUNDUP W_def N_def)
  have q: "unat (n div 8) = N div 8" by (simp add: unat_div_distrib N_def)
  have le: "N \<le> 8 * W" by (simp add: W_def)
  have zero: "bm_bit \<lparr>nbits = n, bm_v = replicate W 0\<rparr> i \<longleftrightarrow> False" if "i < 8 * W" for i
    using that by (simp add: bm_bit_def)
  show ?thesis
  proof (cases "N mod 8 = 0")
    case True
    have eq: "W = N div 8" "8 * W = N"
      using True mult_div_mod_eq [of 8 N] by (simp_all add: W_def divroundup_8)
    have "DIVROUNDUP n 8 = n div 8" using W q eq(1) by (simp add: word_unat_eq_iff)
    then have "bitmap_create True True n = Done (Some \<lparr>nbits = n, bm_v = replicate W 0\<rparr>)"
      using W q eq(1) by (simp add: bitmap_create_def Let_def)
    moreover have "bitmap_inv \<lparr>nbits = n, bm_v = replicate W 0\<rparr>"
      using assms eq(2) W_def N_def by (simp add: bitmap_inv_def)
    moreover have "marked \<lparr>nbits = n, bm_v = replicate W 0\<rparr> = {}"
      using zero eq(2) by (auto simp: marked_def N_def)
    ultimately show ?thesis by simp
  next
    case False
    have W1: "W = Suc (N div 8)" using False by (simp add: W_def divroundup_8)
    then have lt: "N div 8 < W" by simp
    have "unat (DIVROUNDUP n 8 - 1) = N div 8" using W W1 by (simp add: unat_sub_if')
    then have ix: "DIVROUNDUP n 8 - 1 = n div 8" using q by (simp add: word_unat_eq_iff)
    have gt: "n div 8 < DIVROUNDUP n 8" using W lt q by (simp add: word_less_nat_alt)
    have "n - n div 8 * 8 = n mod 8" by (simp add: minus_div_mult_eq_mod)
    then have over: "unat (n - n div 8 * 8) = N mod 8" by (simp add: unat_mod_distrib N_def)
    have over_ok: "0 < n - n div 8 * 8 \<and> n - n div 8 * 8 < 8"
      using over False by (simp add: word_less_nat_alt)
    let ?v = "(replicate W 0)[N div 8 := mark_over (N mod 8) 0]"
    let ?b = "\<lparr>nbits = n, bm_v = ?v\<rparr>"
    have "bitmap_create True True n = Done (Some ?b)"
      using gt ix over over_ok lt by (simp add: bitmap_create_def Let_def W q)
    moreover have bits: "bm_bit ?b i \<longleftrightarrow> N \<le> i" if "i < 8 * W" for i
    proof (cases "i div 8 = N div 8")
      case True
      have "N mod 8 \<le> i mod 8 \<longleftrightarrow> N \<le> i"
        using True mult_div_mod_eq [of 8 i] mult_div_mod_eq [of 8 N] by linarith
      then show ?thesis using True lt by (simp add: bm_bit_def mark_over_bit)
    next
      case False
      have "i div 8 < W" using that by simp
      with False W1 have "i div 8 < N div 8" by linarith
      then have "i < N" by (metis div_le_mono not_le)
      then show ?thesis using False \<open>i div 8 < W\<close> by (simp add: bm_bit_def nth_list_update)
    qed
    then have "bitmap_inv ?b" using assms by (auto simp: bitmap_inv_def W_def N_def)
    moreover have "marked ?b = {}" using bits le by (auto simp: marked_def N_def)
    ultimately show ?thesis by simp
  qed
qed

section \<open>The contract of a bit allocator\<close>

text \<open>
  What a storage manager relies on: an allocation hands out an index that was free and
  marks exactly it, it fails only when nothing is free, and releasing an index in use
  frees exactly it.
\<close>

locale bit_allocator =
  fixes inv :: "'b \<Rightarrow> bool"
    and size_of :: "'b \<Rightarrow> nat"
    and used :: "'b \<Rightarrow> nat set"
    and alloc :: "'b \<Rightarrow> ((errno + u32) \<times> 'b) outcome"
    and release :: "'b \<Rightarrow> u32 \<Rightarrow> 'b outcome"
  assumes used_bound: "used b \<subseteq> {..<size_of b}"
    and alloc_full: "inv b \<Longrightarrow> used b = {..<size_of b} \<Longrightarrow> alloc b = Done (Inl ENOSPC, b)"
    and alloc_free: "inv b \<Longrightarrow> used b \<noteq> {..<size_of b} \<Longrightarrow>
      \<exists>i b'. alloc b = Done (Inr i, b') \<and> unat i < size_of b \<and> unat i \<notin> used b \<and>
             inv b' \<and> size_of b' = size_of b \<and> used b' = insert (unat i) (used b)"
    and release_used: "inv b \<Longrightarrow> unat i \<in> used b \<Longrightarrow>
      \<exists>b'. release b i = Done b' \<and> inv b' \<and> size_of b' = size_of b \<and> used b' = used b - {unat i}"
    and release_free: "inv b \<Longrightarrow> unat i < size_of b \<Longrightarrow> unat i \<notin> used b \<Longrightarrow>
      release b i = Stop Panic"
begin

lemma alloc_returns:
  assumes "inv b"
  obtains (full) "alloc b = Done (Inl ENOSPC, b)" "used b = {..<size_of b}"
  | (got) i b' where "alloc b = Done (Inr i, b')" "unat i < size_of b" "unat i \<notin> used b"
      "inv b'" "size_of b' = size_of b" "used b' = insert (unat i) (used b)"
proof (cases "used b = {..<size_of b}")
  case True
  then show ?thesis using alloc_full [OF assms] full by blast
next
  case False
  then show ?thesis using alloc_free [OF assms] got by blast
qed

lemma alloc_distinct:
  assumes "inv b" "alloc b = Done (Inr i, b')" "alloc b' = Done (Inr j, b'')"
  shows "i \<noteq> j" and "used b'' = used b \<union> {unat i, unat j}"
proof -
  from assms(1) have b': "inv b'" "used b' = insert (unat i) (used b)"
    using assms(2) by (auto elim: alloc_returns)
  from b'(1) have "unat j \<notin> used b'" "used b'' = insert (unat j) (used b')"
    using assms(3) by (auto elim: alloc_returns)
  with b'(2) show "i \<noteq> j" "used b'' = used b \<union> {unat i, unat j}" by auto
qed

lemma alloc_release:
  assumes "inv b" "alloc b = Done (Inr i, b')"
  shows "\<exists>b''. release b' i = Done b'' \<and> inv b'' \<and> used b'' = used b"
proof -
  from assms have b': "inv b'" "unat i \<notin> used b" "used b' = insert (unat i) (used b)"
    by (auto elim: alloc_returns)
  then show ?thesis using release_used [of b' i] by auto
qed

end

interpretation bmap: bit_allocator bitmap_inv "\<lambda>b. unat (nbits b)" marked bitmap_alloc bitmap_unmark
proof (unfold_locales, goal_cases)
  case (1 b)
  then show ?case by (auto simp: marked_def)
next
  case (2 b)
  then show ?case using bitmap_alloc_spec [of b] by simp
next
  case (3 b)
  then show ?case using bitmap_alloc_spec [of b] by auto
next
  case (4 b i)
  then have "unat i < unat (nbits b)" by (simp add: marked_def)
  with 4 show ?case using bitmap_unmark_spec(1) [of b i] by auto
next
  case (5 b i)
  then show ?case using bitmap_unmark_spec(2) [of b i] by simp
qed

section \<open>Properties\<close>

text \<open>C39.  \<^verbatim>\<open>bitmap_alloc\<close> is exact: it reports \<^verbatim>\<open>ENOSPC\<close> only when every bit below \<open>nbits\<close> is in
  use, otherwise it returns the lowest free bit, in range, and marks that one and no other;
  unmarking it restores the set of used bits.\<close>

theorem bitmap_alloc_exact:
  assumes "bitmap_inv b"
  shows "if marked b = {..<unat (nbits b)} then bitmap_alloc b = Done (Inl ENOSPC, b)
    else \<exists>i b'. bitmap_alloc b = Done (Inr i, b') \<and> unat i < unat (nbits b) \<and> unat i \<notin> marked b \<and>
      {..<unat i} \<subseteq> marked b \<and> bitmap_inv b' \<and> marked b' = insert (unat i) (marked b) \<and>
      (\<exists>b''. bitmap_unmark b' i = Done b'' \<and> bitmap_inv b'' \<and> marked b'' = marked b)"
  using bitmap_alloc_spec [OF assms] bmap.alloc_release [OF assms] by (simp split: if_splits) blast

theorem bitmap_alloc_exact_witness:
  "\<exists>b i b'. bitmap_create True True 11 = Done (Some b) \<and> bitmap_alloc b = Done (Inr i, b') \<and> unat i = 0 \<and>
     marked b' = {0}"
proof -
  obtain b where b: "bitmap_create True True 11 = Done (Some b)" "bitmap_inv b" "nbits b = 11" "marked b = {}"
    using bitmap_create_spec [of 11] by auto
  have "{..<unat (nbits b)} \<noteq> {}" using b(3) by (simp add: lessThan_empty_iff)
  then obtain i b' where "bitmap_alloc b = Done (Inr i, b')" "{..<unat i} \<subseteq> {}" "marked b' = insert (unat i) {}"
    using bitmap_alloc_exact [OF b(2)] b(4) by auto
  then show ?thesis using b(1) by (intro exI conjI) (auto simp: lessThan_empty_iff)
qed

end
