(* ===== verification/KMisc.thy ===== *)
theory KMisc
  imports Prelude
begin

text \<open>
  Two small libraries of the kernel: byte order (\<^verbatim>\<open>kern/lib/bswap.c\<close>) and time
  arithmetic (\<^verbatim>\<open>kern/lib/time.c\<close>).
\<close>

section \<open>Byte order\<close>

definition bswap16 :: "u16 \<Rightarrow> u16" where
  "bswap16 val = (push_bit 8 (val AND 0x00ff)) OR (drop_bit 8 (val AND 0xff00))"

definition bswap32 :: "u32 \<Rightarrow> u32" where
  "bswap32 val =
     (push_bit 24 (val AND 0x000000ff))
     OR (push_bit 8 (val AND 0x0000ff00))
     OR (drop_bit 8 (val AND 0x00ff0000))
     OR (drop_bit 24 (val AND 0xff000000))"

definition bswap64 :: "u64 \<Rightarrow> u64" where
  "bswap64 val =
     (push_bit 56 (val AND 0x00000000000000ff))
     OR (push_bit 40 (val AND 0x000000000000ff00))
     OR (push_bit 24 (val AND 0x0000000000ff0000))
     OR (push_bit 8 (val AND 0x00000000ff000000))
     OR (push_bit 8 (val AND 0x000000ff00000000))
     OR (push_bit 24 (val AND 0x0000ff0000000000))
     OR (drop_bit 40 (val AND 0x00ff000000000000))
     OR (drop_bit 56 (val AND 0xff00000000000000))"

text \<open>The big-endian host of the build: conversions to network order do nothing.\<close>

definition ntohs :: "u16 \<Rightarrow> u16" where "ntohs val = val"
definition htons :: "u16 \<Rightarrow> u16" where "htons val = val"
definition ntohl :: "u32 \<Rightarrow> u32" where "ntohl val = val"
definition htonl :: "u32 \<Rightarrow> u32" where "htonl val = val"
definition ntohll :: "u64 \<Rightarrow> u64" where "ntohll val = val"
definition htonll :: "u64 \<Rightarrow> u64" where "htonll val = val"

definition join32to64 :: "u32 \<Rightarrow> u32 \<Rightarrow> u64" where
  "join32to64 x1 x2 = push_bit 32 (ucast x1) OR ucast x2"

definition split64to32 :: "u64 \<Rightarrow> u32 \<times> u32" where
  "split64to32 x = (ucast (drop_bit 32 x), ucast (x AND 0xffffffff))"

text \<open>The byte at position \<open>n\<close>, counted from the least significant one.\<close>

definition byte_of :: "nat \<Rightarrow> 'a::len word \<Rightarrow> u8" where
  "byte_of n x = ucast (drop_bit (8 * n) x)"

lemma byte_of_bit: "n < 8 \<Longrightarrow> bit (byte_of k x) n = bit x (8 * k + n)"
  by (auto simp: byte_of_def bit_simps dest: bit_imp_le_length)

lemma byte_of_or: "byte_of k (x OR y) = byte_of k x OR byte_of k y"
  by (rule bit_word_eqI) (simp add: byte_of_bit bit_or_iff)

lemma byte_of_drop: "byte_of k (drop_bit (8 * j) x) = byte_of (k + j) x"
  by (rule bit_word_eqI) (simp add: byte_of_bit bit_drop_bit_eq algebra_simps)

lemma byte_of_push:
  fixes x :: "'a::len word"
  assumes "8 * Suc k \<le> LENGTH('a)"
  shows "byte_of k (push_bit (8 * j) x) = (if j \<le> k then byte_of (k - j) x else 0)"
proof (rule bit_word_eqI)
  fix n assume "n < LENGTH(8)"
  then have n: "n < 8" by simp
  show "bit (byte_of k (push_bit (8 * j) x)) n = bit (if j \<le> k then byte_of (k - j) x else 0) n"
  proof (cases "j \<le> k")
    case True
    then have "8 * k + n - 8 * j = 8 * (k - j) + n" "8 * j \<le> 8 * k + n" by auto
    then show ?thesis using n assms True by (simp add: byte_of_bit bit_push_bit_iff)
  next
    case False
    then have "\<not> 8 * j \<le> 8 * k + n" using n by auto
    then show ?thesis using n False by (simp add: byte_of_bit bit_push_bit_iff)
  qed
qed

lemma byte_of_and_byte:
  fixes x :: "'a::len word"
  assumes "8 * Suc k \<le> LENGTH('a)"
  shows "byte_of k (x AND push_bit (8 * j) (mask 8)) = (if k = j then byte_of k x else 0)"
proof (rule bit_word_eqI)
  fix n assume "n < LENGTH(8)"
  then have n: "n < 8" by simp
  have "(8 * j \<le> 8 * k + n \<and> 8 * k + n - 8 * j < 8) = (k = j)" using n by auto
  then show "bit (byte_of k (x AND push_bit (8 * j) (mask 8))) n = bit (if k = j then byte_of k x else 0) n"
    using n assms by (auto simp: byte_of_bit bit_and_iff bit_push_bit_iff bit_mask_iff)
qed

text \<open>Byte \<open>i\<close> of a word moved \<open>j\<close> bytes up or down, everything else cleared.\<close>

definition byte_up :: "nat \<Rightarrow> nat \<Rightarrow> 'a::len word \<Rightarrow> 'a word" where
  "byte_up i j x = push_bit (8 * j) (x AND push_bit (8 * i) (mask 8))"

definition byte_down :: "nat \<Rightarrow> nat \<Rightarrow> 'a::len word \<Rightarrow> 'a word" where
  "byte_down i j x = drop_bit (8 * j) (x AND push_bit (8 * i) (mask 8))"

lemma byte_of_up:
  fixes x :: "'a::len word"
  assumes "8 * Suc k \<le> LENGTH('a)"
  shows "byte_of k (byte_up i j x) = (if k = i + j then byte_of i x else 0)"
proof (cases "j \<le> k")
  case True
  have "8 * Suc (k - j) \<le> LENGTH('a)" using assms by simp
  then show ?thesis
    unfolding byte_up_def byte_of_push [OF assms] using True by (simp only: byte_of_and_byte) auto
next
  case False
  then show ?thesis unfolding byte_up_def byte_of_push [OF assms] by simp
qed

lemma byte_of_down:
  fixes x :: "'a::len word"
  assumes "8 * Suc i \<le> LENGTH('a)"
  shows "byte_of k (byte_down i j x) = (if k + j = i then byte_of i x else 0)"
proof (rule bit_word_eqI)
  fix n assume "n < LENGTH(8)"
  then have n: "n < 8" by simp
  have "(8 * i \<le> 8 * (k + j) + n \<and> 8 * (k + j) + n < LENGTH('a) \<and> 8 * (k + j) + n - 8 * i < 8)
      = (k + j = i)" using n assms by auto
  then show "bit (byte_of k (byte_down i j x)) n = bit (if k + j = i then byte_of i x else 0) n"
    unfolding byte_down_def byte_of_drop using n
    by (auto simp: byte_of_bit bit_and_iff bit_push_bit_iff bit_mask_iff)
qed

lemmas byte_of_simps = byte_of_or byte_of_up byte_of_down

text \<open>The masks of the source, as shifted bytes.\<close>

lemma bswap16_shifts:
  "bswap16 x = byte_up 0 1 x
     OR byte_down 1 1 x"
  by (simp add: bswap16_def byte_up_def byte_down_def mask_eq_exp_minus_1)

lemma bswap32_shifts:
  "bswap32 x = byte_up 0 3 x
     OR byte_up 1 1 x
     OR byte_down 2 1 x
     OR byte_down 3 3 x"
  by (simp add: bswap32_def byte_up_def byte_down_def mask_eq_exp_minus_1)

lemma bswap64_shifts:
  "bswap64 x = byte_up 0 7 x
     OR byte_up 1 5 x
     OR byte_up 2 3 x
     OR byte_up 3 1 x
     OR byte_up 4 1 x
     OR byte_up 5 3 x
     OR byte_down 6 5 x
     OR byte_down 7 7 x"
  by (simp add: bswap64_def byte_up_def byte_down_def mask_eq_exp_minus_1)

lemma bswap16_bytes:
  "byte_of 0 (bswap16 x) = byte_of 1 x" "byte_of 1 (bswap16 x) = byte_of 0 x"
  unfolding bswap16_shifts by (simp_all add: byte_of_simps)

lemma bswap32_bytes:
  "byte_of 0 (bswap32 x) = byte_of 3 x" "byte_of 1 (bswap32 x) = byte_of 2 x"
  "byte_of 2 (bswap32 x) = byte_of 1 x" "byte_of 3 (bswap32 x) = byte_of 0 x"
  unfolding bswap32_shifts by (simp_all add: byte_of_simps)

text \<open>Bytes 4 and 5 of the operand are shifted up instead of down.\<close>

lemma bswap64_bytes:
  "byte_of 0 (bswap64 x) = byte_of 7 x" "byte_of 1 (bswap64 x) = byte_of 6 x"
  "byte_of 2 (bswap64 x) = 0" "byte_of 3 (bswap64 x) = 0"
  "byte_of 4 (bswap64 x) = byte_of 3 x" "byte_of 5 (bswap64 x) = byte_of 2 x OR byte_of 4 x"
  "byte_of 6 (bswap64 x) = byte_of 1 x" "byte_of 7 (bswap64 x) = byte_of 0 x"
  unfolding bswap64_shifts by (simp_all add: byte_of_simps)

text \<open>A word is determined by its bytes.\<close>

lemma bytes_eqI:
  fixes x y :: "'a::len word"
  assumes "\<And>k. 8 * k < LENGTH('a) \<Longrightarrow> byte_of k x = byte_of k y"
  shows "x = y"
proof (rule bit_word_eqI)
  fix n assume "n < LENGTH('a)"
  then have "8 * (n div 8) < LENGTH('a)"
    using times_div_less_eq_dividend [of 8 n] by linarith
  then have "bit (byte_of (n div 8) x) (n mod 8) = bit (byte_of (n div 8) y) (n mod 8)"
    using assms by simp
  then show "bit x n = bit y n" by (simp add: byte_of_bit)
qed

lemma bytes16_eqI:
  "byte_of 0 x = byte_of 0 y \<Longrightarrow> byte_of 1 x = byte_of 1 y \<Longrightarrow> x = (y :: u16)"
proof (rule bytes_eqI)
  fix k assume "8 * k < LENGTH(16)" "byte_of 0 x = byte_of 0 y" "byte_of 1 x = byte_of 1 y"
  moreover from this have "k = 0 \<or> k = 1" by auto
  ultimately show "byte_of k x = byte_of k y" by auto
qed

lemma bytes32_eqI:
  assumes "byte_of 0 x = byte_of 0 y" "byte_of 1 x = byte_of 1 y"
    "byte_of 2 x = byte_of 2 y" "byte_of 3 x = byte_of 3 y"
  shows "x = (y :: u32)"
proof (rule bytes_eqI)
  fix k assume "8 * k < LENGTH(32)"
  then have "k = 0 \<or> k = 1 \<or> k = 2 \<or> k = 3" by auto
  then show "byte_of k x = byte_of k y" using assms by auto
qed

lemma bswap16_involution: "bswap16 (bswap16 x) = x"
  by (rule bytes16_eqI) (simp_all only: bswap16_bytes)

lemma bswap32_involution: "bswap32 (bswap32 x) = x"
  by (rule bytes32_eqI) (simp_all only: bswap32_bytes)

lemma split_join: "split64to32 (join32to64 a b) = (a, b)"
  unfolding split64to32_def join32to64_def
proof (rule prod_eqI; simp only: fst_conv snd_conv; rule bit_word_eqI)
  fix n assume n: "n < LENGTH(32)"
  then show "bit (ucast (drop_bit 32 (push_bit 32 (ucast a) OR ucast b :: u64)) :: u32) n = bit a n"
    by (auto simp: bit_simps dest: bit_imp_le_length)
next
  fix n assume n: "n < LENGTH(32)"
  have m: "(0xffffffff :: u64) = mask 32" by (simp add: mask_eq_exp_minus_1)
  show "bit (ucast ((push_bit 32 (ucast a) OR ucast b) AND 0xffffffff :: u64) :: u32) n = bit b n"
    unfolding m using n by (auto simp: bit_simps)
qed

lemma join_split: "(case split64to32 x of (a, b) \<Rightarrow> join32to64 a b) = x"
  unfolding split64to32_def join32to64_def prod.case
proof (rule bit_word_eqI)
  fix n assume n: "n < LENGTH(64)"
  have m: "(0xffffffff :: u64) = mask 32" by (simp add: mask_eq_exp_minus_1)
  show "bit (push_bit 32 (ucast (ucast (drop_bit 32 x) :: u32)) OR
      ucast (ucast (x AND 0xffffffff) :: u32) :: u64) n = bit x n"
    unfolding m using n by (auto simp: bit_simps)
qed

section \<open>Time values\<close>

record timespec =
  tv_sec :: u64
  tv_nsec :: u32

text \<open>\<open>tv_sec\<close> and \<open>tv_nsec\<close> are signed; comparisons read them as two's complement.\<close>

definition timespec_add :: "timespec \<Rightarrow> timespec \<Rightarrow> timespec" where
  "timespec_add ts1 ts2 =
     (let nsec = tv_nsec ts1 + tv_nsec ts2; sec = tv_sec ts1 + tv_sec ts2 in
      if sint nsec \<ge> 1000000000
      then \<lparr>tv_sec = sec + 1, tv_nsec = nsec - 1000000000\<rparr>
      else \<lparr>tv_sec = sec, tv_nsec = nsec\<rparr>)"

definition timespec_sub :: "timespec \<Rightarrow> timespec \<Rightarrow> timespec" where
  "timespec_sub ts1 ts2 =
     (let r = (if sint (tv_nsec ts1) < sint (tv_nsec ts2)
               then \<lparr>tv_sec = tv_sec ts1 - 1, tv_nsec = tv_nsec ts1 + 1000000000\<rparr>
               else ts1)
      in \<lparr>tv_sec = tv_sec r - tv_sec ts2, tv_nsec = tv_nsec r - tv_nsec ts2\<rparr>)"

definition timespec_normal :: "timespec \<Rightarrow> bool" where
  "timespec_normal t \<longleftrightarrow> 0 \<le> sint (tv_nsec t) \<and> sint (tv_nsec t) < 1000000000"

text \<open>The value in nanoseconds.\<close>

definition ts_ns :: "timespec \<Rightarrow> int" where
  "ts_ns t = sint (tv_sec t) * 1000000000 + sint (tv_nsec t)"

lemma sint_add_small:
  fixes x y :: "'a::len word"
  assumes "- (2 ^ (LENGTH('a) - 1)) \<le> sint x + sint y" "sint x + sint y < 2 ^ (LENGTH('a) - 1)"
  shows "sint (x + y) = sint x + sint y"
  using assms by (simp add: signed_take_bit_int_eq_self sint_word_ariths(1))

lemma sint_sub_small:
  fixes x y :: "'a::len word"
  assumes "- (2 ^ (LENGTH('a) - 1)) \<le> sint x - sint y" "sint x - sint y < 2 ^ (LENGTH('a) - 1)"
  shows "sint (x - y) = sint x - sint y"
  using assms by (simp add: signed_take_bit_int_eq_self sint_word_ariths(2))

lemma timespec_add_normal_ns:
  assumes "timespec_normal a" "timespec_normal b"
    and "\<bar>sint (tv_sec a)\<bar> < 2 ^ 61" "\<bar>sint (tv_sec b)\<bar> < 2 ^ 61"
  shows "timespec_normal (timespec_add a b) \<and> ts_ns (timespec_add a b) = ts_ns a + ts_ns b"
proof -
  have n: "sint (tv_nsec a + tv_nsec b) = sint (tv_nsec a) + sint (tv_nsec b)"
    using assms(1,2) by (intro sint_add_small) (auto simp: timespec_normal_def)
  have s: "sint (tv_sec a + tv_sec b) = sint (tv_sec a) + sint (tv_sec b)"
    using assms(3,4) by (intro sint_add_small) auto
  have s1: "sint (tv_sec a + tv_sec b + 1) = sint (tv_sec a) + sint (tv_sec b) + 1"
    using assms(3,4) s sint_add_small [of "tv_sec a + tv_sec b" 1] by auto
  have n1: "sint (tv_nsec a + tv_nsec b - 1000000000) = sint (tv_nsec a) + sint (tv_nsec b) - 1000000000"
    using assms(1,2) n sint_sub_small [of "tv_nsec a + tv_nsec b" 1000000000]
    by (auto simp: timespec_normal_def)
  show ?thesis using assms(1,2) n s s1 n1
    by (auto simp: timespec_add_def ts_ns_def timespec_normal_def Let_def)
qed

lemma timespec_sub_normal_ns:
  assumes "timespec_normal a" "timespec_normal b"
    and "\<bar>sint (tv_sec a)\<bar> < 2 ^ 61" "\<bar>sint (tv_sec b)\<bar> < 2 ^ 61"
  shows "timespec_normal (timespec_sub a b) \<and> ts_ns (timespec_sub a b) = ts_ns a - ts_ns b"
proof -
  have n: "sint (tv_nsec a - tv_nsec b) = sint (tv_nsec a) - sint (tv_nsec b)"
    using assms(1,2) by (intro sint_sub_small) (auto simp: timespec_normal_def)
  have p: "sint (tv_nsec a + 1000000000) = sint (tv_nsec a) + 1000000000"
    using assms(1) sint_add_small [of "tv_nsec a" 1000000000] by (auto simp: timespec_normal_def)
  have n1: "sint (tv_nsec a + 1000000000 - tv_nsec b) = sint (tv_nsec a) + 1000000000 - sint (tv_nsec b)"
    if "sint (tv_nsec a) < sint (tv_nsec b)"
    using that assms(1,2) p sint_sub_small [of "tv_nsec a + 1000000000" "tv_nsec b"]
    by (auto simp: timespec_normal_def)
  have s: "sint (tv_sec a - tv_sec b) = sint (tv_sec a) - sint (tv_sec b)"
    using assms(3,4) by (intro sint_sub_small) auto
  have m: "sint (tv_sec a - 1) = sint (tv_sec a) - 1"
    using assms(3) sint_sub_small [of "tv_sec a" 1] by auto
  have s1: "sint (tv_sec a - 1 - tv_sec b) = sint (tv_sec a) - 1 - sint (tv_sec b)"
    using assms(3,4) m sint_sub_small [of "tv_sec a - 1" "tv_sec b"] by auto
  show ?thesis using assms(1,2) n n1 s s1
    by (auto simp: timespec_sub_def ts_ns_def timespec_normal_def Let_def)
qed

section \<open>Properties\<close>



text \<open>Adding and subtracting time stamps with normalised nanoseconds keeps them normalised
  and is exact in nanoseconds, as long as the seconds stay away from the limits of 64 bits.\<close>

theorem timespec_arith_exact:
  assumes "timespec_normal a" "timespec_normal b" "\<bar>sint (tv_sec a)\<bar> < 2 ^ 61" "\<bar>sint (tv_sec b)\<bar> < 2 ^ 61"
  shows "timespec_normal (timespec_add a b) \<and> ts_ns (timespec_add a b) = ts_ns a + ts_ns b \<and>
    timespec_normal (timespec_sub a b) \<and> ts_ns (timespec_sub a b) = ts_ns a - ts_ns b"
  using timespec_add_normal_ns [OF assms] timespec_sub_normal_ns [OF assms] by simp

theorem timespec_arith_exact_witness:
  "ts_ns (timespec_add \<lparr>tv_sec = 1, tv_nsec = 900000000\<rparr> \<lparr>tv_sec = 2, tv_nsec = 200000000\<rparr>) = 4100000000"
proof -
  have "timespec_normal \<lparr>tv_sec = 1, tv_nsec = 900000000\<rparr>" "timespec_normal \<lparr>tv_sec = 2, tv_nsec = 200000000\<rparr>"
    by (simp_all add: timespec_normal_def)
  then show ?thesis
    using timespec_arith_exact [of "\<lparr>tv_sec = 1, tv_nsec = 900000000\<rparr>" "\<lparr>tv_sec = 2, tv_nsec = 200000000\<rparr>"]
    by (simp add: ts_ns_def)
qed

end
