(* ===== verification/UserMem.thy ===== *)
theory UserMem
  imports Prelude
begin

text \<open>
  Transfers between the kernel and user memory (\<^verbatim>\<open>kern/vm/copyinout.c\<close>).

  Memory is a set of kernel objects, each a byte array, and the flat virtual
  address space that user pointers range over; the latter also holds the kernel's
  half (addresses from \<^verbatim>\<open>USERSPACETOP\<close> up), so that the theorems can say it is left
  alone.  An access to an unmapped address goes to \<^verbatim>\<open>tm_badfaultfunc\<close> when one is
  installed (the \<^verbatim>\<open>longjmp\<close> of \<^verbatim>\<open>copyfail\<close>) and stops the kernel otherwise; an access
  outside a kernel object is undefined behaviour.
\<close>

definition USERSPACETOP :: u32 where "USERSPACETOP = 0x80000000"

datatype ptr = KPtr nat nat | UPtr u32

fun ptr_add :: "ptr \<Rightarrow> nat \<Rightarrow> ptr" where
  "ptr_add (KPtr ob i) n = KPtr ob (i + n)"
| "ptr_add (UPtr a) n = UPtr (a + of_nat n)"

record memory =
  kobj :: "nat \<rightharpoonup> u8 list"
  vmem :: "u32 \<rightharpoonup> u8"
  tm_badfaultfunc :: bool

text \<open>\<open>Done None\<close> is a fatal fault that the recovery function takes over.\<close>

fun load :: "memory \<Rightarrow> ptr \<Rightarrow> u8 option outcome" where
  "load s (KPtr ob i) =
     obind (deref (kobj s ob)) (\<lambda>b. obind (nth_or_fault b i) (\<lambda>x. Done (Some x)))"
| "load s (UPtr a) =
     (case vmem s a of Some x \<Rightarrow> Done (Some x)
      | None \<Rightarrow> if tm_badfaultfunc s then Done None else Stop Panic)"

fun store :: "memory \<Rightarrow> ptr \<Rightarrow> u8 \<Rightarrow> memory option outcome" where
  "store s (KPtr ob i) x =
     obind (deref (kobj s ob)) (\<lambda>b. obind (upd_or_fault b i x)
       (\<lambda>b'. Done (Some (s\<lparr>kobj := (kobj s)(ob \<mapsto> b')\<rparr>))))"
| "store s (UPtr a) x =
     (case vmem s a of Some _ \<Rightarrow> Done (Some (s\<lparr>vmem := (vmem s)(a \<mapsto> x)\<rparr>))
      | None \<Rightarrow> if tm_badfaultfunc s then Done None else Stop Panic)"

text \<open>A forward copy; the flag tells that it was cut short by a fault.\<close>

fun copy_bytes :: "nat \<Rightarrow> ptr \<Rightarrow> ptr \<Rightarrow> memory \<Rightarrow> (memory \<times> bool) outcome" where
  "copy_bytes 0 dst src s = Done (s, False)"
| "copy_bytes (Suc n) dst src s =
     obind (load s src) (\<lambda>x. case x of None \<Rightarrow> Done (s, True) | Some b \<Rightarrow>
       obind (store s dst b) (\<lambda>t. case t of None \<Rightarrow> Done (s, True) | Some s' \<Rightarrow>
         copy_bytes n (ptr_add dst 1) (ptr_add src 1) s'))"

section \<open>The checks and the copies\<close>

text \<open>The result and \<open>*stoplen\<close>.\<close>

definition copycheck :: "u32 \<Rightarrow> u32 \<Rightarrow> errno option \<times> u32" where
  "copycheck userptr len =
     (let bot = userptr; top = bot + len - 1 in
      if top < bot then (Some EFAULT, len)
      else if bot \<ge> USERSPACETOP then (Some EFAULT, len)
      else if top \<ge> USERSPACETOP then (None, USERSPACETOP - bot)
      else (None, len))"

definition copyin :: "u32 \<Rightarrow> ptr \<Rightarrow> u32 \<Rightarrow> memory \<Rightarrow> (errno option \<times> memory) outcome" where
  "copyin usersrc dest len s =
     (case copycheck usersrc len of
        (Some e, _) \<Rightarrow> Done (Some e, s)
      | (None, stoplen) \<Rightarrow>
          if stoplen \<noteq> len then Done (Some EFAULT, s)
          else obind (copy_bytes (unat len) dest (UPtr usersrc) (s\<lparr>tm_badfaultfunc := True\<rparr>))
                 (\<lambda>(s', failed). Done (if failed then Some EFAULT else None,
                                       s'\<lparr>tm_badfaultfunc := False\<rparr>)))"

definition copyout :: "ptr \<Rightarrow> u32 \<Rightarrow> u32 \<Rightarrow> memory \<Rightarrow> (errno option \<times> memory) outcome" where
  "copyout src userdest len s =
     (case copycheck userdest len of
        (Some e, _) \<Rightarrow> Done (Some e, s)
      | (None, stoplen) \<Rightarrow>
          if stoplen \<noteq> len then Done (Some EFAULT, s)
          else obind (copy_bytes (unat len) (UPtr userdest) src (s\<lparr>tm_badfaultfunc := True\<rparr>))
                 (\<lambda>(s', failed). Done (if failed then Some EFAULT else None,
                                       s'\<lparr>tm_badfaultfunc := False\<rparr>)))"

text \<open>How the string loop ends: a value returned (with \<open>*gotlen\<close> on success), or the jump
  to the recovery point.\<close>

datatype strcopy = StrReturn "errno + nat" | StrFault

function copystr_loop ::
  "ptr \<Rightarrow> ptr \<Rightarrow> nat \<Rightarrow> nat \<Rightarrow> nat \<Rightarrow> memory \<Rightarrow> (strcopy \<times> memory) outcome" where
  "copystr_loop dest src maxlen stoplen i s =
     (if i < maxlen \<and> i < stoplen
      then obind (load s (ptr_add src i)) (\<lambda>x. case x of None \<Rightarrow> Done (StrFault, s) | Some b \<Rightarrow>
             obind (store s (ptr_add dest i) b) (\<lambda>t. case t of None \<Rightarrow> Done (StrFault, s) | Some s' \<Rightarrow>
               if b = 0 then Done (StrReturn (Inr (i + 1)), s')
               else copystr_loop dest src maxlen stoplen (i + 1) s'))
      else if stoplen < maxlen then Done (StrReturn (Inl EFAULT), s)
      else Done (StrReturn (Inl ENAMETOOLONG), s))"
  by pat_completeness auto
termination by (relation "measure (\<lambda>(_, _, m, _, i, _). m - i)") auto

declare copystr_loop.simps [simp del]

definition copystr :: "ptr \<Rightarrow> ptr \<Rightarrow> u32 \<Rightarrow> u32 \<Rightarrow> memory \<Rightarrow> (strcopy \<times> memory) outcome" where
  "copystr dest src maxlen stoplen s = copystr_loop dest src (unat maxlen) (unat stoplen) 0 s"

definition str_result :: "strcopy \<times> memory \<Rightarrow> (errno + nat) \<times> memory" where
  "str_result = (\<lambda>(r, s). (case r of StrReturn v \<Rightarrow> v | StrFault \<Rightarrow> Inl EFAULT,
                           s\<lparr>tm_badfaultfunc := False\<rparr>))"

definition copyinstr :: "u32 \<Rightarrow> ptr \<Rightarrow> u32 \<Rightarrow> memory \<Rightarrow> ((errno + nat) \<times> memory) outcome" where
  "copyinstr usersrc dest len s =
     (case copycheck usersrc len of
        (Some e, _) \<Rightarrow> Done (Inl e, s)
      | (None, stoplen) \<Rightarrow>
          obind (copystr dest (UPtr usersrc) len stoplen (s\<lparr>tm_badfaultfunc := True\<rparr>))
            (\<lambda>r. Done (str_result r)))"

definition copyoutstr :: "ptr \<Rightarrow> u32 \<Rightarrow> u32 \<Rightarrow> memory \<Rightarrow> ((errno + nat) \<times> memory) outcome" where
  "copyoutstr src userdest len s =
     (case copycheck userdest len of
        (Some e, _) \<Rightarrow> Done (Inl e, s)
      | (None, stoplen) \<Rightarrow>
          obind (copystr (UPtr userdest) src len stoplen (s\<lparr>tm_badfaultfunc := True\<rparr>))
            (\<lambda>r. Done (str_result r)))"

section \<open>What a transfer does, byte by byte\<close>

text \<open>The bytes readable at \<open>a\<close> before the first unmapped address, at most \<open>n\<close> of them;
  the effect of storing a byte string at a user address; the effect of storing one into a
  kernel object.\<close>

fun user_prefix :: "(u32 \<rightharpoonup> u8) \<Rightarrow> u32 \<Rightarrow> nat \<Rightarrow> u8 list" where
  "user_prefix m a 0 = []"
| "user_prefix m a (Suc n) = (case m a of None \<Rightarrow> [] | Some x \<Rightarrow> x # user_prefix m (a + 1) n)"

fun write_user :: "(u32 \<rightharpoonup> u8) \<Rightarrow> u32 \<Rightarrow> u8 list \<Rightarrow> (u32 \<rightharpoonup> u8)" where
  "write_user m a [] = m"
| "write_user m a (x # xs) = (case m a of None \<Rightarrow> m | Some _ \<Rightarrow> write_user (m(a \<mapsto> x)) (a + 1) xs)"

definition overlay :: "'a list \<Rightarrow> nat \<Rightarrow> 'a list \<Rightarrow> 'a list" where
  "overlay b i p = take i b @ p @ drop (i + length p) b"

lemma overlay_Nil [simp]: "overlay b i [] = b"
  by (simp add: overlay_def)

lemma length_overlay [simp]: "i + length p \<le> length b \<Longrightarrow> length (overlay b i p) = length b"
  by (simp add: overlay_def)

lemma overlay_update:
  "i < length b \<Longrightarrow> overlay (b[i := x]) (Suc i) p = overlay b i (x # p)"
  by (simp add: overlay_def take_Suc_conv_app_nth)

lemma overlay_read: "i + length p \<le> length b \<Longrightarrow> take (length p) (drop i (overlay b i p)) = p"
  by (simp add: overlay_def)

lemma overlay_overlay:
  "i + length p \<le> length b \<Longrightarrow> overlay (overlay b i p) (i + length p) q = overlay b i (p @ q)"
  by (simp add: overlay_def ac_simps)

lemma user_prefix_numeral [simp]:
  "user_prefix m a (numeral n) = (case m a of None \<Rightarrow> [] | Some x \<Rightarrow> x # user_prefix m (a + 1) (pred_numeral n))"
  by (simp add: numeral_eq_Suc)

lemma length_user_prefix: "length (user_prefix m a n) \<le> n"
  by (induction n arbitrary: a) (auto split: option.splits)

lemma copy_bytes_in:
  "kobj s ob = Some b \<Longrightarrow> i + n \<le> length b \<Longrightarrow> tm_badfaultfunc s \<Longrightarrow>
   copy_bytes n (KPtr ob i) (UPtr a) s =
     Done (s\<lparr>kobj := (kobj s)(ob \<mapsto> overlay b i (user_prefix (vmem s) a n))\<rparr>,
           length (user_prefix (vmem s) a n) < n)"
proof (induction n arbitrary: i a s b)
  case 0
  then have "(kobj s)(ob \<mapsto> b) = kobj s" by (simp add: map_upd_triv)
  then show ?case by simp
next
  case (Suc n)
  show ?case
  proof (cases "vmem s a")
    case None
    have "(kobj s)(ob \<mapsto> b) = kobj s" using Suc.prems by (simp add: map_upd_triv)
    with None Suc.prems show ?thesis by simp
  next
    case (Some x)
    then show ?thesis using Suc.prems Suc.IH [of "s\<lparr>kobj := (kobj s)(ob \<mapsto> b[i := x])\<rparr>" "b[i := x]" "i + 1" "a + 1"]
      by (simp add: overlay_update)
  qed
qed

lemma write_user_other:
  "length xs \<le> 2 ^ 32 - unat a \<Longrightarrow> unat y < unat a \<or> unat a + length xs \<le> unat y \<Longrightarrow>
   write_user m a xs y = m y"
proof (induction m a xs rule: write_user.induct)
  case (2 m a x xs)
  show ?case
  proof (cases "m a")
    case (Some v)
    have ne: "y \<noteq> a" using 2(3) by auto
    show ?thesis
    proof (cases xs)
      case Nil
      then show ?thesis using Some ne by simp
    next
      case (Cons z zs)
      then have u: "unat (a + 1) = unat a + 1" using 2(2) by (intro unat_Suc_lt) auto
      have "write_user (m(a \<mapsto> x)) (a + 1) xs y = (m(a \<mapsto> x)) y"
        using 2(2,3) u by (intro 2(1) [OF Some]) auto
      then show ?thesis using Some ne by simp
    qed
  qed simp
qed simp

lemma write_user_dom: "dom (write_user m a xs) = dom m"
proof (induction m a xs rule: write_user.induct)
  case (2 m a x xs)
  show ?case
  proof (cases "m a")
    case (Some v)
    then have "dom (write_user (m(a \<mapsto> x)) (a + 1) xs) = dom (m(a \<mapsto> x))" by (rule 2)
    also have "\<dots> = dom m" using Some by auto
    finally show ?thesis using Some by simp
  qed simp
qed simp

lemma user_prefix_dom:
  "dom m = dom m' \<Longrightarrow> length (user_prefix m a n) = length (user_prefix m' a n)"
proof (induction n arbitrary: a)
  case (Suc n)
  have "(m a = None) = (m' a = None)" using Suc.prems by (metis domIff)
  then show ?case using Suc by (auto split: option.splits)
qed simp

lemma user_prefix_upd_before:
  "unat a < unat b \<Longrightarrow> n \<le> 2 ^ 32 - unat b \<Longrightarrow> user_prefix (m(a \<mapsto> x)) b n = user_prefix m b n"
proof (induction n arbitrary: b)
  case (Suc n)
  then have "b \<noteq> a" by auto
  moreover have "user_prefix (m(a \<mapsto> x)) (b + 1) n = user_prefix m (b + 1) n"
  proof (cases n)
    case (Suc k)
    then have "unat (b + 1) = unat b + 1" using Suc.prems by (intro unat_Suc_lt) auto
    then show ?thesis using Suc.prems by (intro Suc.IH) auto
  qed simp
  ultimately show ?case by (simp split: option.splits)
qed simp


lemma write_user_read:
  "length (user_prefix m a (length xs)) = length xs \<Longrightarrow> length xs \<le> 2 ^ 32 - unat a \<Longrightarrow>
   user_prefix (write_user m a xs) a (length xs) = xs"
proof (induction m a xs rule: write_user.induct)
  case (2 m a x xs)
  then obtain v where v: "m a = Some v" by (cases "m a") auto
  show ?case
  proof (cases xs)
    case Nil
    then show ?thesis using v by simp
  next
    case (Cons z zs)
    then have u: "unat (a + 1) = unat a + 1" using 2(3) by (intro unat_Suc_lt) auto
    have "length (user_prefix (m(a \<mapsto> x)) (a + 1) (length xs)) = length xs"
      using 2(2,3) u v by (subst user_prefix_upd_before) auto
    then have "user_prefix (write_user (m(a \<mapsto> x)) (a + 1) xs) (a + 1) (length xs) = xs"
      using 2(3) u by (intro 2(1) [OF v]) simp_all
    moreover have "write_user (m(a \<mapsto> x)) (a + 1) xs a = Some x"
      using 2(3) u by (subst write_user_other) auto
    ultimately show ?thesis using v by simp
  qed
qed simp

lemma copy_bytes_out:
  "kobj s ob = Some b \<Longrightarrow> i + n \<le> length b \<Longrightarrow> tm_badfaultfunc s \<Longrightarrow> n \<le> 2 ^ 32 - unat a \<Longrightarrow>
   copy_bytes n (UPtr a) (KPtr ob i) s =
     Done (s\<lparr>vmem := write_user (vmem s) a (take n (drop i b))\<rparr>,
           length (user_prefix (vmem s) a n) < n)"
proof (induction n arbitrary: i a s)
  case (Suc n)
  have t: "take (Suc n) (drop i b) = b ! i # take n (drop (Suc i) b)"
    using Suc.prems by (simp add: Cons_nth_drop_Suc [symmetric])
  show ?case
  proof (cases "vmem s a")
    case None
    with Suc.prems t show ?thesis by simp
  next
    case (Some x)
    let ?s = "s\<lparr>vmem := (vmem s)(a \<mapsto> b ! i)\<rparr>"
    have u: "n = 0 \<or> unat (a + 1) = unat a + 1"
      using Suc.prems(4) unat_Suc_lt [of a] by (cases n) auto
    have p: "user_prefix ((vmem s)(a \<mapsto> b ! i)) (a + 1) n = user_prefix (vmem s) (a + 1) n"
      using u Suc.prems(4) by (cases "n = 0") (auto intro!: user_prefix_upd_before)
    have "copy_bytes n (UPtr (a + 1)) (KPtr ob (Suc i)) ?s =
        Done (?s\<lparr>vmem := write_user (vmem ?s) (a + 1) (take n (drop (Suc i) b))\<rparr>,
              length (user_prefix (vmem ?s) (a + 1) n) < n)"
      using Suc.prems u by (cases "n = 0", simp) (intro Suc.IH; auto)
    then show ?thesis using Some Suc.prems p t by simp
  qed
qed simp

section \<open>The checks and the copies, specified\<close>

lemma unat_USERSPACETOP: "unat USERSPACETOP = 2 ^ 31"
  by (simp add: USERSPACETOP_def)

lemma copycheck_nonzero:
  assumes "0 < unat len"
  shows "copycheck a len =
    (if 2 ^ 32 < unat a + unat len then (Some EFAULT, len)
     else if 2 ^ 31 \<le> unat a then (Some EFAULT, len)
     else if 2 ^ 31 < unat a + unat len then (None, USERSPACETOP - a)
     else (None, len))"
proof -
  define T where "T = unat a + unat len - 1"
  have "a + len - 1 = of_nat T" using assms by (simp add: T_def of_nat_diff)
  then have t: "unat (a + len - 1) = T mod 2 ^ 32" by (simp add: unat_of_nat)
  have lt: "a + len - 1 < a \<longleftrightarrow> 2 ^ 32 < unat a + unat len"
  proof (cases "T < 2 ^ 32")
    case True
    then show ?thesis using assms t by (auto simp: word_less_nat_alt T_def)
  next
    case False
    have T: "T < 2 ^ 32 + unat a" using unat_less_2p [of len] assms by (simp add: T_def)
    then have "T - 2 ^ 32 < 2 ^ 32" using unat_less_2p [of a] by simp
    then have "T mod 2 ^ 32 = T - 2 ^ 32" using False by (simp add: le_mod_geq)
    then have "T mod 2 ^ 32 < unat a" using T False by linarith
    then show ?thesis using False assms t by (simp add: word_less_nat_alt T_def)
  qed
  have ge: "a + len - 1 \<ge> USERSPACETOP \<longleftrightarrow> 2 ^ 31 < unat a + unat len" if "\<not> 2 ^ 32 < unat a + unat len"
    using that t assms by (auto simp: word_le_nat_alt unat_USERSPACETOP T_def)
  show ?thesis using lt ge
    by (auto simp: copycheck_def Let_def word_le_nat_alt unat_USERSPACETOP simp del: diff_add_eq)
qed

lemma copycheck_ok:
  "0 < unat len \<Longrightarrow> unat a + unat len \<le> 2 ^ 31 \<Longrightarrow> copycheck a len = (None, len)"
  by (simp add: copycheck_nonzero)

lemma USERSPACETOP_minus: "unat a < 2 ^ 31 \<Longrightarrow> unat (USERSPACETOP - a) = 2 ^ 31 - unat a"
  by (simp add: unat_sub word_le_nat_alt unat_USERSPACETOP)

lemma copycheck_zero: "fst (copycheck a 0) \<noteq> None \<or> snd (copycheck a 0) \<noteq> 0"
proof (cases "a = 0")
  case False
  then have "unat (a - 1) < unat a" by (simp add: unat_minus_one unat_gt_0)
  then show ?thesis by (simp add: copycheck_def Let_def word_less_nat_alt)
qed (simp add: copycheck_def Let_def USERSPACETOP_def)

lemma copycheck_bad:
  assumes "\<not> (0 < unat len \<and> unat a + unat len \<le> 2 ^ 31)"
  shows "fst (copycheck a len) \<noteq> None \<or> snd (copycheck a len) \<noteq> len"
proof (cases "len = 0")
  case True
  then show ?thesis using copycheck_zero by simp
next
  case False
  then have l: "0 < unat len" by (simp add: unat_gt_0)
  have "unat (USERSPACETOP - a) \<noteq> unat len" if "unat a < 2 ^ 31"
    using that assms l by (simp add: USERSPACETOP_minus)
  then show ?thesis using l assms by (auto simp: copycheck_nonzero)
qed

text \<open>The only error a check reports.\<close>

lemma copycheck_efault: "fst (copycheck a len) = Some e \<Longrightarrow> e = EFAULT"
  by (auto simp: copycheck_def Let_def split: if_splits)

text \<open>A range that a block transfer accepts: not empty and wholly below the kernel.\<close>

definition user_range :: "u32 \<Rightarrow> u32 \<Rightarrow> bool" where
  "user_range a len \<longleftrightarrow> 0 < unat len \<and> unat a + unat len \<le> 2 ^ 31"

lemma copyin_spec:
  assumes "kobj s ob = Some b" "i + unat len \<le> length b" "\<not> tm_badfaultfunc s"
  shows "copyin a (KPtr ob i) len s =
    (if user_range a len
     then Done (if length (user_prefix (vmem s) a (unat len)) = unat len then None else Some EFAULT,
                s\<lparr>kobj := (kobj s)(ob \<mapsto> overlay b i (user_prefix (vmem s) a (unat len)))\<rparr>)
     else Done (Some EFAULT, s))"
proof (cases "user_range a len")
  case True
  then have c: "copycheck a len = (None, len)" by (simp add: user_range_def copycheck_ok)
  show ?thesis using assms True c length_user_prefix [of "vmem s" a "unat len"]
    by (simp add: copyin_def copy_bytes_in)
next
  case False
  then show ?thesis using copycheck_bad [of len a] copycheck_efault [of a len]
    by (auto simp: copyin_def user_range_def split: prod.splits option.splits)
qed

lemma copyout_spec:
  assumes "kobj s ob = Some b" "i + unat len \<le> length b" "\<not> tm_badfaultfunc s"
  shows "copyout (KPtr ob i) a len s =
    (if user_range a len
     then Done (if length (user_prefix (vmem s) a (unat len)) = unat len then None else Some EFAULT,
                s\<lparr>vmem := write_user (vmem s) a (take (unat len) (drop i b))\<rparr>)
     else Done (Some EFAULT, s))"
proof (cases "user_range a len")
  case True
  then have c: "copycheck a len = (None, len)" by (simp add: user_range_def copycheck_ok)
  have "copy_bytes (unat len) (UPtr a) (KPtr ob i) (s\<lparr>tm_badfaultfunc := True\<rparr>) =
      Done (s\<lparr>tm_badfaultfunc := True, vmem := write_user (vmem s) a (take (unat len) (drop i b))\<rparr>,
            length (user_prefix (vmem s) a (unat len)) < unat len)"
    using assms True by (subst copy_bytes_out [where b = b]) (auto simp: user_range_def)
  then show ?thesis using assms(3) True c length_user_prefix [of "vmem s" a "unat len"]
    by (simp add: copyout_def)
next
  case False
  then show ?thesis using copycheck_bad [of len a] copycheck_efault [of a len]
    by (auto simp: copyout_def user_range_def split: prod.splits option.splits)
qed

text \<open>The string loop, for a source in user memory and a destination in a kernel object.\<close>

definition str_outcome :: "nat \<Rightarrow> nat \<Rightarrow> u8 list \<Rightarrow> nat \<Rightarrow> strcopy" where
  "str_outcome maxlen stoplen p i =
     (if 0 \<in> set p then StrReturn (Inr (i + length (takeWhile (\<lambda>c. c \<noteq> 0) p) + 1))
      else if i + length p < min maxlen stoplen then StrFault
      else if stoplen < maxlen then StrReturn (Inl EFAULT)
      else StrReturn (Inl ENAMETOOLONG))"

text \<open>The bytes such a loop moves: up to and including the first zero.\<close>

definition upto_nul :: "u8 list \<Rightarrow> u8 list" where
  "upto_nul p = takeWhile (\<lambda>c. c \<noteq> 0) p @ (if 0 \<in> set p then [0] else [])"

lemma upto_nul_simps [simp]:
  "upto_nul [] = []"
  "upto_nul (x # p) = (if x = 0 then [0] else x # upto_nul p)"
  by (auto simp: upto_nul_def)

lemma length_upto_nul: "length (upto_nul p) \<le> length p"
  by (induction p) auto

lemma copystr_loop_in:
  assumes "kobj s ob = Some b" "j + min maxlen stoplen \<le> length b" "tm_badfaultfunc s"
    "i \<le> min maxlen stoplen"
  shows "copystr_loop (KPtr ob j) (UPtr a) maxlen stoplen i s =
    (let p = user_prefix (vmem s) (a + of_nat i) (min maxlen stoplen - i) in
     Done (str_outcome maxlen stoplen p i,
           s\<lparr>kobj := (kobj s)(ob \<mapsto> overlay b (j + i) (upto_nul p))\<rparr>))"
  using assms
proof (induction "min maxlen stoplen - i" arbitrary: i s b)
  case 0
  have "(kobj s)(ob \<mapsto> b) = kobj s" using 0 by (simp add: map_upd_triv)
  moreover have "\<not> (i < maxlen \<and> i < stoplen)" using 0 by auto
  ultimately show ?case using 0
    by (subst copystr_loop.simps) (auto simp: str_outcome_def)
next
  case (Suc n)
  have lt: "i < maxlen \<and> i < stoplen" and n: "n = min maxlen stoplen - Suc i"
    and mi: "min maxlen stoplen - i = Suc n" and ji: "j + i < length b" using Suc by auto
  note loop = copystr_loop.simps [of "KPtr ob j" "UPtr a" maxlen stoplen i s]
  show ?case
  proof (cases "vmem s (a + of_nat i)")
    case None
    have "(kobj s)(ob \<mapsto> b) = kobj s" using Suc by (simp add: map_upd_triv)
    with None lt Suc.prems mi show ?thesis unfolding loop by (auto simp: str_outcome_def)
  next
    case (Some x)
    let ?s = "s\<lparr>kobj := (kobj s)(ob \<mapsto> b[j + i := x])\<rparr>"
    show ?thesis
    proof (cases "x = 0")
      case True
      have "overlay b (j + i) [x] = b[j + i := x]"
        using ji by (simp add: overlay_def upd_conv_take_nth_drop)
      with True Some lt Suc.prems mi ji show ?thesis unfolding loop by (simp add: str_outcome_def)
    next
      case False
      have "copystr_loop (KPtr ob j) (UPtr a) maxlen stoplen (i + 1) ?s =
        (let p = user_prefix (vmem ?s) (a + of_nat (i + 1)) (min maxlen stoplen - (i + 1)) in
         Done (str_outcome maxlen stoplen p (i + 1),
           ?s\<lparr>kobj := (kobj ?s)(ob \<mapsto> overlay (b[j + i := x]) (j + (i + 1)) (upto_nul p))\<rparr>))"
        using Suc.prems n lt by (intro Suc.hyps) auto
      with False Some lt Suc.prems mi ji n show ?thesis unfolding loop
        by (simp add: Let_def overlay_update str_outcome_def ac_simps)
    qed
  qed
qed

lemma copyinstr_spec:
  assumes "kobj s ob = Some b" "j + unat len \<le> length b" "\<not> tm_badfaultfunc s" "0 < unat len"
  shows "copyinstr a (KPtr ob j) len s =
    (if 2 ^ 32 < unat a + unat len \<or> 2 ^ 31 \<le> unat a then Done (Inl EFAULT, s)
     else let m = min (unat len) (2 ^ 31 - unat a); p = user_prefix (vmem s) a m in
       Done (if 0 \<in> set p then Inr (length (upto_nul p))
             else if length p < unat len then Inl EFAULT else Inl ENAMETOOLONG,
             s\<lparr>kobj := (kobj s)(ob \<mapsto> overlay b j (upto_nul p))\<rparr>))"
proof (cases "2 ^ 32 < unat a + unat len \<or> 2 ^ 31 \<le> unat a")
  case True
  then show ?thesis using assms(4) by (auto simp: copyinstr_def copycheck_nonzero)
next
  case False
  define stop where "stop = (if 2 ^ 31 < unat a + unat len then USERSPACETOP - a else len)"
  define m where "m = min (unat len) (2 ^ 31 - unat a)"
  define p where "p = user_prefix (vmem s) a m"
  have c: "copycheck a len = (None, stop)" using False assms(4) by (simp add: copycheck_nonzero stop_def)
  have st: "min (unat len) (unat stop) = m" "unat stop < unat len \<longleftrightarrow> m < unat len"
    using False by (auto simp: stop_def m_def USERSPACETOP_minus)
  have "copystr (KPtr ob j) (UPtr a) len stop (s\<lparr>tm_badfaultfunc := True\<rparr>) =
      Done (str_outcome (unat len) (unat stop) p 0,
        s\<lparr>tm_badfaultfunc := True, kobj := (kobj s)(ob \<mapsto> overlay b j (upto_nul p))\<rparr>)"
    using assms st m_def by (simp add: copystr_def copystr_loop_in [where b = b] Let_def p_def)
  moreover have "length p \<le> m" unfolding p_def by (rule length_user_prefix)
  moreover have "m \<le> unat len" by (simp add: m_def)
  moreover have "length (upto_nul p) = length (takeWhile (\<lambda>c. c \<noteq> 0) p) + 1" if "0 \<in> set p"
    using that by (simp add: upto_nul_def)
  moreover have "s\<lparr>kobj := k, tm_badfaultfunc := False\<rparr> = s\<lparr>kobj := k\<rparr>" for k using assms(3) by simp
  ultimately show ?thesis using False c st unfolding Let_def m_def [symmetric] p_def [symmetric]
    by (simp add: copyinstr_def str_result_def str_outcome_def)
qed

text \<open>A string copy out never reaches beyond the range that was checked.\<close>

lemma store_user_frame:
  "store s (UPtr a) x = Done (Some s') \<Longrightarrow>
   kobj s' = kobj s \<and> dom (vmem s') = dom (vmem s) \<and> (\<forall>y. y \<noteq> a \<longrightarrow> vmem s' y = vmem s y)"
  by (auto simp: fun_upd_apply split: option.splits if_splits)

lemma copystr_loop_step:
  assumes "copystr_loop dest src maxlen stoplen i s = Done (r, s')"
  shows "s' = s \<or> (\<exists>c u. i < min maxlen stoplen \<and> store s (ptr_add dest i) c = Done (Some u) \<and>
    (s' = u \<or> copystr_loop dest src maxlen stoplen (i + 1) u = Done (r, s')))"
proof (cases "i < maxlen \<and> i < stoplen \<and> s' \<noteq> s")
  case True
  then obtain x where x: "load s (ptr_add src i) = Done (Some x)"
    using assms by (subst (asm) copystr_loop.simps) (auto simp: obind_Done_iff split: option.splits)
  then obtain u where u: "store s (ptr_add dest i) x = Done (Some u)"
    using assms True
    by (subst (asm) copystr_loop.simps) (auto simp: obind_Done_iff split: option.splits)
  have "s' = u \<or> copystr_loop dest src maxlen stoplen (i + 1) u = Done (r, s')"
    using assms True x u by (subst (asm) copystr_loop.simps) (simp split: if_splits)
  then show ?thesis using True u by auto
next
  case False
  then show ?thesis using assms by (subst (asm) copystr_loop.simps) (auto split: if_splits)
qed

lemma copystr_loop_out_frame:
  assumes "copystr_loop (UPtr a) src maxlen stoplen i s = Done (r, s')"
    "unat a + min maxlen stoplen \<le> 2 ^ 32"
  shows "kobj s' = kobj s \<and> dom (vmem s') = dom (vmem s) \<and>
    (\<forall>y. unat y < unat a \<or> unat a + min maxlen stoplen \<le> unat y \<longrightarrow> vmem s' y = vmem s y)"
  using assms
proof (induction "min maxlen stoplen - i" arbitrary: i s rule: less_induct)
  case less
  show ?case
  proof (cases "s' = s")
    case False
    then obtain c u where i: "i < min maxlen stoplen"
      and u: "store s (UPtr (a + of_nat i)) c = Done (Some u)"
      and rest: "s' = u \<or> copystr_loop (UPtr a) src maxlen stoplen (i + 1) u = Done (r, s')"
      using copystr_loop_step [OF less.prems(1)] by auto
    have ua: "unat (a + of_nat i) = unat a + i"
    proof -
      have "unat (of_nat i :: u32) = i" using i less.prems(2) by (intro unat_of_nat_small) (simp only: len32; linarith)
      moreover from this have "unat a + unat (of_nat i :: u32) < 2 ^ LENGTH(32)"
        using i less.prems(2) by (simp only: len32)
      ultimately show ?thesis by (simp add: unat_add_lem [THEN iffD1])
    qed
    have "kobj s' = kobj u \<and> dom (vmem s') = dom (vmem u) \<and>
        (\<forall>y. unat y < unat a \<or> unat a + min maxlen stoplen \<le> unat y \<longrightarrow> vmem s' y = vmem u y)"
      using rest
    proof
      assume "copystr_loop (UPtr a) src maxlen stoplen (i + 1) u = Done (r, s')"
      then show ?thesis using i less.prems(2) by (intro less.hyps) auto
    qed simp
    moreover have "y \<noteq> a + of_nat i"
      if "unat y < unat a \<or> unat a + min maxlen stoplen \<le> unat y" for y
      using that ua i by auto
    ultimately show ?thesis using store_user_frame [OF u] by simp
  qed simp
qed

section \<open>The contract that callers rely on\<close>

locale user_copy =
  fixes cin :: "u32 \<Rightarrow> ptr \<Rightarrow> u32 \<Rightarrow> memory \<Rightarrow> (errno option \<times> memory) outcome"
    and cout :: "ptr \<Rightarrow> u32 \<Rightarrow> u32 \<Rightarrow> memory \<Rightarrow> (errno option \<times> memory) outcome"
  assumes cin_law: "kobj s ob = Some b \<Longrightarrow> i + unat len \<le> length b \<Longrightarrow> \<not> tm_badfaultfunc s \<Longrightarrow>
      cin a (KPtr ob i) len s =
        (if user_range a len
         then Done (if length (user_prefix (vmem s) a (unat len)) = unat len then None else Some EFAULT,
                    s\<lparr>kobj := (kobj s)(ob \<mapsto> overlay b i (user_prefix (vmem s) a (unat len)))\<rparr>)
         else Done (Some EFAULT, s))"
    and cout_law: "kobj s ob = Some b \<Longrightarrow> i + unat len \<le> length b \<Longrightarrow> \<not> tm_badfaultfunc s \<Longrightarrow>
      cout (KPtr ob i) a len s =
        (if user_range a len
         then Done (if length (user_prefix (vmem s) a (unat len)) = unat len then None else Some EFAULT,
                    s\<lparr>vmem := write_user (vmem s) a (take (unat len) (drop i b))\<rparr>)
         else Done (Some EFAULT, s))"
begin

lemma cout_isolated:
  assumes "kobj s ob = Some b" "i + unat len \<le> length b" "\<not> tm_badfaultfunc s"
  shows "\<exists>r m. cout (KPtr ob i) a len s = Done (r, s\<lparr>vmem := m\<rparr>) \<and> dom m = dom (vmem s) \<and>
    (\<forall>y. unat y < unat a \<or> unat a + unat len \<le> unat y \<or> 2 ^ 31 \<le> unat y \<longrightarrow> m y = vmem s y)"
proof (cases "user_range a len")
  case True
  let ?m = "write_user (vmem s) a (take (unat len) (drop i b))"
  have l: "length (take (unat len) (drop i b)) = unat len" using assms(2) by simp
  have "?m y = vmem s y" if "unat y < unat a \<or> unat a + unat len \<le> unat y \<or> 2 ^ 31 \<le> unat y" for y
    using that True l by (intro write_user_other) (auto simp: user_range_def)
  then show ?thesis using True
    by (intro exI [of _ "if length (user_prefix (vmem s) a (unat len)) = unat len then None else Some EFAULT"]
        exI [of _ ?m]) (auto simp: cout_law [OF assms] write_user_dom)
next
  case False
  then show ?thesis by (intro exI [of _ "Some EFAULT"] exI [of _ "vmem s"]) (simp add: cout_law [OF assms])
qed

lemma cin_isolated:
  assumes "kobj s ob = Some b" "i + unat len \<le> length b" "\<not> tm_badfaultfunc s"
  shows "\<exists>r c. cin a (KPtr ob i) len s = Done (r, s\<lparr>kobj := (kobj s)(ob \<mapsto> c)\<rparr>) \<and> length c = length b \<and>
    take i c = take i b \<and> drop (i + unat len) c = drop (i + unat len) b"
proof (cases "user_range a len")
  case True
  let ?p = "user_prefix (vmem s) a (unat len)"
  have l: "length ?p \<le> unat len" by (rule length_user_prefix)
  then have "length (overlay b i ?p) = length b" using assms(2) by simp
  moreover have "take i (overlay b i ?p) = take i b" using assms(2) by (simp add: overlay_def)
  moreover have "drop (i + unat len) (overlay b i ?p) = drop (i + unat len) b"
    using l assms(2) by (simp add: overlay_def add.commute)
  ultimately show ?thesis using True by (simp add: cin_law [OF assms]) blast
next
  case False
  have "(kobj s)(ob \<mapsto> b) = kobj s" using assms(1) by (simp add: map_upd_triv)
  with False show ?thesis
    by (intro exI [of _ "Some EFAULT"] exI [of _ b]) (simp add: cin_law [OF assms])
qed

lemma out_then_in:
  assumes "kobj s ob = Some b" "i + unat len \<le> length b" "\<not> tm_badfaultfunc s"
    and "kobj s ob' = Some c" "j + unat len \<le> length c"
    and out: "cout (KPtr ob i) a len s = Done (None, s')"
  shows "cin a (KPtr ob' j) len s' =
    Done (None, s'\<lparr>kobj := (kobj s')(ob' \<mapsto> overlay c j (take (unat len) (drop i b)))\<rparr>)"
proof -
  let ?xs = "take (unat len) (drop i b)"
  have r: "user_range a len" and full: "length (user_prefix (vmem s) a (unat len)) = unat len"
    and s': "s' = s\<lparr>vmem := write_user (vmem s) a ?xs\<rparr>"
    using out by (auto simp: cout_law [OF assms(1-3)] split: if_splits)
  have l: "length ?xs = unat len" using assms(2) by simp
  then have "user_prefix (vmem s') a (unat len) = ?xs"
    using full r write_user_read [of "vmem s" a ?xs] unfolding l by (auto simp: s' user_range_def)
  moreover have "kobj s' ob' = Some c" "\<not> tm_badfaultfunc s'" using assms(3,4) s' by simp_all
  ultimately show ?thesis using r l assms(5) by (simp add: cin_law)
qed

end

interpretation ucopy: user_copy copyin copyout
  by unfold_locales (rule copyin_spec copyout_spec; assumption)+

section \<open>Properties\<close>

text \<open>C32.  User copies are confined: \<^verbatim>\<open>copyin\<close> always returns, changes nothing but the bytes of
  the kernel buffer it was given, and \<^verbatim>\<open>copyout\<close> always returns, changes nothing but mapped
  user bytes of the destination range, in particular no address from \<^verbatim>\<open>USERSPACETOP\<close> up,
  whatever pointer and length the user passed.\<close>

theorem user_copies_confined:
  assumes "kobj s ob = Some b" "i + unat len \<le> length b" "\<not> tm_badfaultfunc s"
  shows "(\<exists>r c. copyin a (KPtr ob i) len s = Done (r, s\<lparr>kobj := (kobj s)(ob \<mapsto> c)\<rparr>) \<and> length c = length b \<and>
      take i c = take i b \<and> drop (i + unat len) c = drop (i + unat len) b) \<and>
    (\<exists>r m. copyout (KPtr ob i) a len s = Done (r, s\<lparr>vmem := m\<rparr>) \<and> dom m = dom (vmem s) \<and>
      (\<forall>y. unat y < unat a \<or> unat a + unat len \<le> unat y \<or> 2 ^ 31 \<le> unat y \<longrightarrow> m y = vmem s y))"
  using ucopy.cin_isolated [OF assms] ucopy.cout_isolated [OF assms] by blast

definition demo_mem :: memory where
  "demo_mem = \<lparr>kobj = [0 \<mapsto> [1, 2, 3, 4], 1 \<mapsto> [0, 0, 0, 0]], vmem = (\<lambda>a. if a < 0x1000 then Some 9 else None),
     tm_badfaultfunc = False\<rparr>"

theorem user_copies_confined_witness:
  "\<exists>r m. copyout (KPtr 0 0) 0x100 4 demo_mem = Done (r, demo_mem\<lparr>vmem := m\<rparr>) \<and> m 0x104 = vmem demo_mem 0x104"
  using user_copies_confined [of demo_mem 0 "[1, 2, 3, 4]" 0 4 "0x100"] by (force simp: demo_mem_def)

text \<open>What \<^verbatim>\<open>copyout\<close> stored is what \<^verbatim>\<open>copyin\<close> reads back.\<close>

theorem copyout_copyin_roundtrip:
  assumes "kobj s ob = Some b" "i + unat len \<le> length b" "\<not> tm_badfaultfunc s"
    and "kobj s ob' = Some c" "j + unat len \<le> length c" "copyout (KPtr ob i) a len s = Done (None, s')"
  shows "copyin a (KPtr ob' j) len s' =
    Done (None, s'\<lparr>kobj := (kobj s')(ob' \<mapsto> overlay c j (take (unat len) (drop i b)))\<rparr>)"
  using ucopy.out_then_in [OF assms] .

theorem copyout_copyin_roundtrip_witness:
  "\<exists>s'. copyout (KPtr 0 1) 0x100 2 demo_mem = Done (None, s') \<and>
     copyin 0x100 (KPtr 1 0) 2 s' = Done (None, s'\<lparr>kobj := (kobj s')(1 \<mapsto> [2, 3, 0, 0])\<rparr>)"
proof -
  have d: "kobj demo_mem 0 = Some [1, 2, 3, 4]" "kobj demo_mem 1 = Some [0, 0, 0, 0]" "\<not> tm_badfaultfunc demo_mem"
    by (simp_all add: demo_mem_def)
  have "\<exists>s'. copyout (KPtr 0 1) 0x100 2 demo_mem = Done (None, s')"
    using copyout_spec [of demo_mem 0 "[1, 2, 3, 4]" 1 2 "0x100"] d
    by (simp add: user_range_def demo_mem_def)
  then obtain s' where s': "copyout (KPtr 0 1) 0x100 2 demo_mem = Done (None, s')" by blast
  then show ?thesis using copyout_copyin_roundtrip [OF d(1) _ d(3,2) _ s', of 0]
    by (simp add: overlay_def)
qed

text \<open>C33.  \<^verbatim>\<open>copyinstr\<close> returns for every pointer: it copies up to and including the terminating
  zero and reports the length, \<^verbatim>\<open>ENAMETOOLONG\<close> when the buffer fills first, \<^verbatim>\<open>EFAULT\<close> when
  unmapped memory or the top of user space comes first.\<close>

theorem copyinstr_exact:
  assumes "kobj s ob = Some b" "j + unat len \<le> length b" "\<not> tm_badfaultfunc s" "0 < unat len"
  shows "copyinstr a (KPtr ob j) len s =
    (if 2 ^ 32 < unat a + unat len \<or> 2 ^ 31 \<le> unat a then Done (Inl EFAULT, s)
     else let m = min (unat len) (2 ^ 31 - unat a); p = user_prefix (vmem s) a m in
       Done (if 0 \<in> set p then Inr (length (upto_nul p))
             else if length p < unat len then Inl EFAULT else Inl ENAMETOOLONG,
             s\<lparr>kobj := (kobj s)(ob \<mapsto> overlay b j (upto_nul p))\<rparr>))"
  using copyinstr_spec [OF assms] .

theorem copyinstr_exact_witness:
  "\<exists>s'. copyinstr 0x100 (KPtr 0 0) 4 demo_mem = Done (Inl ENAMETOOLONG, s')"
  using copyinstr_exact [of demo_mem 0 "[1, 2, 3, 4]" 0 4 "0x100"]
  by (simp add: demo_mem_def Let_def)

text \<open>C34.  A block copy of length zero is refused with \<^verbatim>\<open>EFAULT\<close> at every user address, so an
  empty read or write through these routines is reported as a bad address.\<close>

theorem zero_length_copy_fails:
  assumes "kobj s ob = Some b" "i \<le> length b" "\<not> tm_badfaultfunc s"
  shows "copyin a (KPtr ob i) 0 s = Done (Some EFAULT, s) \<and> copyout (KPtr ob i) a 0 s = Done (Some EFAULT, s)"
  using copyin_spec [of s ob b i 0 a] copyout_spec [of s ob b i 0 a] assms by (simp add: user_range_def)

theorem zero_length_copy_fails_witness:
  "copyin 0x100 (KPtr 0 0) 0 demo_mem = Done (Some EFAULT, demo_mem)"
  using zero_length_copy_fails [of demo_mem 0 "[1, 2, 3, 4]" 0 "0x100"] by (simp add: demo_mem_def)

end
