(* ===== verification/Uio.thy ===== *)
theory Uio
  imports UserMem
begin

text \<open>
  The transfer descriptors of the I/O path (\<^verbatim>\<open>kern/lib/uio.c\<close>): \<^verbatim>\<open>uiomove\<close> moves bytes
  between a kernel buffer and the blocks a \<^verbatim>\<open>struct uio\<close> names, which are kernel objects
  or user memory.  The array of blocks is the list from \<^verbatim>\<open>uio_iov\<close> on; the address space
  is a number, and the current one is an argument.
\<close>

datatype uio_rw = UIO_READ | UIO_WRITE

datatype uio_seg = UIO_USERISPACE | UIO_USERSPACE | UIO_SYSSPACE

record iovec =
  iov_base :: ptr
  iov_len :: u32

record uio =
  uio_iov :: "iovec list"
  uio_iovcnt :: u32
  uio_offset :: u64
  uio_resid :: u32
  uio_segflg :: uio_seg
  uio_rw :: uio_rw
  uio_space :: "nat option"

text \<open>\<^verbatim>\<open>memmove\<close>: backwards when the destination lies above the source in the same
  object.  Without a recovery function a fault has stopped the kernel.\<close>

fun copy_back :: "nat \<Rightarrow> ptr \<Rightarrow> ptr \<Rightarrow> memory \<Rightarrow> (memory \<times> bool) outcome" where
  "copy_back 0 dst src s = Done (s, False)"
| "copy_back (Suc n) dst src s =
     obind (load s (ptr_add src n)) (\<lambda>x. case x of None \<Rightarrow> Done (s, True) | Some b \<Rightarrow>
       obind (store s (ptr_add dst n) b) (\<lambda>t. case t of None \<Rightarrow> Done (s, True) | Some s' \<Rightarrow>
         copy_back n dst src s'))"

fun ptr_below :: "ptr \<Rightarrow> ptr \<Rightarrow> bool" where
  "ptr_below (KPtr ob i) (KPtr ob' j) = (if ob = ob' then i < j else ob < ob')"
| "ptr_below (UPtr a) (UPtr b) = (a < b)"
| "ptr_below (UPtr a) (KPtr _ _) = True"
| "ptr_below (KPtr _ _) (UPtr b) = False"

definition memmove :: "ptr \<Rightarrow> ptr \<Rightarrow> nat \<Rightarrow> memory \<Rightarrow> memory outcome" where
  "memmove dst src n s =
     obind (if ptr_below dst src then copy_bytes n dst src s else copy_back n dst src s)
       (\<lambda>(s', _). Done s')"

fun user_addr :: "ptr \<Rightarrow> u32 outcome" where
  "user_addr (UPtr a) = Done a"
| "user_addr (KPtr _ _) = Stop Fault"

text \<open>The transfer of one block, the \<^verbatim>\<open>switch\<close> in the loop.\<close>

definition uio_block ::
  "uio_seg \<Rightarrow> uio_rw \<Rightarrow> ptr \<Rightarrow> ptr \<Rightarrow> u32 \<Rightarrow> memory \<Rightarrow> (errno option \<times> memory) outcome" where
  "uio_block seg rw p base sz s =
     (case seg of
        UIO_SYSSPACE \<Rightarrow>
          obind (case rw of UIO_READ \<Rightarrow> memmove base p (unat sz) s
                 | UIO_WRITE \<Rightarrow> memmove p base (unat sz) s) (\<lambda>s'. Done (None, s'))
      | _ \<Rightarrow> obind (user_addr base) (\<lambda>ubase.
          case rw of UIO_READ \<Rightarrow> copyout p ubase sz s
          | UIO_WRITE \<Rightarrow> copyin ubase p sz s))"

definition uio_advance :: "uio \<Rightarrow> iovec \<Rightarrow> iovec list \<Rightarrow> u32 \<Rightarrow> uio" where
  "uio_advance u iov rest sz =
     u\<lparr>uio_iov := \<lparr>iov_base = ptr_add (iov_base iov) (unat sz), iov_len = iov_len iov - sz\<rparr> # rest,
       uio_resid := uio_resid u - sz, uio_offset := uio_offset u + ucast sz\<rparr>"

function uiomove_loop :: "ptr \<Rightarrow> u32 \<Rightarrow> uio \<Rightarrow> memory \<Rightarrow> (errno option \<times> uio \<times> memory) outcome" where
  "uiomove_loop p n u s =
     (if 0 < n \<and> 0 < uio_resid u then
        (case uio_iov u of
           [] \<Rightarrow> Stop Fault
         | iov # rest \<Rightarrow>
             let sz = min (iov_len iov) n in
             if sz = 0 then
               (if uio_iovcnt u - 1 = 0 then Stop Panic
                else uiomove_loop p n (u\<lparr>uio_iov := rest, uio_iovcnt := uio_iovcnt u - 1\<rparr>) s)
             else
               obind (uio_block (uio_segflg u) (uio_rw u) p (iov_base iov) sz s) (\<lambda>(r, s').
                 case r of
                   Some e \<Rightarrow> Done (Some e, u, s')
                 | None \<Rightarrow> uiomove_loop (ptr_add p (unat sz)) (n - sz)
                              (uio_advance u iov rest sz) s'))
      else Done (None, u, s))"
  by pat_completeness auto
termination
proof (relation "measures [\<lambda>(p, n, u, s). unat n, \<lambda>(p, n, u, s). length (uio_iov u)]", goal_cases)
  case (3 p n u s iov rest sz x r s')
  then have "sz \<le> n" "sz \<noteq> 0" by auto
  then have "unat (n - sz) < unat n" by (rule unat_sub_less)
  then show ?case by simp
qed auto

declare uiomove_loop.simps [simp del]

definition uiomove ::
  "nat option \<Rightarrow> ptr \<Rightarrow> u32 \<Rightarrow> uio \<Rightarrow> memory \<Rightarrow> (errno option \<times> uio \<times> memory) outcome" where
  "uiomove curas p n u s =
     obind (kassert (if uio_segflg u = UIO_SYSSPACE then uio_space u = None
                     else uio_space u = curas)) (\<lambda>_.
     uiomove_loop p n u s)"

text \<open>The static zero buffer is object \<open>zb\<close>.\<close>

function uiomovezeros_loop ::
  "nat option \<Rightarrow> nat \<Rightarrow> u32 \<Rightarrow> uio \<Rightarrow> memory \<Rightarrow> (errno option \<times> uio \<times> memory) outcome" where
  "uiomovezeros_loop curas zb n u s =
     (if 0 < n then
        let amt = min 16 n in
        obind (uiomove curas (KPtr zb 0) amt u s) (\<lambda>(r, u', s').
          case r of Some e \<Rightarrow> Done (Some e, u', s')
          | None \<Rightarrow> uiomovezeros_loop curas zb (n - amt) u' s')
      else Done (None, u, s))"
  by pat_completeness auto
termination
proof (relation "measure (\<lambda>(c, zb, n, u, s). unat n)", goal_cases)
  case (2 curas zb n u s amt x r t u' s')
  then have "amt \<le> n" "amt \<noteq> 0" by (auto simp: min_def)
  then have "unat (n - amt) < unat n" by (rule unat_sub_less)
  then show ?case by simp
qed auto

declare uiomovezeros_loop.simps [simp del]

definition uiomovezeros ::
  "nat option \<Rightarrow> nat \<Rightarrow> u32 \<Rightarrow> uio \<Rightarrow> memory \<Rightarrow> (errno option \<times> uio \<times> memory) outcome" where
  "uiomovezeros curas zb n u s =
     obind (kassert (uio_rw u = UIO_READ)) (\<lambda>_. uiomovezeros_loop curas zb n u s)"

definition uio_kinit :: "ptr \<Rightarrow> u32 \<Rightarrow> u64 \<Rightarrow> uio_rw \<Rightarrow> uio" where
  "uio_kinit kbuf len pos rw =
     \<lparr>uio_iov = [\<lparr>iov_base = kbuf, iov_len = len\<rparr>], uio_iovcnt = 1, uio_offset = pos,
      uio_resid = len, uio_segflg = UIO_SYSSPACE, uio_rw = rw, uio_space = None\<rparr>"

section \<open>Overlapping moves\<close>

lemma copy_bytes_kernel:
  assumes "kobj s ob = Some b" "kobj s ob' = Some c" "i + n \<le> length b" "j + n \<le> length c"
    "ob \<noteq> ob' \<or> i \<le> j"
  shows "copy_bytes n (KPtr ob i) (KPtr ob' j) s =
    Done (s\<lparr>kobj := (kobj s)(ob \<mapsto> overlay b i (take n (drop j c)))\<rparr>, False)"
  using assms
proof (induction n arbitrary: i j s b c)
  case 0
  then have "(kobj s)(ob \<mapsto> b) = kobj s" by (simp add: map_upd_triv)
  then show ?case by simp
next
  case (Suc n)
  let ?b = "b[i := c ! j]" and ?c = "if ob = ob' then c[i := c ! j] else c"
  let ?s = "s\<lparr>kobj := (kobj s)(ob \<mapsto> ?b)\<rparr>"
  have k: "kobj ?s ob = Some ?b" "kobj ?s ob' = Some ?c" using Suc.prems by auto
  have "copy_bytes n (KPtr ob (Suc i)) (KPtr ob' (Suc j)) ?s =
      Done (?s\<lparr>kobj := (kobj ?s)(ob \<mapsto> overlay ?b (Suc i) (take n (drop (Suc j) ?c)))\<rparr>, False)"
    using Suc.prems by (intro Suc.IH [OF k]) auto
  moreover have "drop (Suc j) ?c = drop (Suc j) c" using Suc.prems(5) by auto
  moreover have "take (Suc n) (drop j c) = c ! j # take n (drop (Suc j) c)"
    using Suc.prems by (simp add: Cons_nth_drop_Suc [symmetric])
  ultimately show ?case using Suc.prems by (simp add: overlay_update)
qed

lemma overlay_update_last:
  "i + n < length b \<Longrightarrow> length p = n \<Longrightarrow> overlay (b[i + n := x]) i p = overlay b i (p @ [x])"
  by (simp add: overlay_def drop_update_swap Cons_nth_drop_Suc [symmetric])

lemma copy_back_kernel:
  assumes "kobj s ob = Some b" "kobj s ob' = Some c" "i + n \<le> length b" "j + n \<le> length c"
    "ob \<noteq> ob' \<or> j \<le> i"
  shows "copy_back n (KPtr ob i) (KPtr ob' j) s =
    Done (s\<lparr>kobj := (kobj s)(ob \<mapsto> overlay b i (take n (drop j c)))\<rparr>, False)"
  using assms
proof (induction n arbitrary: s b c)
  case 0
  then have "(kobj s)(ob \<mapsto> b) = kobj s" by (simp add: map_upd_triv)
  then show ?case by simp
next
  case (Suc n)
  let ?x = "c ! (j + n)"
  let ?b = "b[i + n := ?x]" and ?c = "if ob = ob' then c[i + n := ?x] else c"
  let ?s = "s\<lparr>kobj := (kobj s)(ob \<mapsto> ?b)\<rparr>"
  have k: "kobj ?s ob = Some ?b" "kobj ?s ob' = Some ?c" using Suc.prems by auto
  have "copy_back n (KPtr ob i) (KPtr ob' j) ?s =
      Done (?s\<lparr>kobj := (kobj ?s)(ob \<mapsto> overlay ?b i (take n (drop j ?c)))\<rparr>, False)"
    using Suc.prems by (intro Suc.IH [OF k]) auto
  moreover have "take n (drop j ?c) = take n (drop j c)"
    using Suc.prems(5) by (auto simp: drop_update_swap)
  moreover have "take (Suc n) (drop j c) = take n (drop j c) @ [?x]"
    using Suc.prems by (simp add: take_Suc_conv_app_nth)
  ultimately show ?case using Suc.prems by (simp add: overlay_update_last)
qed

lemma memmove_spec:
  assumes "kobj s ob = Some b" "kobj s ob' = Some c" "i + n \<le> length b" "j + n \<le> length c"
  shows "memmove (KPtr ob i) (KPtr ob' j) n s =
    Done (s\<lparr>kobj := (kobj s)(ob \<mapsto> overlay b i (take n (drop j c)))\<rparr>)"
proof (cases "ptr_below (KPtr ob i) (KPtr ob' j)")
  case True
  then have "ob \<noteq> ob' \<or> i \<le> j" by (auto split: if_splits)
  then show ?thesis using True copy_bytes_kernel [OF assms] by (simp add: memmove_def)
next
  case False
  then have "ob \<noteq> ob' \<or> j \<le> i" by (auto split: if_splits)
  then show ?thesis using False copy_back_kernel [OF assms] by (simp add: memmove_def)
qed

section \<open>Accounting\<close>

text \<open>The setup the interface asks for: \<^verbatim>\<open>uio_resid\<close> is the total length of the blocks.\<close>

definition uio_total :: "uio \<Rightarrow> nat" where
  "uio_total u = sum_list (map (\<lambda>v. unat (iov_len v)) (uio_iov u))"

definition uio_wf :: "uio \<Rightarrow> bool" where
  "uio_wf u \<longleftrightarrow> uio_total u = unat (uio_resid u) \<and> length (uio_iov u) < 2 ^ 32 \<and>
     uio_iovcnt u = of_nat (length (uio_iov u))"

lemma uio_wf_skip:
  assumes "uio_wf u" "uio_iov u = iov # rest" "iov_len iov = 0"
  shows "uio_wf (u\<lparr>uio_iov := rest, uio_iovcnt := uio_iovcnt u - 1\<rparr>)"
  using assms by (simp add: uio_wf_def uio_total_def)

lemma uio_skip_panic:
  assumes "uio_wf u" "uio_iov u = iov # rest" "iov_len iov = 0" "0 < uio_resid u"
  shows "uio_iovcnt u - 1 \<noteq> 0"
proof
  assume "uio_iovcnt u - 1 = 0"
  then have "(of_nat (length rest) :: u32) = 0" using assms by (simp add: uio_wf_def)
  then have "unat (of_nat (length rest) :: u32) = 0" by simp
  then have "rest = []" using assms by (simp add: uio_wf_def unat_of_nat_small)
  then show False using assms by (simp add: uio_wf_def uio_total_def word_gt_0 unat_eq_zero)
qed

lemma uio_wf_advance:
  assumes "uio_wf u" "uio_iov u = iov # rest" "sz \<le> iov_len iov"
  shows "uio_wf (uio_advance u iov rest sz)"
    "unat (uio_resid u - sz) = unat (uio_resid u) - unat sz" "unat sz \<le> unat (uio_resid u)"
proof -
  have le: "unat sz \<le> unat (iov_len iov)" using assms(3) by (simp add: word_le_nat_alt)
  then show sr: "unat sz \<le> unat (uio_resid u)" using assms(1,2) by (simp add: uio_wf_def uio_total_def)
  then show r: "unat (uio_resid u - sz) = unat (uio_resid u) - unat sz"
    by (simp add: unat_sub word_le_nat_alt)
  show "uio_wf (uio_advance u iov rest sz)" using assms r le sr
    by (simp add: uio_wf_def uio_total_def uio_advance_def unat_sub)
qed

definition uio_moved :: "uio \<Rightarrow> uio \<Rightarrow> nat \<Rightarrow> bool" where
  "uio_moved u u' k \<longleftrightarrow> k \<le> unat (uio_resid u) \<and> unat (uio_resid u') = unat (uio_resid u) - k \<and>
     uio_offset u' = uio_offset u + of_nat k \<and> uio_segflg u' = uio_segflg u \<and>
     uio_rw u' = uio_rw u \<and> uio_space u' = uio_space u"

lemma uio_moved_advance:
  assumes "uio_wf u" "uio_iov u = iov # rest" "sz \<le> iov_len iov"
    "uio_moved (uio_advance u iov rest sz) u' k"
  shows "uio_moved u u' (unat sz + k)"
  using assms(4) uio_wf_advance [OF assms(1-3)]
  by (auto simp: uio_moved_def uio_advance_def)

lemma uiomove_loop_moved:
  assumes "uiomove_loop p n u s = Done (r, u', s')" "uio_wf u"
  shows "uio_wf u' \<and> (\<exists>k. uio_moved u u' k \<and> k \<le> unat n \<and>
    (r = None \<longrightarrow> k = min (unat n) (unat (uio_resid u))))"
  using assms
proof (induction p n u s rule: uiomove_loop.induct)
  case (1 p n u s)
  note unf = 1(3) [unfolded uiomove_loop.simps [of p n u s]]
  show ?case
  proof (cases "0 < n \<and> 0 < uio_resid u")
    case False
    then have "min (unat n) (unat (uio_resid u)) = 0" by (auto simp: word_gt_0)
    then show ?thesis using unf 1(4) False by (auto simp: uio_moved_def intro!: exI [of _ 0])
  next
    case True
    then obtain iov rest where v: "uio_iov u = iov # rest"
      using unf by (cases "uio_iov u") auto
    define sz where "sz = min (iov_len iov) n"
    show ?thesis
    proof (cases "sz = 0")
      case z: True
      then have l: "iov_len iov = 0" using True by (auto simp: sz_def min_def split: if_splits)
      have c: "uio_iovcnt u - 1 \<noteq> 0" using uio_skip_panic [OF 1(4) v l] True by simp
      let ?u = "u\<lparr>uio_iov := rest, uio_iovcnt := uio_iovcnt u - 1\<rparr>"
      have "uiomove_loop p n ?u s = Done (r, u', s')"
        using unf True v z c by (simp add: sz_def Let_def)
      from 1(1) [OF True v sz_def z c this uio_wf_skip [OF 1(4) v l]]
      show ?thesis by (simp add: uio_moved_def)
    next
      case nz: False
      obtain x t where x: "uio_block (uio_segflg u) (uio_rw u) p (iov_base iov) sz s = Done (x, t)"
        using unf True v nz by (auto simp: sz_def [symmetric] Let_def obind_Done_iff)
      have le: "sz \<le> iov_len iov" "sz \<le> n" by (simp_all add: sz_def)
      show ?thesis
      proof (cases x)
        case (Some e)
        then show ?thesis using unf True v nz x 1(4)
          by (auto simp: sz_def [symmetric] Let_def uio_moved_def intro!: exI [of _ 0])
      next
        case None
        let ?u = "uio_advance u iov rest sz"
        have "uiomove_loop (ptr_add p (unat sz)) (n - sz) ?u t = Done (r, u', s')"
          using unf True v nz x None by (simp add: sz_def [symmetric] Let_def)
        note ih = 1(2) [OF True v sz_def nz x refl None this uio_wf_advance(1) [OF 1(4) v le(1)]]
        then obtain k where k: "uio_wf u'" "uio_moved ?u u' k" "k \<le> unat (n - sz)"
          "r = None \<longrightarrow> k = min (unat (n - sz)) (unat (uio_resid ?u))" by blast
        have "unat (n - sz) = unat n - unat sz" "unat sz \<le> unat n"
          using le(2) by (simp_all add: unat_sub word_le_nat_alt)
        moreover note uio_wf_advance(2,3) [OF 1(4) v le(1)]
        ultimately show ?thesis using k uio_moved_advance [OF 1(4) v le(1) k(2)]
          by (intro conjI exI [of _ "unat sz + k"]) (auto simp: uio_advance_def)
      qed
    qed
  qed
qed

section \<open>The data moved\<close>

text \<open>A user block that can be accessed in full, its bytes, and the effect of storing a
  byte string into a sequence of user blocks.\<close>

definition block_addr :: "iovec \<Rightarrow> u32" where
  "block_addr v = (case iov_base v of UPtr a \<Rightarrow> a | KPtr _ _ \<Rightarrow> 0)"

definition block_ok :: "(u32 \<rightharpoonup> u8) \<Rightarrow> iovec \<Rightarrow> bool" where
  "block_ok m v \<longleftrightarrow> iov_base v = UPtr (block_addr v) \<and> unat (block_addr v) + unat (iov_len v) \<le> 2 ^ 31 \<and>
     length (user_prefix m (block_addr v) (unat (iov_len v))) = unat (iov_len v)"

definition block_bytes :: "(u32 \<rightharpoonup> u8) \<Rightarrow> iovec \<Rightarrow> u8 list" where
  "block_bytes m v = user_prefix m (block_addr v) (unat (iov_len v))"

fun scatter :: "(u32 \<rightharpoonup> u8) \<Rightarrow> iovec list \<Rightarrow> u8 list \<Rightarrow> (u32 \<rightharpoonup> u8)" where
  "scatter m [] d = m"
| "scatter m (v # vs) d =
     scatter (write_user m (block_addr v) (take (unat (iov_len v)) d)) vs (drop (unat (iov_len v)) d)"

lemma scatter_Nil_data [simp]: "scatter m vs [] = m"
  by (induction vs arbitrary: m) auto

lemma scatter_dom: "dom (scatter m vs d) = dom m"
  by (induction m vs d rule: scatter.induct) (auto simp: write_user_dom)

lemma block_ok_dom: "dom m = dom m' \<Longrightarrow> block_ok m v = block_ok m' v"
  by (simp add: block_ok_def user_prefix_dom [of m m'])

lemma block_bytes_empty [simp]: "iov_len v = 0 \<Longrightarrow> block_bytes m v = []"
  by (simp add: block_bytes_def)

lemma user_prefix_take: "take k (user_prefix m a n) = user_prefix m a (min k n)"
proof (induction n arbitrary: a k)
  case (Suc n)
  then show ?case by (cases k) (auto split: option.splits)
qed simp

lemma user_prefix_short:
  assumes "length (user_prefix m a n) = n" "k \<le> n"
  shows "length (user_prefix m a k) = k"
proof -
  have "user_prefix m a k = take k (user_prefix m a n)" using assms(2) by (simp add: user_prefix_take)
  then show ?thesis using assms by simp
qed

lemma copyin_block:
  assumes "block_ok (vmem s) v" "sz \<le> iov_len v" "sz \<noteq> 0"
    and "kobj s ob = Some b" "i + unat sz \<le> length b" "\<not> tm_badfaultfunc s"
  shows "copyin (block_addr v) (KPtr ob i) sz s = Done (None,
    s\<lparr>kobj := (kobj s)(ob \<mapsto> overlay b i (take (unat sz) (block_bytes (vmem s) v)))\<rparr>)"
proof -
  have le: "unat sz \<le> unat (iov_len v)" using assms(2) by (simp add: word_le_nat_alt)
  then have "user_range (block_addr v) sz"
    using assms(1,3) by (auto simp: user_range_def block_ok_def unat_gt_0)
  moreover have "length (user_prefix (vmem s) (block_addr v) (unat sz)) = unat sz"
    using assms(1) le user_prefix_short by (auto simp: block_ok_def)
  moreover have "take (unat sz) (block_bytes (vmem s) v) = user_prefix (vmem s) (block_addr v) (unat sz)"
    using le by (simp add: block_bytes_def user_prefix_take min_absorb1)
  ultimately show ?thesis by (simp add: copyin_spec [OF assms(4-6)])
qed

lemma copyout_block:
  assumes "block_ok (vmem s) v" "sz \<le> iov_len v" "sz \<noteq> 0"
    and "kobj s ob = Some b" "i + unat sz \<le> length b" "\<not> tm_badfaultfunc s"
  shows "copyout (KPtr ob i) (block_addr v) sz s = Done (None,
    s\<lparr>vmem := write_user (vmem s) (block_addr v) (take (unat sz) (drop i b))\<rparr>)"
proof -
  have le: "unat sz \<le> unat (iov_len v)" using assms(2) by (simp add: word_le_nat_alt)
  then have "user_range (block_addr v) sz"
    using assms(1,3) by (auto simp: user_range_def block_ok_def unat_gt_0)
  moreover have "length (user_prefix (vmem s) (block_addr v) (unat sz)) = unat sz"
    using assms(1) le user_prefix_short by (auto simp: block_ok_def)
  ultimately show ?thesis by (simp add: copyout_spec [OF assms(4-6)])
qed

text \<open>The loop of \<^verbatim>\<open>uiomove\<close>, one lemma per kind of iteration.\<close>

lemma uiomove_loop_end:
  "n = 0 \<or> uio_resid u = 0 \<Longrightarrow> uiomove_loop p n u s = Done (None, u, s)"
  by (subst uiomove_loop.simps) auto

lemma uiomove_loop_skip:
  assumes "uio_wf u" "uio_iov u = v # vs" "iov_len v = 0" "0 < n" "0 < uio_resid u"
  shows "uiomove_loop p n u s = uiomove_loop p n (u\<lparr>uio_iov := vs, uio_iovcnt := uio_iovcnt u - 1\<rparr>) s"
  using assms uio_skip_panic [OF assms(1-3,5)] by (subst uiomove_loop.simps) (simp add: Let_def)

lemma uiomove_loop_last:
  assumes "uio_iov u = v # vs" "0 < n" "n \<le> iov_len v" "0 < uio_resid u"
    and "uio_block (uio_segflg u) (uio_rw u) p (iov_base v) n s = Done (None, s')"
  shows "uiomove_loop p n u s = Done (None, uio_advance u v vs n, s')"
proof -
  have "min (iov_len v) n = n" "n \<noteq> 0" using assms by auto
  then show ?thesis using assms
    by (subst uiomove_loop.simps) (simp add: Let_def uiomove_loop_end)
qed

lemma uiomove_loop_full:
  assumes "uio_iov u = v # vs" "iov_len v \<noteq> 0" "iov_len v < n" "0 < uio_resid u"
    and "uio_block (uio_segflg u) (uio_rw u) p (iov_base v) (iov_len v) s = Done (None, s')"
  shows "uiomove_loop p n u s =
    uiomove_loop (ptr_add p (unat (iov_len v))) (n - iov_len v) (uio_advance u v vs (iov_len v)) s'"
proof -
  have "min (iov_len v) n = iov_len v" "0 < n"
    using assms by (auto simp: min_def word_gt_0)
  then show ?thesis using assms by (subst uiomove_loop.simps) (simp add: Let_def)
qed

lemma uio_nonempty:
  "uio_wf u \<Longrightarrow> 0 < uio_resid u \<Longrightarrow> \<exists>v vs. uio_iov u = v # vs"
  by (cases "uio_iov u") (auto simp: uio_wf_def uio_total_def word_gt_0 unat_eq_zero)

lemma block_ok_used_up:
  assumes "block_ok m v"
  shows "block_ok m \<lparr>iov_base = ptr_add (iov_base v) (unat (iov_len v)), iov_len = 0\<rparr>"
proof -
  have b: "iov_base v = UPtr (block_addr v)" "unat (block_addr v) + unat (iov_len v) \<le> 2 ^ 31"
    using assms by (simp_all add: block_ok_def)
  have "unat (block_addr v + iov_len v) = unat (block_addr v) + unat (iov_len v)"
    using b(2) by (subst unat_add_lem [THEN iffD1]) auto
  moreover have "block_addr \<lparr>iov_base = ptr_add (iov_base v) (unat (iov_len v)), iov_len = 0\<rparr>
      = block_addr v + iov_len v"
    unfolding b(1) by (simp add: block_addr_def)
  moreover have "ptr_add (iov_base v) (unat (iov_len v)) = UPtr (block_addr v + iov_len v)"
    by (subst b(1)) simp
  ultimately show ?thesis using b(2) by (simp add: block_ok_def)
qed

lemma uio_advance_full:
  "uio_iov (uio_advance u v vs (iov_len v)) =
     \<lparr>iov_base = ptr_add (iov_base v) (unat (iov_len v)), iov_len = 0\<rparr> # vs"
  by (simp add: uio_advance_def)

text \<open>Induction over the iterations.\<close>

lemma uiomove_loop_wf_induct [consumes 1, case_names stop skip last full]:
  assumes "uio_wf u"
    and stop: "\<And>p n u s. uio_wf u \<Longrightarrow> n = 0 \<or> uio_resid u = 0 \<Longrightarrow> P p n u s"
    and skip: "\<And>p n u s v vs. uio_wf u \<Longrightarrow> uio_iov u = v # vs \<Longrightarrow> iov_len v = 0 \<Longrightarrow> 0 < n \<Longrightarrow>
      0 < uio_resid u \<Longrightarrow> P p n (u\<lparr>uio_iov := vs, uio_iovcnt := uio_iovcnt u - 1\<rparr>) s \<Longrightarrow> P p n u s"
    and last: "\<And>p n u s v vs. uio_wf u \<Longrightarrow> uio_iov u = v # vs \<Longrightarrow> 0 < n \<Longrightarrow> n \<le> iov_len v \<Longrightarrow>
      0 < uio_resid u \<Longrightarrow> P p n u s"
    and full: "\<And>p n u s v vs. uio_wf u \<Longrightarrow> uio_iov u = v # vs \<Longrightarrow> iov_len v \<noteq> 0 \<Longrightarrow> iov_len v < n \<Longrightarrow>
      0 < uio_resid u \<Longrightarrow>
      (\<And>s'. P (ptr_add p (unat (iov_len v))) (n - iov_len v) (uio_advance u v vs (iov_len v)) s') \<Longrightarrow>
      P p n u s"
  shows "P p n u s"
  using assms(1)
proof (induction "unat n + length (uio_iov u)" arbitrary: p n u s rule: less_induct)
  case less
  show ?case
  proof (cases "n = 0 \<or> uio_resid u = 0")
    case False
    then have pos: "0 < n" "0 < uio_resid u" by (auto simp: word_gt_0)
    then obtain v vs where v: "uio_iov u = v # vs" using uio_nonempty less.prems by blast
    consider "iov_len v = 0" | "n \<le> iov_len v" | "iov_len v \<noteq> 0" "iov_len v < n" by force
    then show ?thesis
    proof cases
      case 1
      then show ?thesis using skip [OF less.prems v] pos less.hyps uio_wf_skip [OF less.prems v]
        by (simp add: v)
    next
      case 2
      then show ?thesis using last less.prems v pos by blast
    next
      case 3
      have "unat (n - iov_len v) < unat n" using 3 by (intro unat_sub_less) auto
      then show ?thesis using 3 pos v less.hyps uio_wf_advance(1) [OF less.prems v]
        by (intro full [OF less.prems v]) (simp_all add: uio_advance_full)
    qed
  qed (use stop less.prems in blast)
qed

lemma block_in:
  assumes "block_ok (vmem s) v" "sz \<le> iov_len v" "sz \<noteq> 0" "seg \<noteq> UIO_SYSSPACE"
    and "kobj s ob = Some b" "i + unat sz \<le> length b" "\<not> tm_badfaultfunc s"
  shows "uio_block seg UIO_WRITE (KPtr ob i) (iov_base v) sz s = Done (None,
    s\<lparr>kobj := (kobj s)(ob \<mapsto> overlay b i (take (unat sz) (block_bytes (vmem s) v)))\<rparr>)"
proof -
  have "iov_base v = UPtr (block_addr v)" using assms(1) by (simp add: block_ok_def)
  then show ?thesis using copyin_block [OF assms(1-3,5-7)] assms(4)
    by (cases seg) (simp_all add: uio_block_def)
qed

lemma block_out:
  assumes "block_ok (vmem s) v" "sz \<le> iov_len v" "sz \<noteq> 0" "seg \<noteq> UIO_SYSSPACE"
    and "kobj s ob = Some b" "i + unat sz \<le> length b" "\<not> tm_badfaultfunc s"
  shows "uio_block seg UIO_READ (KPtr ob i) (iov_base v) sz s = Done (None,
    s\<lparr>vmem := write_user (vmem s) (block_addr v) (take (unat sz) (drop i b))\<rparr>)"
proof -
  have "iov_base v = UPtr (block_addr v)" using assms(1) by (simp add: block_ok_def)
  then show ?thesis using copyout_block [OF assms(1-3,5-7)] assms(4)
    by (cases seg) (simp_all add: uio_block_def)
qed

lemma length_block_bytes: "block_ok m v \<Longrightarrow> length (block_bytes m v) = unat (iov_len v)"
  by (simp add: block_ok_def block_bytes_def)

lemma uio_wf_empty:
  "uio_wf u \<Longrightarrow> uio_resid u = 0 \<Longrightarrow> concat (map (block_bytes m) (uio_iov u)) = []"
  by (auto simp: uio_wf_def uio_total_def unat_eq_zero)

definition gathered :: "(u32 \<rightharpoonup> u8) \<Rightarrow> uio \<Rightarrow> u8 list" where
  "gathered m u = concat (map (block_bytes m) (uio_iov u))"

lemma gathered_advance:
  "uio_iov u = v # vs \<Longrightarrow> block_ok m v \<Longrightarrow>
   gathered m u = block_bytes m v @ gathered m (uio_advance u v vs (iov_len v))"
  by (simp add: gathered_def uio_advance_full)

lemma uio_advance_flags [simp]:
  "uio_segflg (uio_advance u v vs sz) = uio_segflg u" "uio_rw (uio_advance u v vs sz) = uio_rw u"
  by (simp_all add: uio_advance_def)

lemma uiomove_loop_gather:
  assumes "uio_wf u" "uio_segflg u \<noteq> UIO_SYSSPACE" "uio_rw u = UIO_WRITE"
    "\<forall>v\<in>set (uio_iov u). block_ok (vmem s) v" "p = KPtr ob i"
    "kobj s ob = Some b" "i + unat n \<le> length b" "\<not> tm_badfaultfunc s"
  shows "\<exists>u'. uiomove_loop p n u s = Done (None, u',
    s\<lparr>kobj := (kobj s)(ob \<mapsto> overlay b i (take (unat n) (gathered (vmem s) u)))\<rparr>)"
  using assms
proof (induction p n u s arbitrary: i b rule: uiomove_loop_wf_induct)
  case (stop p n u s)
  then have "take (unat n) (gathered (vmem s) u) = []"
    using uio_wf_empty by (auto simp: gathered_def)
  moreover have "(kobj s)(ob \<mapsto> b) = kobj s" using stop by (simp add: map_upd_triv)
  ultimately show ?case using stop(2) by (simp only: uiomove_loop_end overlay_Nil) simp
next
  case (skip p n u s v vs)
  then show ?case by (simp add: uiomove_loop_skip gathered_def)
next
  case (last p n u s v vs)
  then have ok: "block_ok (vmem s) v" and n: "unat n \<le> unat (iov_len v)" "n \<noteq> 0"
    by (auto simp: word_le_nat_alt)
  have t: "take (unat n) (gathered (vmem s) u) = take (unat n) (block_bytes (vmem s) v)"
    using gathered_advance [OF last(2) ok] n length_block_bytes [OF ok] by simp
  show ?case using uiomove_loop_last [OF last(2-5)] block_in [OF ok last(4) n(2) last(6) last(10,11,12)]
      last(7,9) t by simp
next
  case (full p n u s v vs)
  let ?l = "iov_len v" and ?d = "block_bytes (vmem s) v"
  let ?u = "uio_advance u v vs ?l" and ?b = "overlay b i ?d"
  let ?s = "s\<lparr>kobj := (kobj s)(ob \<mapsto> ?b)\<rparr>"
  have ok: "block_ok (vmem s) v" using full by simp
  note ld = length_block_bytes [OF ok]
  have l: "unat ?l < unat n" "unat (n - ?l) = unat n - unat ?l"
    using full(4) by (simp_all add: word_less_nat_alt unat_sub word_le_nat_alt)
  have step: "uiomove_loop p n u s = uiomove_loop (ptr_add p (unat ?l)) (n - ?l) ?u ?s"
    using uiomove_loop_full [OF full(2-5)] block_in [OF ok order.refl full(3,7,11) _ full(13)]
      full(8,10,12) l ld by simp
  have "\<exists>u'. uiomove_loop (ptr_add p (unat ?l)) (n - ?l) ?u ?s = Done (None, u',
      ?s\<lparr>kobj := (kobj ?s)(ob \<mapsto> overlay ?b (i + unat ?l) (take (unat (n - ?l)) (gathered (vmem ?s) ?u)))\<rparr>)"
    by (rule full(6)) (use full(7-13) l ld block_ok_used_up [OF ok] in
        \<open>simp_all add: uio_advance_full full(2)\<close>)
  moreover have "overlay ?b (i + unat ?l) q = overlay b i (?d @ q)" for q
    using overlay_overlay [of i ?d b q] ld full(12) l by simp
  ultimately show ?case using step gathered_advance [OF full(2) ok] l ld by simp
qed

lemma scatter_empty: "\<forall>v\<in>set vs. iov_len v = 0 \<Longrightarrow> scatter m vs d = m"
  by (induction m vs d rule: scatter.induct) auto

lemma uiomove_loop_scatter:
  assumes "uio_wf u" "uio_segflg u \<noteq> UIO_SYSSPACE" "uio_rw u = UIO_READ"
    "\<forall>v\<in>set (uio_iov u). block_ok (vmem s) v" "p = KPtr ob i"
    "kobj s ob = Some b" "i + unat n \<le> length b" "\<not> tm_badfaultfunc s"
  shows "\<exists>u'. uiomove_loop p n u s = Done (None, u',
    s\<lparr>vmem := scatter (vmem s) (uio_iov u) (take (unat n) (drop i b))\<rparr>)"
  using assms
proof (induction p n u s arbitrary: i rule: uiomove_loop_wf_induct)
  case (stop p n u s)
  then have "n = 0 \<or> (\<forall>v\<in>set (uio_iov u). iov_len v = 0)"
    by (auto simp: uio_wf_def uio_total_def unat_eq_zero)
  then have "scatter (vmem s) (uio_iov u) (take (unat n) (drop i b)) = vmem s"
    using scatter_empty by auto
  then show ?case using stop(2) by (simp only: uiomove_loop_end) simp
next
  case (skip p n u s v vs)
  then show ?case by (simp add: uiomove_loop_skip)
next
  case (last p n u s v vs)
  then have ok: "block_ok (vmem s) v" and n: "unat n \<le> unat (iov_len v)" "n \<noteq> 0"
    by (auto simp: word_le_nat_alt)
  have "scatter (vmem s) (uio_iov u) (take (unat n) (drop i b)) =
      write_user (vmem s) (block_addr v) (take (unat n) (drop i b))"
    using last(2) n by (simp add: min_absorb2)
  then show ?case using uiomove_loop_last [OF last(2-5)] block_out [OF ok last(4) n(2) last(6) last(10,11,12)]
      last(7,9) by simp
next
  case (full p n u s v vs)
  let ?l = "iov_len v"
  let ?u = "uio_advance u v vs ?l"
  let ?m = "write_user (vmem s) (block_addr v) (take (unat ?l) (drop i b))"
  let ?s = "s\<lparr>vmem := ?m\<rparr>"
  have ok: "block_ok (vmem s) v" using full by simp
  have l: "unat ?l < unat n" "unat (n - ?l) = unat n - unat ?l"
    using full(4) by (simp_all add: word_less_nat_alt unat_sub word_le_nat_alt)
  have step: "uiomove_loop p n u s = uiomove_loop (ptr_add p (unat ?l)) (n - ?l) ?u ?s"
    using uiomove_loop_full [OF full(2-5)] block_out [OF ok order.refl full(3,7,11) _ full(13)]
      full(8,10,12) l by simp
  have d: "dom (vmem s) = dom ?m" by (simp add: write_user_dom)
  have "\<forall>w\<in>set (uio_iov ?u). block_ok ?m w"
    using full(9) block_ok_used_up [OF ok] block_ok_dom [OF d]
    by (simp add: uio_advance_full full(2))
  then have "\<exists>u'. uiomove_loop (ptr_add p (unat ?l)) (n - ?l) ?u ?s = Done (None, u',
      ?s\<lparr>vmem := scatter (vmem ?s) (uio_iov ?u) (take (unat (n - ?l)) (drop (i + unat ?l) b))\<rparr>)"
    by (intro full(6)) (use full(7-13) l in simp_all)
  moreover have "drop (unat ?l) (take (unat n) (drop i b)) = take (unat n - unat ?l) (drop (i + unat ?l) b)"
    by (simp add: drop_take add.commute)
  moreover have "min (unat ?l) (unat n) = unat ?l" using l by simp
  ultimately show ?case using step l by (simp add: uio_advance_full full(2))
qed

text \<open>A descriptor set up by \<^verbatim>\<open>uio_kinit\<close> satisfies the accounting invariant, and one call moves
  the requested bytes between the two kernel buffers.\<close>

lemma uio_kinit_wf: "uio_wf (uio_kinit kbuf len pos rw)"
  by (simp add: uio_wf_def uio_total_def uio_kinit_def)

lemma uiomove_kernel:
  assumes "kobj s ob = Some b" "kobj s ob' = Some c" "0 < n" "n \<le> len"
    "i + unat n \<le> length b" "j + unat n \<le> length c"
  shows "\<exists>u'. uiomove as (KPtr ob i) n (uio_kinit (KPtr ob' j) len pos rw) s = Done (None, u',
    case rw of
      UIO_READ \<Rightarrow> s\<lparr>kobj := (kobj s)(ob' \<mapsto> overlay c j (take (unat n) (drop i b)))\<rparr>
    | UIO_WRITE \<Rightarrow> s\<lparr>kobj := (kobj s)(ob \<mapsto> overlay b i (take (unat n) (drop j c)))\<rparr>)"
proof -
  let ?u = "uio_kinit (KPtr ob' j) len pos rw" and ?v = "\<lparr>iov_base = KPtr ob' j, iov_len = len\<rparr>"
  let ?s = "case rw of
      UIO_READ \<Rightarrow> s\<lparr>kobj := (kobj s)(ob' \<mapsto> overlay c j (take (unat n) (drop i b)))\<rparr>
    | UIO_WRITE \<Rightarrow> s\<lparr>kobj := (kobj s)(ob \<mapsto> overlay b i (take (unat n) (drop j c)))\<rparr>"
  have "uio_block (uio_segflg ?u) (uio_rw ?u) (KPtr ob i) (iov_base ?v) n s = Done (None, ?s)"
    using memmove_spec [OF assms(1,2,5,6)] memmove_spec [OF assms(2,1,6,5)]
    by (simp add: uio_block_def uio_kinit_def split: uio_rw.splits)
  then have "uiomove_loop (KPtr ob i) n ?u s = Done (None, uio_advance ?u ?v [] n, ?s)"
    using assms(3,4) by (intro uiomove_loop_last) (auto simp: uio_kinit_def)
  then show ?thesis by (simp add: uiomove_def uio_kinit_def)
qed

section \<open>Properties\<close>

text \<open>C35.  \<^verbatim>\<open>uiomove\<close> to and from user memory is scatter and gather: over a well formed request
  whose blocks are mapped it returns success, a write reads the bytes of the blocks in order
  into the kernel buffer, a read spreads the kernel buffer over the blocks in order, and the
  offset and the residue account for exactly the bytes moved.\<close>

theorem uiomove_scatter_gather:
  assumes "uio_wf u" "uio_segflg u \<noteq> UIO_SYSSPACE" "uio_space u = curas"
    "\<forall>v\<in>set (uio_iov u). block_ok (vmem s) v"
    "kobj s ob = Some b" "i + unat n \<le> length b" "\<not> tm_badfaultfunc s"
  shows "\<exists>u'. uiomove curas (KPtr ob i) n u s = Done (None, u',
      case uio_rw u of
        UIO_WRITE \<Rightarrow> s\<lparr>kobj := (kobj s)(ob \<mapsto> overlay b i (take (unat n) (gathered (vmem s) u)))\<rparr>
      | UIO_READ \<Rightarrow> s\<lparr>vmem := scatter (vmem s) (uio_iov u) (take (unat n) (drop i b))\<rparr>) \<and>
    uio_wf u' \<and> uio_moved u u' (min (unat n) (unat (uio_resid u)))"
proof -
  have "\<exists>u'. uiomove_loop (KPtr ob i) n u s = Done (None, u',
      case uio_rw u of
        UIO_WRITE \<Rightarrow> s\<lparr>kobj := (kobj s)(ob \<mapsto> overlay b i (take (unat n) (gathered (vmem s) u)))\<rparr>
      | UIO_READ \<Rightarrow> s\<lparr>vmem := scatter (vmem s) (uio_iov u) (take (unat n) (drop i b))\<rparr>)"
    using uiomove_loop_gather [OF assms(1,2) _ assms(4) refl assms(5-7)]
      uiomove_loop_scatter [OF assms(1,2) _ assms(4) refl assms(5-7)] by (cases "uio_rw u") auto
  then obtain u' s' where r: "uiomove_loop (KPtr ob i) n u s = Done (None, u', s')"
    "s' = (case uio_rw u of
        UIO_WRITE \<Rightarrow> s\<lparr>kobj := (kobj s)(ob \<mapsto> overlay b i (take (unat n) (gathered (vmem s) u)))\<rparr>
      | UIO_READ \<Rightarrow> s\<lparr>vmem := scatter (vmem s) (uio_iov u) (take (unat n) (drop i b))\<rparr>)" by blast
  moreover have "uiomove curas (KPtr ob i) n u s = uiomove_loop (KPtr ob i) n u s"
    using assms(2,3) by (simp add: uiomove_def)
  ultimately show ?thesis using uiomove_loop_moved [OF r(1) assms(1)] by auto
qed

theorem uiomove_scatter_gather_witness:
  "\<exists>u'. uiomove (Some 1) (KPtr 0 0) 3
      \<lparr>uio_iov = [\<lparr>iov_base = UPtr 0x10, iov_len = 2\<rparr>, \<lparr>iov_base = UPtr 0x20, iov_len = 2\<rparr>], uio_iovcnt = 2,
       uio_offset = 0, uio_resid = 4, uio_segflg = UIO_USERSPACE, uio_rw = UIO_WRITE, uio_space = Some 1\<rparr> demo_mem
     = Done (None, u', demo_mem\<lparr>kobj := (kobj demo_mem)(0 \<mapsto> [9, 9, 9, 4])\<rparr>) \<and> unat (uio_resid u') = 1"
proof -
  let ?u = "\<lparr>uio_iov = [\<lparr>iov_base = UPtr 0x10, iov_len = 2\<rparr>, \<lparr>iov_base = UPtr 0x20, iov_len = 2\<rparr>], uio_iovcnt = 2,
       uio_offset = 0, uio_resid = 4, uio_segflg = UIO_USERSPACE, uio_rw = UIO_WRITE, uio_space = Some 1\<rparr>"
  have "uio_wf ?u" by (simp add: uio_wf_def uio_total_def)
  moreover have "\<forall>v\<in>set (uio_iov ?u). block_ok (vmem demo_mem) v"
    by (simp add: block_ok_def block_addr_def demo_mem_def)
  moreover have "gathered (vmem demo_mem) ?u = [9, 9, 9, 9]"
    by (simp add: gathered_def block_bytes_def block_addr_def demo_mem_def)
  ultimately show ?thesis
    using uiomove_scatter_gather [of ?u "Some 1" demo_mem 0 "[1, 2, 3, 4]" 0 3]
    by (auto simp: demo_mem_def overlay_def uio_moved_def)
qed



end
