(* ===== verification/ThreadList.thy ===== *)
theory ThreadList
  imports Prelude
begin

text \<open>
  Thread lists (\<^verbatim>\<open>kern/thread/threadlist.c\<close>, \<^verbatim>\<open>kern/include/threadlist.h\<close>): doubly linked
  lists with two bookend nodes inside the list structure and one node inside every thread.
  The heap holds the fields of all nodes; a node is the head or tail bookend of a numbered
  list, or the \<^verbatim>\<open>t_listnode\<close> of a numbered thread.  \<^verbatim>\<open>DEBUGASSERT\<close> is compiled out.

  The operations refine those on plain lists of threads: \<open>on_list h l ts\<close> says that the
  heap represents the list \<open>ts\<close> at \<open>l\<close>.
\<close>

datatype node = HeadOf nat | TailOf nat | NodeOf nat

record tl_heap =
  tln_prev :: "node \<Rightarrow> node option"
  tln_next :: "node \<Rightarrow> node option"
  tln_self :: "node \<Rightarrow> nat option"
  tl_count :: "nat \<Rightarrow> u32"

definition set_prev :: "node option \<Rightarrow> node option \<Rightarrow> tl_heap \<Rightarrow> tl_heap outcome" where
  "set_prev p x h = obind (deref p) (\<lambda>n. Done (h\<lparr>tln_prev := (tln_prev h)(n := x)\<rparr>))"

definition set_next :: "node option \<Rightarrow> node option \<Rightarrow> tl_heap \<Rightarrow> tl_heap outcome" where
  "set_next p x h = obind (deref p) (\<lambda>n. Done (h\<lparr>tln_next := (tln_next h)(n := x)\<rparr>))"

section \<open>Operations\<close>

definition threadlistnode_init :: "node \<Rightarrow> nat option \<Rightarrow> tl_heap \<Rightarrow> tl_heap outcome" where
  "threadlistnode_init tln t h =
     obind (kassert (t \<noteq> None)) (\<lambda>_.
     Done (h\<lparr>tln_next := (tln_next h)(tln := None), tln_prev := (tln_prev h)(tln := None),
             tln_self := (tln_self h)(tln := t)\<rparr>))"

definition threadlistnode_cleanup :: "node \<Rightarrow> tl_heap \<Rightarrow> unit outcome" where
  "threadlistnode_cleanup tln h =
     obind (kassert (tln_next h tln = None)) (\<lambda>_.
     obind (kassert (tln_prev h tln = None)) (\<lambda>_.
     kassert (tln_self h tln \<noteq> None)))"

definition threadlist_init :: "nat \<Rightarrow> tl_heap \<Rightarrow> tl_heap" where
  "threadlist_init l h =
     h\<lparr>tln_next := (tln_next h)(HeadOf l := Some (TailOf l), TailOf l := None),
       tln_prev := (tln_prev h)(HeadOf l := None, TailOf l := Some (HeadOf l)),
       tln_self := (tln_self h)(HeadOf l := None, TailOf l := None),
       tl_count := (tl_count h)(l := 0)\<rparr>"

definition threadlist_isempty :: "nat \<Rightarrow> tl_heap \<Rightarrow> bool" where
  "threadlist_isempty l h \<longleftrightarrow> tl_count h l = 0"

definition threadlist_cleanup :: "nat \<Rightarrow> tl_heap \<Rightarrow> unit outcome" where
  "threadlist_cleanup l h =
     obind (kassert (threadlist_isempty l h)) (\<lambda>_. kassert (tl_count h l = 0))"

definition threadlist_insertafternode :: "node \<Rightarrow> nat \<Rightarrow> tl_heap \<Rightarrow> tl_heap outcome" where
  "threadlist_insertafternode onlist t h =
     (let addee = NodeOf t in
      obind (set_prev (Some addee) (Some onlist) h) (\<lambda>h.
      obind (set_next (Some addee) (tln_next h onlist) h) (\<lambda>h.
      obind (set_next (tln_prev h addee) (Some addee) h) (\<lambda>h.
      set_prev (tln_next h addee) (Some addee) h))))"

definition threadlist_insertbeforenode :: "nat \<Rightarrow> node \<Rightarrow> tl_heap \<Rightarrow> tl_heap outcome" where
  "threadlist_insertbeforenode t onlist h =
     (let addee = NodeOf t in
      obind (set_prev (Some addee) (tln_prev h onlist) h) (\<lambda>h.
      obind (set_next (Some addee) (Some onlist) h) (\<lambda>h.
      obind (set_next (tln_prev h addee) (Some addee) h) (\<lambda>h.
      set_prev (tln_next h addee) (Some addee) h))))"

definition threadlist_removenode :: "node \<Rightarrow> tl_heap \<Rightarrow> tl_heap outcome" where
  "threadlist_removenode tln h =
     obind (set_next (tln_prev h tln) (tln_next h tln) h) (\<lambda>h.
     obind (set_prev (tln_next h tln) (tln_prev h tln) h) (\<lambda>h.
     obind (set_prev (Some tln) None h) (\<lambda>h.
     set_next (Some tln) None h)))"

definition count_up :: "nat \<Rightarrow> tl_heap \<Rightarrow> tl_heap" where
  "count_up l h = h\<lparr>tl_count := (tl_count h)(l := tl_count h l + 1)\<rparr>"

definition count_down :: "nat \<Rightarrow> tl_heap \<Rightarrow> tl_heap" where
  "count_down l h = h\<lparr>tl_count := (tl_count h)(l := tl_count h l - 1)\<rparr>"

definition threadlist_addhead :: "nat \<Rightarrow> nat \<Rightarrow> tl_heap \<Rightarrow> tl_heap outcome" where
  "threadlist_addhead l t h =
     obind (threadlist_insertafternode (HeadOf l) t h) (\<lambda>h. Done (count_up l h))"

definition threadlist_addtail :: "nat \<Rightarrow> nat \<Rightarrow> tl_heap \<Rightarrow> tl_heap outcome" where
  "threadlist_addtail l t h =
     obind (threadlist_insertbeforenode t (TailOf l) h) (\<lambda>h. Done (count_up l h))"

definition threadlist_remhead :: "nat \<Rightarrow> tl_heap \<Rightarrow> (nat option \<times> tl_heap) outcome" where
  "threadlist_remhead l h =
     obind (deref (tln_next h (HeadOf l))) (\<lambda>tln.
     if tln_next h tln = None then Done (None, h)
     else obind (threadlist_removenode tln h) (\<lambda>h.
          let h = count_down l h in Done (tln_self h tln, h)))"

definition threadlist_remtail :: "nat \<Rightarrow> tl_heap \<Rightarrow> (nat option \<times> tl_heap) outcome" where
  "threadlist_remtail l h =
     obind (deref (tln_prev h (TailOf l))) (\<lambda>tln.
     if tln_prev h tln = None then Done (None, h)
     else obind (threadlist_removenode tln h) (\<lambda>h.
          let h = count_down l h in Done (tln_self h tln, h)))"

definition threadlist_insertafter :: "nat \<Rightarrow> nat \<Rightarrow> nat \<Rightarrow> tl_heap \<Rightarrow> tl_heap outcome" where
  "threadlist_insertafter l onlist addee h =
     obind (threadlist_insertafternode (NodeOf onlist) addee h) (\<lambda>h. Done (count_up l h))"

definition threadlist_insertbefore :: "nat \<Rightarrow> nat \<Rightarrow> nat \<Rightarrow> tl_heap \<Rightarrow> tl_heap outcome" where
  "threadlist_insertbefore l addee onlist h =
     obind (threadlist_insertbeforenode addee (NodeOf onlist) h) (\<lambda>h. Done (count_up l h))"

definition threadlist_remove :: "nat \<Rightarrow> nat \<Rightarrow> tl_heap \<Rightarrow> tl_heap outcome" where
  "threadlist_remove l t h =
     obind (threadlist_removenode (NodeOf t) h) (\<lambda>h. Done (count_down l h))"

text \<open>\<^verbatim>\<open>THREADLIST_FORALL\<close>: the threads visited, in order; the argument is the node whose
  successor is looked at next.  The walk of a broken list need not end.\<close>

partial_function (option) forall_from :: "tl_heap \<Rightarrow> node \<Rightarrow> nat list option" where
  "forall_from h n =
     (case tln_next h n of
        None \<Rightarrow> None
      | Some n' \<Rightarrow>
          (case tln_self h n' of
             None \<Rightarrow> Some []
           | Some t \<Rightarrow> Option.bind (forall_from h (NodeOf t)) (\<lambda>ts. Some (t # ts))))"

definition THREADLIST_FORALL :: "tl_heap \<Rightarrow> nat \<Rightarrow> nat list option" where
  "THREADLIST_FORALL h l = forall_from h (HeadOf l)"

section \<open>What the heap represents\<close>

fun linked :: "tl_heap \<Rightarrow> node list \<Rightarrow> bool" where
  "linked h (a # b # ns) \<longleftrightarrow> tln_next h a = Some b \<and> tln_prev h b = Some a \<and> linked h (b # ns)"
| "linked h _ \<longleftrightarrow> True"

definition node_path :: "nat \<Rightarrow> nat list \<Rightarrow> node list" where
  "node_path l ts = HeadOf l # map NodeOf ts @ [TailOf l]"

definition on_list :: "tl_heap \<Rightarrow> nat \<Rightarrow> nat list \<Rightarrow> bool" where
  "on_list h l ts \<longleftrightarrow> distinct ts \<and> linked h (node_path l ts) \<and>
     tln_prev h (HeadOf l) = None \<and> tln_next h (TailOf l) = None \<and>
     tln_self h (HeadOf l) = None \<and> tln_self h (TailOf l) = None \<and>
     (\<forall>t\<in>set ts. tln_self h (NodeOf t) = Some t) \<and> tl_count h l = of_nat (length ts)"

text \<open>A thread whose node is on no list.\<close>

definition off_list :: "tl_heap \<Rightarrow> nat \<Rightarrow> bool" where
  "off_list h t \<longleftrightarrow> tln_prev h (NodeOf t) = None \<and> tln_next h (NodeOf t) = None \<and>
     tln_self h (NodeOf t) = Some t"

lemma linked_append:
  "linked h (xs @ a # ys) \<longleftrightarrow> linked h (xs @ [a]) \<and> linked h (a # ys)"
proof (induction xs)
  case (Cons x xs)
  then show ?case by (cases xs) auto
qed simp

lemma linked_cong:
  "(\<And>a. a \<in> set (butlast ns) \<Longrightarrow> tln_next h a = tln_next h' a) \<Longrightarrow>
   (\<And>a. a \<in> set (tl ns) \<Longrightarrow> tln_prev h a = tln_prev h' a) \<Longrightarrow> linked h ns = linked h' ns"
proof (induction h ns rule: linked.induct)
  case (1 h a b ns)
  have "linked h (b # ns) = linked h' (b # ns)"
    using 1(2,3) by (intro 1(1)) (auto dest: list.set_sel(2))
  then show ?case using 1(2,3) by auto
qed auto

lemma linked_split:
  "linked h (xs @ [p, q] @ ys) \<longleftrightarrow>
     linked h (xs @ [p]) \<and> tln_next h p = Some q \<and> tln_prev h q = Some p \<and> linked h (q # ys)"
  using linked_append [of h xs p "q # ys"] by simp

lemma linked_insert:
  assumes "linked h (xs @ [p, q] @ ys)" "distinct (xs @ [p, q] @ ys)" "n \<notin> set (xs @ [p, q] @ ys)"
    and next_eq: "tln_next h' = (tln_next h)(n := Some q, p := Some n)"
    and prev_eq: "tln_prev h' = (tln_prev h)(n := Some p, q := Some n)"
  shows "linked h' (xs @ [p, n, q] @ ys)"
proof -
  have l: "linked h (xs @ [p])" "linked h (q # ys)" using assms(1) by (simp_all only: linked_split)
  have "linked h' (xs @ [p]) = linked h (xs @ [p])"
    using assms(2,3) by (intro linked_cong) (auto simp: next_eq prev_eq fun_upd_apply dest: list.set_sel(2) [rotated])
  moreover have "linked h' (q # ys) = linked h (q # ys)"
    using assms(2,3) by (intro linked_cong) (auto simp: next_eq prev_eq fun_upd_apply dest: in_set_butlastD split: if_splits)
  moreover have "linked h' [p, n, q]" using assms(2,3) by (auto simp: next_eq prev_eq fun_upd_apply)
  ultimately show ?thesis using l
    by (simp add: linked_append [of h' xs p "n # q # ys"])
qed

lemma linked_remove:
  assumes "linked h (xs @ [p, n, q] @ ys)" "distinct (xs @ [p, n, q] @ ys)"
    and next_eq: "tln_next h' = (tln_next h)(p := Some q, n := None)"
    and prev_eq: "tln_prev h' = (tln_prev h)(q := Some p, n := None)"
  shows "linked h' (xs @ [p, q] @ ys)"
proof -
  have l: "linked h (xs @ [p])" "linked h (q # ys)"
    using assms(1) linked_append [of h xs p "n # q # ys"] by simp_all
  have "linked h' (xs @ [p]) = linked h (xs @ [p])"
    using assms(2) by (intro linked_cong) (auto simp: next_eq prev_eq fun_upd_apply dest: list.set_sel(2) [rotated])
  moreover have "linked h' (q # ys) = linked h (q # ys)"
    using assms(2) by (intro linked_cong) (auto simp: next_eq prev_eq fun_upd_apply dest: in_set_butlastD split: if_splits)
  moreover have "linked h' [p, q]" using assms(2) by (auto simp: next_eq prev_eq fun_upd_apply)
  ultimately show ?thesis using l by (simp add: linked_append [of h' xs p "q # ys"])
qed

text \<open>The two ends of a gap in a list.\<close>

definition gap_left :: "nat \<Rightarrow> nat list \<Rightarrow> node" where
  "gap_left l xs = (if xs = [] then HeadOf l else NodeOf (last xs))"

definition gap_right :: "nat \<Rightarrow> nat list \<Rightarrow> node" where
  "gap_right l ys = (if ys = [] then TailOf l else NodeOf (hd ys))"

lemma node_path_gap:
  "\<exists>us vs. HeadOf l # map NodeOf xs = us @ [gap_left l xs] \<and>
     map NodeOf ys @ [TailOf l] = gap_right l ys # vs"
proof -
  have "HeadOf l # map NodeOf xs = butlast (HeadOf l # map NodeOf xs) @ [gap_left l xs]"
    by (cases xs rule: rev_cases) (simp_all add: gap_left_def)
  moreover have "map NodeOf ys @ [TailOf l] = gap_right l ys # tl (map NodeOf ys @ [TailOf l])"
    by (cases ys) (simp_all add: gap_right_def)
  ultimately show ?thesis by blast
qed

lemma node_path_distinct: "distinct ts \<Longrightarrow> distinct (node_path l ts)"
  by (auto simp: node_path_def distinct_map inj_on_def)

lemma node_path_mem: "NodeOf t \<in> set (node_path l ts) \<longleftrightarrow> t \<in> set ts"
  by (auto simp: node_path_def)

lemma on_list_gap:
  assumes "on_list h l (xs @ ys)"
  shows "tln_next h (gap_left l xs) = Some (gap_right l ys)" "tln_prev h (gap_right l ys) = Some (gap_left l xs)"
proof -
  obtain us vs where "HeadOf l # map NodeOf xs = us @ [gap_left l xs]"
    "map NodeOf ys @ [TailOf l] = gap_right l ys # vs" using node_path_gap by blast
  then have "node_path l (xs @ ys) = us @ [gap_left l xs, gap_right l ys] @ vs"
    by (simp add: node_path_def)
  then show "tln_next h (gap_left l xs) = Some (gap_right l ys)" "tln_prev h (gap_right l ys) = Some (gap_left l xs)"
    using assms linked_split by (metis on_list_def)+
qed

lemma on_list_insert:
  assumes "on_list h l (xs @ ys)" "t \<notin> set (xs @ ys)" "tln_self h (NodeOf t) = Some t"
    and h': "h' = h\<lparr>tln_next := (tln_next h)(NodeOf t := Some (gap_right l ys), gap_left l xs := Some (NodeOf t)),
             tln_prev := (tln_prev h)(NodeOf t := Some (gap_left l xs), gap_right l ys := Some (NodeOf t)),
             tl_count := (tl_count h)(l := tl_count h l + 1)\<rparr>"
  shows "on_list h' l (xs @ t # ys)"
proof -
  obtain us vs where g: "HeadOf l # map NodeOf xs = us @ [gap_left l xs]"
    "map NodeOf ys @ [TailOf l] = gap_right l ys # vs" using node_path_gap by blast
  then have p: "node_path l (xs @ ys) = us @ [gap_left l xs, gap_right l ys] @ vs"
    and p': "node_path l (xs @ t # ys) = us @ [gap_left l xs, NodeOf t, gap_right l ys] @ vs"
    by (simp_all add: node_path_def)
  have d: "distinct (node_path l (xs @ ys))" using assms(1) node_path_distinct by (simp add: on_list_def)
  have "NodeOf t \<notin> set (node_path l (xs @ ys))" using assms(2) node_path_mem by simp
  then have "linked h' (node_path l (xs @ t # ys))"
    using assms(1) d unfolding p p' on_list_def by (intro linked_insert [of h]) (simp_all add: h')
  moreover have "gap_right l ys \<noteq> HeadOf l" "gap_left l xs \<noteq> TailOf l"
    by (simp_all add: gap_right_def gap_left_def)
  ultimately show ?thesis using assms(1-3) by (auto simp: on_list_def h')
qed

lemma on_list_remove:
  assumes "on_list h l (xs @ t # ys)"
    and h': "h' = h\<lparr>tln_next := (tln_next h)(gap_left l xs := Some (gap_right l ys), NodeOf t := None),
             tln_prev := (tln_prev h)(gap_right l ys := Some (gap_left l xs), NodeOf t := None),
             tl_count := (tl_count h)(l := tl_count h l - 1)\<rparr>"
  shows "on_list h' l (xs @ ys) \<and> off_list h' t"
proof -
  obtain us vs where g: "HeadOf l # map NodeOf xs = us @ [gap_left l xs]"
    "map NodeOf ys @ [TailOf l] = gap_right l ys # vs" using node_path_gap by blast
  then have p: "node_path l (xs @ ys) = us @ [gap_left l xs, gap_right l ys] @ vs"
    and p': "node_path l (xs @ t # ys) = us @ [gap_left l xs, NodeOf t, gap_right l ys] @ vs"
    by (simp_all add: node_path_def)
  have d: "distinct (node_path l (xs @ t # ys))" using assms(1) by (intro node_path_distinct) (simp add: on_list_def)
  have "linked h' (node_path l (xs @ ys))"
    using assms(1) d unfolding p p' on_list_def by (intro linked_remove [of h]) (simp_all add: h')
  moreover have "gap_right l ys \<noteq> HeadOf l" "gap_left l xs \<noteq> TailOf l"
    by (simp_all add: gap_right_def gap_left_def)
  ultimately show ?thesis using assms(1) by (auto simp: on_list_def off_list_def h')
qed

section \<open>The operations on represented lists\<close>

lemma insertafternode_eq:
  assumes "tln_next h p = Some q" "p \<noteq> NodeOf t"
  shows "threadlist_insertafternode p t h =
    Done (h\<lparr>tln_next := (tln_next h)(NodeOf t := Some q, p := Some (NodeOf t)),
            tln_prev := (tln_prev h)(NodeOf t := Some p, q := Some (NodeOf t))\<rparr>)"
  using assms by (simp add: threadlist_insertafternode_def set_prev_def set_next_def Let_def)

lemma insertbeforenode_eq:
  assumes "tln_prev h q = Some p" "p \<noteq> NodeOf t"
  shows "threadlist_insertbeforenode t q h =
    Done (h\<lparr>tln_next := (tln_next h)(NodeOf t := Some q, p := Some (NodeOf t)),
            tln_prev := (tln_prev h)(NodeOf t := Some p, q := Some (NodeOf t))\<rparr>)"
  using assms by (simp add: threadlist_insertbeforenode_def set_prev_def set_next_def Let_def)

lemma removenode_eq:
  assumes "tln_next h n = Some q" "tln_prev h n = Some p" "p \<noteq> n" "q \<noteq> n"
  shows "threadlist_removenode n h =
    Done (h\<lparr>tln_next := (tln_next h)(p := Some q, n := None),
            tln_prev := (tln_prev h)(q := Some p, n := None)\<rparr>)"
  using assms by (simp add: threadlist_removenode_def set_prev_def set_next_def)

text \<open>Everything outside one list and the threads on it is left alone.\<close>

definition tl_frame :: "tl_heap \<Rightarrow> tl_heap \<Rightarrow> nat \<Rightarrow> nat set \<Rightarrow> bool" where
  "tl_frame h h' l T \<longleftrightarrow>
     (\<forall>n. n \<noteq> HeadOf l \<longrightarrow> n \<noteq> TailOf l \<longrightarrow> n \<notin> NodeOf ` T \<longrightarrow>
        tln_next h' n = tln_next h n \<and> tln_prev h' n = tln_prev h n) \<and>
     tln_self h' = tln_self h \<and> (\<forall>k. k \<noteq> l \<longrightarrow> tl_count h' k = tl_count h k)"

lemma tl_frame_on_list:
  assumes "tl_frame h h' l T" "k \<noteq> l" "set zs \<inter> T = {}" "on_list h k zs"
  shows "on_list h' k zs"
proof -
  have n: "tln_next h' n = tln_next h n \<and> tln_prev h' n = tln_prev h n" if "n \<in> set (node_path k zs)" for n
    using assms(1-3) that unfolding tl_frame_def by (auto simp: node_path_def)
  have "linked h' (node_path k zs) = linked h (node_path k zs)"
    using n by (intro linked_cong) (auto simp: node_path_def dest!: in_set_butlastD list.set_sel(2) [rotated])
  moreover have "HeadOf k \<in> set (node_path k zs)" "TailOf k \<in> set (node_path k zs)"
    by (simp_all add: node_path_def)
  ultimately show ?thesis using assms(1,2,4) n by (auto simp: on_list_def tl_frame_def)
qed

lemma tl_frame_off_list:
  "tl_frame h h' l T \<Longrightarrow> u \<notin> T \<Longrightarrow> off_list h u \<Longrightarrow> off_list h' u"
  unfolding tl_frame_def off_list_def by (auto simp: image_iff)

lemma gap_right_in: "gap_right l ys \<in> insert (TailOf l) (NodeOf ` set ys)"
  by (cases ys) (simp_all add: gap_right_def)

lemma gap_left_in: "gap_left l xs \<in> insert (HeadOf l) (NodeOf ` set xs)"
  by (cases xs rule: rev_cases) (simp_all add: gap_left_def)

lemma insert_in_gap:
  assumes "on_list h l (xs @ ys)" "off_list h t" "t \<notin> set (xs @ ys)"
  shows "\<exists>h'. obind (threadlist_insertafternode (gap_left l xs) t h) (\<lambda>h. Done (count_up l h)) = Done h' \<and>
     obind (threadlist_insertbeforenode t (gap_right l ys) h) (\<lambda>h. Done (count_up l h)) = Done h' \<and>
     on_list h' l (xs @ t # ys) \<and> tl_frame h h' l (set (xs @ t # ys))"
proof -
  have ne: "gap_left l xs \<noteq> NodeOf t" using assms(3) gap_left_in [of l xs] by auto
  have "tln_self h (NodeOf t) = Some t" using assms(2) by (simp add: off_list_def)
  note ins = on_list_insert [OF assms(1,3) this]
  have fr: "tl_frame h (h\<lparr>tln_next := (tln_next h)(NodeOf t := Some (gap_right l ys), gap_left l xs := Some (NodeOf t)),
             tln_prev := (tln_prev h)(NodeOf t := Some (gap_left l xs), gap_right l ys := Some (NodeOf t)),
             tl_count := (tl_count h)(l := tl_count h l + 1)\<rparr>) l (set (xs @ t # ys))"
    using gap_left_in [of l xs] gap_right_in [of l ys] by (auto simp: tl_frame_def fun_upd_apply)
  show ?thesis
    using ins [OF refl] fr insertafternode_eq [OF on_list_gap(1) [OF assms(1)] ne]
      insertbeforenode_eq [OF on_list_gap(2) [OF assms(1)] ne]
    by (intro exI conjI) (auto simp: count_up_def)
qed

lemma remove_in_gap:
  assumes "on_list h l (xs @ t # ys)"
  shows "\<exists>h'. obind (threadlist_removenode (NodeOf t) h) (\<lambda>h. Done (count_down l h)) = Done h' \<and>
     on_list h' l (xs @ ys) \<and> off_list h' t \<and> tln_self h' (NodeOf t) = Some t \<and>
     tl_frame h h' l (set (xs @ t # ys))"
proof -
  have d: "distinct (xs @ t # ys)" using assms by (simp add: on_list_def)
  have g: "gap_right l (t # ys) = NodeOf t" "gap_left l (xs @ [t]) = NodeOf t"
    by (simp_all add: gap_right_def gap_left_def)
  have "tln_prev h (NodeOf t) = Some (gap_left l xs)" using on_list_gap(2) [OF assms] g by simp
  moreover have "tln_next h (NodeOf t) = Some (gap_right l ys)"
    using on_list_gap(1) [of h l "xs @ [t]" ys] assms g by simp
  moreover have "gap_left l xs \<noteq> NodeOf t" "gap_right l ys \<noteq> NodeOf t"
    using d gap_left_in [of l xs] gap_right_in [of l ys] by auto
  ultimately have rm: "threadlist_removenode (NodeOf t) h =
      Done (h\<lparr>tln_next := (tln_next h)(gap_left l xs := Some (gap_right l ys), NodeOf t := None),
              tln_prev := (tln_prev h)(gap_right l ys := Some (gap_left l xs), NodeOf t := None)\<rparr>)"
    by (simp add: removenode_eq)
  let ?h = "h\<lparr>tln_next := (tln_next h)(gap_left l xs := Some (gap_right l ys), NodeOf t := None),
             tln_prev := (tln_prev h)(gap_right l ys := Some (gap_left l xs), NodeOf t := None),
             tl_count := (tl_count h)(l := tl_count h l - 1)\<rparr>"
  have "tl_frame h ?h l (set (xs @ t # ys))"
    using gap_left_in [of l xs] gap_right_in [of l ys] by (auto simp: tl_frame_def fun_upd_apply)
  then show ?thesis using on_list_remove [OF assms refl] rm
    by (intro exI [of _ ?h]) (auto simp: count_down_def off_list_def)
qed

lemma addhead_spec:
  assumes "on_list h l ts" "off_list h t" "t \<notin> set ts"
  shows "\<exists>h'. threadlist_addhead l t h = Done h' \<and> on_list h' l (t # ts) \<and> tl_frame h h' l (set (t # ts))"
  using insert_in_gap [of h l "[]" ts t] assms by (auto simp: threadlist_addhead_def gap_left_def)

lemma addtail_spec:
  assumes "on_list h l ts" "off_list h t" "t \<notin> set ts"
  shows "\<exists>h'. threadlist_addtail l t h = Done h' \<and> on_list h' l (ts @ [t]) \<and> tl_frame h h' l (set (ts @ [t]))"
  using insert_in_gap [of h l ts "[]" t] assms by (auto simp: threadlist_addtail_def gap_right_def)

lemma insertafter_spec:
  assumes "on_list h l (xs @ a # ys)" "off_list h t" "t \<notin> set (xs @ a # ys)"
  shows "\<exists>h'. threadlist_insertafter l a t h = Done h' \<and> on_list h' l (xs @ a # t # ys) \<and>
    tl_frame h h' l (set (xs @ a # t # ys))"
  using insert_in_gap [of h l "xs @ [a]" ys t] assms
  by (auto simp: threadlist_insertafter_def gap_left_def)

lemma insertbefore_spec:
  assumes "on_list h l (xs @ a # ys)" "off_list h t" "t \<notin> set (xs @ a # ys)"
  shows "\<exists>h'. threadlist_insertbefore l t a h = Done h' \<and> on_list h' l (xs @ t # a # ys) \<and>
    tl_frame h h' l (set (xs @ t # a # ys))"
  using insert_in_gap [of h l xs "a # ys" t] assms
  by (auto simp: threadlist_insertbefore_def gap_right_def)

lemma remove_spec:
  assumes "on_list h l (xs @ t # ys)"
  shows "\<exists>h'. threadlist_remove l t h = Done h' \<and> on_list h' l (xs @ ys) \<and> off_list h' t \<and>
    tl_frame h h' l (set (xs @ t # ys))"
  using remove_in_gap [OF assms] by (auto simp: threadlist_remove_def)

lemma remhead_empty: "on_list h l [] \<Longrightarrow> threadlist_remhead l h = Done (None, h)"
  by (auto simp: threadlist_remhead_def on_list_def node_path_def)

lemma remtail_empty: "on_list h l [] \<Longrightarrow> threadlist_remtail l h = Done (None, h)"
  by (auto simp: threadlist_remtail_def on_list_def node_path_def)

lemma remhead_spec:
  assumes "on_list h l (t # ts)"
  shows "\<exists>h'. threadlist_remhead l h = Done (Some t, h') \<and> on_list h' l ts \<and> off_list h' t \<and>
    tl_frame h h' l (set (t # ts))"
proof -
  have n: "tln_next h (HeadOf l) = Some (NodeOf t)" "tln_next h (NodeOf t) \<noteq> None"
    using on_list_gap(1) [of h l "[]" "t # ts"] on_list_gap(1) [of h l "[t]" ts] assms
    by (simp_all add: gap_left_def gap_right_def)
  obtain h' where h': "obind (threadlist_removenode (NodeOf t) h) (\<lambda>h. Done (count_down l h)) = Done h'"
    "on_list h' l ts" "off_list h' t" "tln_self h' (NodeOf t) = Some t" "tl_frame h h' l (set (t # ts))"
    using remove_in_gap [of h l "[]" t ts] assms by auto
  obtain h1 where "threadlist_removenode (NodeOf t) h = Done h1" "count_down l h1 = h'"
    using h'(1) by (auto simp: obind_Done_iff)
  then have "threadlist_remhead l h = Done (Some t, h')"
    using n h'(4) by (simp add: threadlist_remhead_def Let_def)
  then show ?thesis using h' by blast
qed

lemma remtail_spec:
  assumes "on_list h l (ts @ [t])"
  shows "\<exists>h'. threadlist_remtail l h = Done (Some t, h') \<and> on_list h' l ts \<and> off_list h' t \<and>
    tl_frame h h' l (set (ts @ [t]))"
proof -
  have n: "tln_prev h (TailOf l) = Some (NodeOf t)" "tln_prev h (NodeOf t) \<noteq> None"
    using on_list_gap(2) [of h l "ts @ [t]" "[]"] on_list_gap(2) [of h l ts "[t]"] assms
    by (simp_all add: gap_left_def gap_right_def)
  obtain h' where h': "obind (threadlist_removenode (NodeOf t) h) (\<lambda>h. Done (count_down l h)) = Done h'"
    "on_list h' l ts" "off_list h' t" "tln_self h' (NodeOf t) = Some t" "tl_frame h h' l (set (ts @ [t]))"
    using remove_in_gap [of h l ts t "[]"] assms by auto
  obtain h1 where "threadlist_removenode (NodeOf t) h = Done h1" "count_down l h1 = h'"
    using h'(1) by (auto simp: obind_Done_iff)
  then have "threadlist_remtail l h = Done (Some t, h')"
    using n h'(4) by (simp add: threadlist_remtail_def Let_def)
  then show ?thesis using h' by blast
qed

lemma init_spec: "on_list (threadlist_init l h) l []"
  by (simp add: on_list_def threadlist_init_def node_path_def)

lemma nodeinit_spec:
  "\<exists>h'. threadlistnode_init (NodeOf t) (Some t) h = Done h' \<and> off_list h' t"
  by (simp add: threadlistnode_init_def off_list_def)

lemma isempty_spec:
  assumes "on_list h l ts" "length ts < 2 ^ 32"
  shows "threadlist_isempty l h \<longleftrightarrow> ts = []"
proof -
  have "unat (tl_count h l) = length ts" using assms by (simp add: on_list_def unat_of_nat_small)
  then show ?thesis by (auto simp: threadlist_isempty_def unat_eq_zero [symmetric])
qed

lemma forall_from_spec:
  "on_list h l (xs @ ys) \<Longrightarrow> forall_from h (gap_left l xs) = Some ys"
proof (induction ys arbitrary: xs)
  case Nil
  then have "tln_next h (gap_left l xs) = Some (TailOf l)" "tln_self h (TailOf l) = None"
    using on_list_gap(1) [of h l xs "[]"] by (auto simp: gap_right_def on_list_def)
  then show ?case by (subst forall_from.simps) simp
next
  case (Cons t ys)
  have "tln_next h (gap_left l xs) = Some (NodeOf t)" "tln_self h (NodeOf t) = Some t"
    using Cons.prems on_list_gap(1) [of h l xs "t # ys"] by (auto simp: gap_right_def on_list_def)
  moreover have "forall_from h (NodeOf t) = Some ys"
    using Cons.IH [of "xs @ [t]"] Cons.prems by (simp add: gap_left_def)
  ultimately show ?case by (subst forall_from.simps) simp
qed

section \<open>The contract of a thread queue\<close>

locale thread_queue =
  fixes holds :: "'h \<Rightarrow> nat \<Rightarrow> nat list \<Rightarrow> bool"
    and loose :: "'h \<Rightarrow> nat \<Rightarrow> bool"
    and addtail :: "nat \<Rightarrow> nat \<Rightarrow> 'h \<Rightarrow> 'h outcome"
    and remhead :: "nat \<Rightarrow> 'h \<Rightarrow> (nat option \<times> 'h) outcome"
  assumes holds_distinct: "holds h l ts \<Longrightarrow> distinct ts"
    and addtail_law: "holds h l ts \<Longrightarrow> loose h t \<Longrightarrow> t \<notin> set ts \<Longrightarrow>
      \<exists>h'. addtail l t h = Done h' \<and> holds h' l (ts @ [t]) \<and>
        (\<forall>k zs. k \<noteq> l \<longrightarrow> set zs \<inter> set (t # ts) = {} \<longrightarrow> holds h k zs \<longrightarrow> holds h' k zs) \<and>
        (\<forall>u. u \<notin> set (t # ts) \<longrightarrow> loose h u \<longrightarrow> loose h' u)"
    and remhead_law: "holds h l (t # ts) \<Longrightarrow>
      \<exists>h'. remhead l h = Done (Some t, h') \<and> holds h' l ts \<and> loose h' t \<and>
        (\<forall>k zs. k \<noteq> l \<longrightarrow> set zs \<inter> set (t # ts) = {} \<longrightarrow> holds h k zs \<longrightarrow> holds h' k zs) \<and>
        (\<forall>u. u \<notin> set (t # ts) \<longrightarrow> loose h u \<longrightarrow> loose h' u)"
    and remhead_none: "holds h l [] \<Longrightarrow> remhead l h = Done (None, h)"
begin

text \<open>The oldest thread of one queue handed to another, as a wakeup does.\<close>

lemma transfer:
  assumes "holds h l (t # ts)" "holds h k us" "l \<noteq> k" "set us \<inter> set (t # ts) = {}"
  shows "\<exists>h1 h2. remhead l h = Done (Some t, h1) \<and> addtail k t h1 = Done h2 \<and>
    holds h2 l ts \<and> holds h2 k (us @ [t])"
proof -
  obtain h1 where h1: "remhead l h = Done (Some t, h1)" "holds h1 l ts" "loose h1 t" "holds h1 k us"
    using remhead_law [OF assms(1)] assms(2-4) by metis
  have t: "t \<notin> set us" "t \<notin> set ts" using assms(4) holds_distinct [OF assms(1)] by auto
  moreover have "set ts \<inter> set (t # us) = {}" using assms(4) t by auto
  ultimately obtain h2 where "addtail k t h1 = Done h2" "holds h2 k (us @ [t])" "holds h2 l ts"
    using addtail_law [OF h1(4,3)] h1(2) assms(3) by metis
  then show ?thesis using h1(1) by blast
qed

text \<open>First in, first out: after an arrival the head is still the oldest thread.\<close>

lemma fifo:
  assumes "holds h l (t # ts)" "loose h u" "u \<notin> set (t # ts)"
  shows "\<exists>h1 h2. addtail l u h = Done h1 \<and> remhead l h1 = Done (Some t, h2) \<and> holds h2 l (ts @ [u])"
proof -
  obtain h1 where "addtail l u h = Done h1" "holds h1 l (t # ts @ [u])"
    using addtail_law [OF assms] by auto
  then show ?thesis using remhead_law by blast
qed

end

interpretation tlq: thread_queue on_list off_list threadlist_addtail threadlist_remhead
proof
  fix h l ts t
  assume "on_list h l ts" "off_list h t" "t \<notin> set ts"
  then obtain h' where "threadlist_addtail l t h = Done h'" "on_list h' l (ts @ [t])"
    "tl_frame h h' l (set (ts @ [t]))" using addtail_spec by blast
  then show "\<exists>h'. threadlist_addtail l t h = Done h' \<and> on_list h' l (ts @ [t]) \<and>
        (\<forall>k zs. k \<noteq> l \<longrightarrow> set zs \<inter> set (t # ts) = {} \<longrightarrow> on_list h k zs \<longrightarrow> on_list h' k zs) \<and>
        (\<forall>u. u \<notin> set (t # ts) \<longrightarrow> off_list h u \<longrightarrow> off_list h' u)"
    using tl_frame_on_list tl_frame_off_list by auto
next
  fix h l t ts
  assume "on_list h l (t # ts)"
  then obtain h' where "threadlist_remhead l h = Done (Some t, h')" "on_list h' l ts" "off_list h' t"
    "tl_frame h h' l (set (t # ts))" using remhead_spec by blast
  then show "\<exists>h'. threadlist_remhead l h = Done (Some t, h') \<and> on_list h' l ts \<and> off_list h' t \<and>
        (\<forall>k zs. k \<noteq> l \<longrightarrow> set zs \<inter> set (t # ts) = {} \<longrightarrow> on_list h k zs \<longrightarrow> on_list h' k zs) \<and>
        (\<forall>u. u \<notin> set (t # ts) \<longrightarrow> off_list h u \<longrightarrow> off_list h' u)"
    using tl_frame_on_list tl_frame_off_list by auto
qed (auto simp: on_list_def intro: remhead_empty)

section \<open>Properties\<close>

lemma forall_spec: "on_list h l ts \<Longrightarrow> THREADLIST_FORALL h l = Some ts"
  using forall_from_spec [of h l "[]" ts] by (simp add: THREADLIST_FORALL_def gap_left_def)

text \<open>C31.  The linked lists of threads implement lists: adding at either end, taking from either
  end, removing from the middle and walking the list do what they do on a plain list, and no
  operation disturbs another list that shares no thread with it.\<close>

theorem threadlist_refines_list:
  assumes "on_list h l ts"
  shows "THREADLIST_FORALL h l = Some ts \<and>
    (off_list h t \<and> t \<notin> set ts \<longrightarrow>
      (\<exists>h1. threadlist_addtail l t h = Done h1 \<and> on_list h1 l (ts @ [t]) \<and> tl_frame h h1 l (insert t (set ts))) \<and>
      (\<exists>h2. threadlist_addhead l t h = Done h2 \<and> on_list h2 l (t # ts) \<and> tl_frame h h2 l (insert t (set ts)))) \<and>
    (ts = [] \<longrightarrow> threadlist_remhead l h = Done (None, h) \<and> threadlist_remtail l h = Done (None, h)) \<and>
    (ts \<noteq> [] \<longrightarrow>
      (\<exists>h3. threadlist_remhead l h = Done (Some (hd ts), h3) \<and> on_list h3 l (tl ts) \<and> off_list h3 (hd ts) \<and>
        tl_frame h h3 l (set ts)) \<and>
      (\<exists>h4. threadlist_remtail l h = Done (Some (last ts), h4) \<and> on_list h4 l (butlast ts) \<and> off_list h4 (last ts) \<and>
        tl_frame h h4 l (set ts))) \<and>
    (t \<in> set ts \<longrightarrow> (\<exists>h5. threadlist_remove l t h = Done h5 \<and> on_list h5 l (remove1 t ts) \<and> off_list h5 t \<and>
        tl_frame h h5 l (set ts)))"
proof (intro conjI impI)
  show "THREADLIST_FORALL h l = Some ts" using forall_spec [OF assms] .
  show "\<exists>h1. threadlist_addtail l t h = Done h1 \<and> on_list h1 l (ts @ [t]) \<and> tl_frame h h1 l (insert t (set ts))"
    "\<exists>h2. threadlist_addhead l t h = Done h2 \<and> on_list h2 l (t # ts) \<and> tl_frame h h2 l (insert t (set ts))"
    if "off_list h t \<and> t \<notin> set ts"
    using addtail_spec [OF assms, of t] addhead_spec [OF assms, of t] that by auto
  show "threadlist_remhead l h = Done (None, h)" "threadlist_remtail l h = Done (None, h)" if "ts = []"
    using assms that remhead_empty remtail_empty by blast+
  show "\<exists>h3. threadlist_remhead l h = Done (Some (hd ts), h3) \<and> on_list h3 l (tl ts) \<and> off_list h3 (hd ts) \<and>
      tl_frame h h3 l (set ts)" if "ts \<noteq> []"
    using remhead_spec [of h l "hd ts" "tl ts"] assms that by (metis list.collapse)
  show "\<exists>h4. threadlist_remtail l h = Done (Some (last ts), h4) \<and> on_list h4 l (butlast ts) \<and> off_list h4 (last ts) \<and>
      tl_frame h h4 l (set ts)" if "ts \<noteq> []"
    using remtail_spec [of h l "butlast ts" "last ts"] assms that by (metis append_butlast_last_id)
  show "\<exists>h5. threadlist_remove l t h = Done h5 \<and> on_list h5 l (remove1 t ts) \<and> off_list h5 t \<and>
      tl_frame h h5 l (set ts)" if "t \<in> set ts"
  proof -
    obtain xs ys where ts: "ts = xs @ t # ys" "t \<notin> set xs" using split_list_first [OF \<open>t \<in> set ts\<close>] by blast
    then show ?thesis using remove_spec [of h l xs t ys] assms by (simp add: remove1_append)
  qed
qed

theorem threadlist_refines_list_witness:
  "\<exists>h. on_list h 0 [4] \<and> THREADLIST_FORALL h 0 = Some [4]"
proof -
  let ?h = "\<lparr>tln_prev = (\<lambda>_. None), tln_next = (\<lambda>_. None), tln_self = (\<lambda>_. None), tl_count = (\<lambda>_. 0)\<rparr>"
  obtain h0 where h0: "threadlistnode_init (NodeOf 4) (Some 4) (threadlist_init 0 ?h) = Done h0" "off_list h0 4"
    using nodeinit_spec by blast
  have "on_list h0 0 []" using h0(1)
    by (auto simp: threadlistnode_init_def threadlist_init_def on_list_def node_path_def)
  then obtain h1 where "on_list h1 0 [4]" using addtail_spec [of h0 0 "[]" 4] h0(2) by auto
  then show ?thesis using threadlist_refines_list [of h1 0 "[4]"] by blast
qed

text \<open>A thread handed from one queue to another, as a wakeup hands a sleeper to a run queue,
  leaves the first queue's head and arrives at the second queue's tail, with the rest of both
  queues intact.\<close>

theorem threadlist_transfer:
  assumes "on_list h l (t # ts)" "on_list h k us" "l \<noteq> k" "set us \<inter> set (t # ts) = {}"
  shows "\<exists>h1 h2. threadlist_remhead l h = Done (Some t, h1) \<and> threadlist_addtail k t h1 = Done h2 \<and>
    on_list h2 l ts \<and> on_list h2 k (us @ [t])"
  using tlq.transfer [OF assms] .

theorem threadlist_transfer_witness:
  "\<exists>h h1 h2. threadlist_remhead 0 h = Done (Some 4, h1) \<and> threadlist_addtail 1 4 h1 = Done h2 \<and> on_list h2 1 [4]"
proof -
  let ?h = "\<lparr>tln_prev = (\<lambda>_. None), tln_next = (\<lambda>_. None), tln_self = (\<lambda>_. None), tl_count = (\<lambda>_. 0)\<rparr>"
  obtain h0 where h0: "threadlistnode_init (NodeOf 4) (Some 4) (threadlist_init 1 (threadlist_init 0 ?h)) = Done h0"
    "off_list h0 4" using nodeinit_spec by blast
  have e: "on_list h0 0 []" "on_list h0 1 []" using h0(1)
    by (auto simp: threadlistnode_init_def threadlist_init_def on_list_def node_path_def)
  then obtain h1 where h1: "on_list h1 0 [4]" "tl_frame h0 h1 0 {4}" using addtail_spec [of h0 0 "[]" 4] h0(2) by auto
  have "on_list h1 1 []" using tl_frame_on_list [OF h1(2) _ _ e(2)] by simp
  then show ?thesis using threadlist_transfer [of h1 0 4 "[]" 1 "[]"] h1(1) by auto
qed

end
