(* ===== verification/Spl.thy ===== *)
theory Spl
  imports Prelude
begin

text \<open>
  Interrupt priority levels (\<^verbatim>\<open>kern/thread/spl.c\<close>) and spinlocks
  (\<^verbatim>\<open>kern/thread/spinlock.c\<close>).

  \<open>cpu_ctx\<close> is what these routines see of the running processor: whether \<^verbatim>\<open>curcpu\<close> exists,
  its identity, the hardware interrupt flag, and the counters of the current thread and
  cpu.  A spinlock that another processor holds makes the caller spin: that is
  \<open>Stop Blocked\<close> in the sequential functions, and explicit steps in the relation
  \<open>spin_step\<close>, where the processors interleave at every access to the lock word.
\<close>

record cpu_ctx =
  curcpu_exists :: bool
  c_self :: nat
  irq_on :: bool
  t_iplhigh_count :: int
  t_curspl :: int
  c_spinlocks :: u32

definition IPL_NONE :: int where "IPL_NONE = 0"
definition IPL_HIGH :: int where "IPL_HIGH = 1"

section \<open>Priority levels\<close>

definition splraise :: "int \<Rightarrow> int \<Rightarrow> cpu_ctx \<Rightarrow> cpu_ctx outcome" where
  "splraise oldspl newspl c =
     obind (kassert (oldspl = IPL_NONE)) (\<lambda>_.
     obind (kassert (newspl = IPL_HIGH)) (\<lambda>_.
     if \<not> curcpu_exists c then Done c
     else Done (c\<lparr>irq_on := (if t_iplhigh_count c = 0 then False else irq_on c),
                  t_iplhigh_count := t_iplhigh_count c + 1\<rparr>)))"

definition spllower :: "int \<Rightarrow> int \<Rightarrow> cpu_ctx \<Rightarrow> cpu_ctx outcome" where
  "spllower oldspl newspl c =
     obind (kassert (oldspl = IPL_HIGH)) (\<lambda>_.
     obind (kassert (newspl = IPL_NONE)) (\<lambda>_.
     if \<not> curcpu_exists c then Done c
     else let n = t_iplhigh_count c - 1 in
       Done (c\<lparr>t_iplhigh_count := n, irq_on := (if n = 0 then True else irq_on c)\<rparr>)))"

definition splx :: "int \<Rightarrow> cpu_ctx \<Rightarrow> (int \<times> cpu_ctx) outcome" where
  "splx spl c =
     (if \<not> curcpu_exists c then Done (spl, c)
      else if t_curspl c < spl then
        obind (splraise (t_curspl c) spl c) (\<lambda>c. Done (t_curspl c, c\<lparr>t_curspl := spl\<rparr>))
      else if t_curspl c > spl then
        (let ret = t_curspl c in
         obind (spllower ret spl (c\<lparr>t_curspl := spl\<rparr>)) (\<lambda>c. Done (ret, c)))
      else Done (spl, c))"

definition spl0 :: "cpu_ctx \<Rightarrow> (int \<times> cpu_ctx) outcome" where
  "spl0 = splx IPL_NONE"

definition splhigh :: "cpu_ctx \<Rightarrow> (int \<times> cpu_ctx) outcome" where
  "splhigh = splx IPL_HIGH"

section \<open>Spinlocks\<close>

record spinlock =
  splk_lock :: u32
  splk_holder :: "nat option"

definition spinlock_init :: spinlock where
  "spinlock_init = \<lparr>splk_lock = 0, splk_holder = None\<rparr>"

definition spinlock_cleanup :: "spinlock \<Rightarrow> unit outcome" where
  "spinlock_cleanup splk =
     obind (kassert (splk_holder splk = None)) (\<lambda>_. kassert (splk_lock splk = 0))"

text \<open>The value returned and the lock word afterwards.  \<open>sc\<close> says whether the store conditional
  went through; when it did not, the routine pretends that the lock was held.\<close>

definition spinlock_data_testandset :: "bool \<Rightarrow> u32 \<Rightarrow> u32 \<times> u32" where
  "spinlock_data_testandset sc w = (if sc then (w, 1) else (1, w))"

text \<open>A failed store conditional sends the caller round the loop again, so the sequential view is
  that of the attempt that succeeds.\<close>

definition spinlock_acquire :: "spinlock \<Rightarrow> cpu_ctx \<Rightarrow> (spinlock \<times> cpu_ctx) outcome" where
  "spinlock_acquire splk c =
     obind (splraise IPL_NONE IPL_HIGH c) (\<lambda>c.
     obind (if curcpu_exists c
            then if splk_holder splk = Some (c_self c) then Stop Panic
                 else Done (Some (c_self c), c\<lparr>c_spinlocks := c_spinlocks c + 1\<rparr>)
            else Done (None, c)) (\<lambda>(mycpu, c).
     if splk_lock splk \<noteq> 0 then Stop Blocked
     else case spinlock_data_testandset True (splk_lock splk) of (old, new) \<Rightarrow>
       if old \<noteq> 0 then Stop Blocked
       else Done (\<lparr>splk_lock = new, splk_holder = mycpu\<rparr>, c)))"

definition spinlock_release :: "spinlock \<Rightarrow> cpu_ctx \<Rightarrow> (spinlock \<times> cpu_ctx) outcome" where
  "spinlock_release splk c =
     obind (if curcpu_exists c
            then obind (kassert (splk_holder splk = Some (c_self c))) (\<lambda>_.
                 obind (kassert (c_spinlocks c > 0)) (\<lambda>_.
                 Done (c\<lparr>c_spinlocks := c_spinlocks c - 1\<rparr>)))
            else Done c) (\<lambda>c.
     let splk = splk\<lparr>splk_holder := None, splk_lock := 0\<rparr> in
     obind (spllower IPL_HIGH IPL_NONE c) (\<lambda>c. Done (splk, c)))"

definition spinlock_do_i_hold :: "spinlock \<Rightarrow> cpu_ctx \<Rightarrow> bool" where
  "spinlock_do_i_hold splk c \<longleftrightarrow> \<not> curcpu_exists c \<or> splk_holder splk = Some (c_self c)"

section \<open>Interrupts are off exactly while some level is raised\<close>

definition ctx_ok :: "cpu_ctx \<Rightarrow> bool" where
  "ctx_ok c \<longleftrightarrow> curcpu_exists c \<and> 0 \<le> t_iplhigh_count c \<and> (irq_on c \<longleftrightarrow> t_iplhigh_count c = 0) \<and>
     t_curspl c \<in> {IPL_NONE, IPL_HIGH} \<and> t_curspl c + uint (c_spinlocks c) = t_iplhigh_count c \<and>
     uint (c_spinlocks c) < 2 ^ 31"

text \<open>\<open>t_iplhigh_count\<close> counts the raises: one for the level itself, one for every spinlock held.\<close>

lemma splx_spec:
  assumes "ctx_ok c" "spl \<in> {IPL_NONE, IPL_HIGH}"
  shows "\<exists>c'. splx spl c = Done (t_curspl c, c') \<and> ctx_ok c' \<and> t_curspl c' = spl \<and>
    c_spinlocks c' = c_spinlocks c \<and> c_self c' = c_self c"
proof -
  have "1 + uint (c_spinlocks c) \<noteq> 0" using uint_ge_0 [of "c_spinlocks c"] by linarith
  then show ?thesis using assms
    by (auto simp: splx_def splraise_def spllower_def ctx_ok_def IPL_NONE_def IPL_HIGH_def Let_def)
qed

lemma uint_inc: "uint (x :: u32) < 2 ^ 31 \<Longrightarrow> uint (x + 1) = uint x + 1"
  by (simp add: uint_word_ariths)

lemma uint_dec: "0 < (x :: u32) \<Longrightarrow> uint (x - 1) = uint x - 1"
  using uint_sub_lem [of 1 x] by (simp add: word_less_def)

lemma spinlock_acquire_spec:
  assumes "ctx_ok c" "splk_lock k = 0" "splk_holder k \<noteq> Some (c_self c)" "uint (c_spinlocks c) + 1 < 2 ^ 31"
  shows "\<exists>c'. spinlock_acquire k c = Done (\<lparr>splk_lock = 1, splk_holder = Some (c_self c)\<rparr>, c') \<and>
    ctx_ok c' \<and> \<not> irq_on c' \<and> c_spinlocks c' = c_spinlocks c + 1 \<and> t_curspl c' = t_curspl c \<and> c_self c' = c_self c"
proof -
  have "uint (c_spinlocks c + 1) = uint (c_spinlocks c) + 1" using assms(4) by (intro uint_inc) simp
  moreover have "0 \<le> uint (c_spinlocks c)" by simp
  ultimately show ?thesis using assms
    by (auto simp: spinlock_acquire_def splraise_def ctx_ok_def IPL_NONE_def IPL_HIGH_def
        spinlock_data_testandset_def)
qed

lemma spinlock_release_spec:
  assumes "ctx_ok c" "splk_holder k = Some (c_self c)" "0 < c_spinlocks c"
  shows "\<exists>c'. spinlock_release k c = Done (spinlock_init, c') \<and>
    ctx_ok c' \<and> c_spinlocks c' = c_spinlocks c - 1 \<and> t_curspl c' = t_curspl c \<and> c_self c' = c_self c"
proof -
  have "uint (c_spinlocks c - 1) = uint (c_spinlocks c) - 1" "0 < uint (c_spinlocks c)"
    using assms(3) by (auto simp: uint_dec word_less_def)
  then show ?thesis using assms
    by (auto simp: spinlock_release_def spllower_def ctx_ok_def IPL_NONE_def IPL_HIGH_def
        spinlock_init_def Let_def)
qed

section \<open>Several processors\<close>

text \<open>The program counter of one processor around one spinlock: outside, at the plain read of
  the lock word, at the test-and-set, past it with \<^verbatim>\<open>splk_holder\<close> not yet written, inside, and
  past the reset of \<^verbatim>\<open>splk_holder\<close> in the release.\<close>

datatype spin_pc = Outside | AtRead | AtTas | Took | Inside | Leaving

record spin_state =
  lk :: spinlock
  pc :: "nat \<Rightarrow> spin_pc"

inductive spin_step :: "nat \<Rightarrow> spin_state \<Rightarrow> spin_state \<Rightarrow> bool" where
  enter: "pc s c = Outside \<Longrightarrow> splk_holder (lk s) \<noteq> Some c \<Longrightarrow> spin_step c s (s\<lparr>pc := (pc s)(c := AtRead)\<rparr>)"
| read_busy: "pc s c = AtRead \<Longrightarrow> splk_lock (lk s) \<noteq> 0 \<Longrightarrow> spin_step c s s"
| read_free: "pc s c = AtRead \<Longrightarrow> splk_lock (lk s) = 0 \<Longrightarrow> spin_step c s (s\<lparr>pc := (pc s)(c := AtTas)\<rparr>)"
| tas: "pc s c = AtTas \<Longrightarrow> spinlock_data_testandset sc (splk_lock (lk s)) = (old, new) \<Longrightarrow>
    spin_step c s (s\<lparr>lk := (lk s)\<lparr>splk_lock := new\<rparr>, pc := (pc s)(c := if old \<noteq> 0 then AtRead else Took)\<rparr>)"
| hold: "pc s c = Took \<Longrightarrow>
    spin_step c s (s\<lparr>lk := (lk s)\<lparr>splk_holder := Some c\<rparr>, pc := (pc s)(c := Inside)\<rparr>)"
| unhold: "pc s c = Inside \<Longrightarrow> splk_holder (lk s) = Some c \<Longrightarrow>
    spin_step c s (s\<lparr>lk := (lk s)\<lparr>splk_holder := None\<rparr>, pc := (pc s)(c := Leaving)\<rparr>)"
| free: "pc s c = Leaving \<Longrightarrow>
    spin_step c s (s\<lparr>lk := (lk s)\<lparr>splk_lock := 0\<rparr>, pc := (pc s)(c := Outside)\<rparr>)"

inductive spin_reach :: "spin_state \<Rightarrow> bool" where
  start: "spin_reach \<lparr>lk = spinlock_init, pc = (\<lambda>_. Outside)\<rparr>"
| step: "spin_reach s \<Longrightarrow> spin_step c s s' \<Longrightarrow> spin_reach s'"

definition owns :: "spin_pc \<Rightarrow> bool" where
  "owns p \<longleftrightarrow> p \<in> {Took, Inside, Leaving}"

text \<open>At most one processor \<open>ow\<close> owns the lock word; the holder field is set only inside.\<close>

definition spin_owned :: "spin_state \<Rightarrow> nat option \<Rightarrow> bool" where
  "spin_owned s ow \<longleftrightarrow> (\<forall>c. owns (pc s c) = (ow = Some c)) \<and> (splk_lock (lk s) = 0) = (ow = None) \<and>
     (\<forall>c. (splk_holder (lk s) = Some c) = (pc s c = Inside))"

lemma spin_owned_iff: "spin_owned s ow \<Longrightarrow> (ow = Some c) = owns (pc s c)"
  by (simp add: spin_owned_def)

lemma spin_owned_step:
  assumes "spin_step c s s'" "spin_owned s ow"
  shows "\<exists>ow'. spin_owned s' ow'"
  using assms
proof (induction rule: spin_step.induct)
  case (enter s c)
  then have "ow \<noteq> Some c" by (simp add: spin_owned_iff owns_def)
  then show ?case using enter
    by (intro exI [of _ ow]) (auto simp: spin_owned_def owns_def fun_upd_apply)
next
  case (read_free s c)
  then have "ow \<noteq> Some c" by (simp add: spin_owned_iff owns_def)
  then show ?case using read_free
    by (intro exI [of _ ow]) (auto simp: spin_owned_def owns_def fun_upd_apply)
next
  case (tas s c sc old new)
  then have "ow \<noteq> Some c" by (simp add: spin_owned_iff owns_def)
  then show ?case using tas
    by (intro exI [of _ "if old = 0 then Some c else ow"])
      (auto simp: spin_owned_def owns_def fun_upd_apply spinlock_data_testandset_def split: if_splits)
next
  case (hold s c)
  then have "ow = Some c" by (simp add: spin_owned_iff owns_def)
  then show ?case using hold
    by (intro exI [of _ ow]) (auto simp: spin_owned_def owns_def fun_upd_apply)
next
  case (unhold s c)
  then have "ow = Some c" by (simp add: spin_owned_iff owns_def)
  then show ?case using unhold
    by (intro exI [of _ ow]) (auto simp: spin_owned_def owns_def fun_upd_apply)
next
  case (free s c)
  then have "ow = Some c" by (simp add: spin_owned_iff owns_def)
  then show ?case using free
    by (intro exI [of _ None]) (auto simp: spin_owned_def owns_def fun_upd_apply)
qed auto

lemma spin_reach_owned: "spin_reach s \<Longrightarrow> \<exists>ow. spin_owned s ow"
proof (induction rule: spin_reach.induct)
  case start
  then show ?case by (intro exI [of _ None]) (simp add: spin_owned_def owns_def spinlock_init_def)
qed (use spin_owned_step in blast)

section \<open>Properties\<close>

text \<open>C26.  At any interleaving of the processors at the granularity of single accesses to the lock
  word and the holder field, at most one processor is inside the spinlock, and the holder
  field names a processor only while that processor owns the lock.\<close>

theorem spinlock_mutual_exclusion:
  assumes "spin_reach s"
  shows "(\<forall>c d. owns (pc s c) \<and> owns (pc s d) \<longrightarrow> c = d) \<and>
    (\<forall>c. splk_holder (lk s) = Some c \<longrightarrow> pc s c = Inside) \<and>
    (splk_lock (lk s) = 0 \<longrightarrow> (\<forall>c. \<not> owns (pc s c)))"
proof -
  obtain ow where i: "spin_owned s ow" using spin_reach_owned [OF assms] by blast
  then have "owns (pc s c) \<Longrightarrow> ow = Some c" for c by (simp add: spin_owned_iff)
  then show ?thesis using i unfolding spin_owned_def by (metis option.inject option.distinct(1))
qed

theorem spinlock_mutual_exclusion_witness:
  "\<exists>s. spin_reach s \<and> pc s 3 = Took \<and> {d. owns (pc s d)} = {3}"
proof -
  let ?s0 = "\<lparr>lk = spinlock_init, pc = (\<lambda>_. Outside)\<rparr>"
  let ?s1 = "?s0\<lparr>pc := (pc ?s0)(3 := AtRead)\<rparr>"
  let ?s2 = "?s1\<lparr>pc := (pc ?s1)(3 := AtTas)\<rparr>"
  let ?s3 = "?s2\<lparr>lk := (lk ?s2)\<lparr>splk_lock := 1\<rparr>, pc := (pc ?s2)(3 := Took)\<rparr>"
  have "spin_step 3 ?s0 ?s1" by (rule spin_step.enter) (simp_all add: spinlock_init_def)
  moreover have "spin_step 3 ?s1 ?s2" by (rule spin_step.read_free) (simp_all add: spinlock_init_def)
  moreover have "spin_step 3 ?s2 ?s3"
    using spin_step.tas [of ?s2 3 True 0 1] by (simp add: spinlock_init_def spinlock_data_testandset_def)
  ultimately have r: "spin_reach ?s3" using start step by blast
  have "owns (pc ?s3 3)" by (simp add: owns_def)
  then show ?thesis using spinlock_mutual_exclusion [OF r] r by (intro exI [of _ ?s3]) auto
qed

text \<open>Interrupts stay off until the last spinlock is released and the level is lowered: from
  a consistent state, acquiring and releasing a free spinlock and raising and restoring the
  level return to the same level, with interrupts off in between, and back on exactly when
  they were on.\<close>

theorem spl_spinlock_nesting:
  assumes "ctx_ok c" "splk_lock k = 0" "splk_holder k \<noteq> Some (c_self c)" "uint (c_spinlocks c) + 1 < 2 ^ 31"
  shows "\<exists>c1 c2 c3 old k'. splhigh c = Done (old, c1) \<and> \<not> irq_on c1 \<and>
    spinlock_acquire k c1 = Done (k', c2) \<and> \<not> irq_on c2 \<and> spinlock_do_i_hold k' c2 \<and>
    splx old c2 = Done (IPL_HIGH, c3) \<and> \<not> irq_on c3 \<and>
    (\<exists>c4. spinlock_release k' c3 = Done (spinlock_init, c4) \<and> ctx_ok c4 \<and> irq_on c4 = irq_on c \<and>
      t_curspl c4 = t_curspl c \<and> c_spinlocks c4 = c_spinlocks c)"
proof -
  have old: "t_curspl c \<in> {IPL_NONE, IPL_HIGH}" using assms(1) by (simp add: ctx_ok_def)
  obtain c1 where 1: "splhigh c = Done (t_curspl c, c1)" "ctx_ok c1" "t_curspl c1 = IPL_HIGH"
    "c_spinlocks c1 = c_spinlocks c" "c_self c1 = c_self c"
    using splx_spec [OF assms(1), of IPL_HIGH] by (auto simp: splhigh_def)
  obtain c2 where 2: "spinlock_acquire k c1 = Done (\<lparr>splk_lock = 1, splk_holder = Some (c_self c)\<rparr>, c2)"
    "ctx_ok c2" "\<not> irq_on c2" "c_spinlocks c2 = c_spinlocks c + 1" "t_curspl c2 = IPL_HIGH" "c_self c2 = c_self c"
    using spinlock_acquire_spec [OF 1(2) assms(2)] assms(3,4) 1 by auto
  obtain c3 where 3: "splx (t_curspl c) c2 = Done (IPL_HIGH, c3)" "ctx_ok c3" "t_curspl c3 = t_curspl c"
    "c_spinlocks c3 = c_spinlocks c + 1" "c_self c3 = c_self c"
    using splx_spec [OF 2(2) old] 2 by auto
  have pos: "0 < c_spinlocks c + 1" using assms(4) uint_inc [of "c_spinlocks c"] by (simp add: word_less_def)
  obtain c4 where 4: "spinlock_release \<lparr>splk_lock = 1, splk_holder = Some (c_self c)\<rparr> c3 = Done (spinlock_init, c4)"
    "ctx_ok c4" "c_spinlocks c4 = c_spinlocks c" "t_curspl c4 = t_curspl c"
    using spinlock_release_spec [OF 3(2), of "\<lparr>splk_lock = 1, splk_holder = Some (c_self c)\<rparr>"] 3 pos by auto
  have raised: "\<not> irq_on x" if "ctx_ok x" "t_curspl x = IPL_HIGH \<or> 0 < c_spinlocks x" for x
  proof -
    have "1 + uint (c_spinlocks x) \<noteq> 0" using uint_ge_0 [of "c_spinlocks x"] by linarith
    then show ?thesis using that unfolding ctx_ok_def by (auto simp: IPL_HIGH_def IPL_NONE_def word_less_def)
  qed
  have same: "irq_on c4 = irq_on c" using 4 assms(1) by (simp add: ctx_ok_def)
  show ?thesis using 1 2 3 4 same raised [OF 1(2)] raised [OF 3(2)] pos
    by (auto simp: spinlock_do_i_hold_def)
qed

definition quiet_ctx :: cpu_ctx where
  "quiet_ctx = \<lparr>curcpu_exists = True, c_self = 0, irq_on = True, t_iplhigh_count = 0, t_curspl = 0, c_spinlocks = 0\<rparr>"

theorem spl_spinlock_nesting_witness:
  "ctx_ok quiet_ctx \<and> (\<exists>c1 c2 k. splhigh quiet_ctx = Done (0, c1) \<and> spinlock_acquire spinlock_init c1 = Done (k, c2) \<and>
     \<not> irq_on c2)"
proof -
  have "ctx_ok quiet_ctx" by (simp add: ctx_ok_def quiet_ctx_def IPL_NONE_def)
  moreover have "\<exists>c1. splhigh quiet_ctx = Done (0, c1)"
    by (simp add: splhigh_def splx_def splraise_def quiet_ctx_def IPL_HIGH_def IPL_NONE_def)
  ultimately show ?thesis using spl_spinlock_nesting [of quiet_ctx spinlock_init]
    by (auto simp: spinlock_init_def quiet_ctx_def)
qed

end
