(* ===== verification/KHeap.thy ===== *)
theory KHeap
  imports Prelude
begin

text \<open>
  The kernel allocator as its clients see it (\<^verbatim>\<open>kmalloc\<close>, \<^verbatim>\<open>kfree\<close>): a source of fresh
  blocks that may run dry, with the set of blocks still allocated, so that the theorems can
  state which calls leak and which free a block twice.  Whether an allocation succeeds is
  decided by an arbitrary stream of booleans \<open>avail\<close>.
\<close>

record kheap =
  kh_next :: nat
  kh_live :: "nat list"
  kh_avail :: "nat \<Rightarrow> bool"

definition kmalloc :: "kheap \<Rightarrow> nat option \<times> kheap" where
  "kmalloc h =
     (let n = kh_next h; h' = h\<lparr>kh_next := n + 1\<rparr> in
      if kh_avail h n then (Some n, h'\<lparr>kh_live := n # kh_live h\<rparr>) else (None, h'))"

text \<open>Freeing the null pointer is allowed and does nothing.\<close>

definition kfree :: "nat option \<Rightarrow> kheap \<Rightarrow> kheap outcome" where
  "kfree p h =
     (case p of None \<Rightarrow> Done h
      | Some n \<Rightarrow> if n \<in> set (kh_live h) then Done (h\<lparr>kh_live := remove1 n (kh_live h)\<rparr>) else Stop Fault)"

definition kheap_ok :: "kheap \<Rightarrow> bool" where
  "kheap_ok h \<longleftrightarrow> distinct (kh_live h) \<and> (\<forall>n\<in>set (kh_live h). n < kh_next h)"

lemma kmalloc_ok: "kheap_ok h \<Longrightarrow> kheap_ok (snd (kmalloc h))"
  by (auto simp: kheap_ok_def kmalloc_def Let_def less_Suc_eq)

lemma kmalloc_fresh: "kheap_ok h \<Longrightarrow> kmalloc h = (Some n, h') \<Longrightarrow> n \<notin> set (kh_live h) \<and> kh_live h' = n # kh_live h"
  by (auto simp: kheap_ok_def kmalloc_def Let_def split: if_splits)

lemma kmalloc_none: "kmalloc h = (None, h') \<Longrightarrow> kh_live h' = kh_live h"
  by (auto simp: kmalloc_def Let_def split: if_splits)

lemma kfree_ok: "kheap_ok h \<Longrightarrow> kfree p h = Done h' \<Longrightarrow> kheap_ok h'"
  by (auto simp: kheap_ok_def kfree_def distinct_remove1 dest: in_set_remove1 split: option.splits if_splits)

end
