(* ===== verification/Sched.thy ===== *)
theory Sched
  imports ThreadList KHeap
begin

text \<open>
  Threads, processors and wait channels (\<^verbatim>\<open>kern/thread/thread.c\<close>).

  Queues are lists of thread numbers: \<open>ThreadList\<close> shows that the linked lists of the source
  implement them.  The routines are those of one processor, \<open>me\<close>; spinlocks are named and
  the state records which processor holds each of them, so that the assertions on held
  locks are part of the model.  A context switch is cut where control changes thread:
  \<open>thread_switch_out\<close> runs up to the idle loop in the old thread, \<open>switch_pick\<close> is one round
  of that loop, \<open>thread_switch_in\<close> is the tail of the routine in the thread that was picked.
  Interrupt levels are the subject of \<open>Spl\<close>, the address space that \<^verbatim>\<open>as_activate\<close> loads
  that of \<open>DumbVM\<close>.
\<close>

datatype threadstate = S_RUN | S_READY | S_SLEEP | S_ZOMBIE

record thread =
  t_name :: nat
  t_wchan_name :: "string option"
  t_state :: threadstate
  t_stack :: "nat option"
  stack_intact :: bool
  t_cpu :: "nat option"
  t_proc :: "nat option"
  t_in_interrupt :: bool

datatype lockid = RunqueueLock nat | IpiLock nat | ProcLock nat | OtherLock nat

record cpu =
  c_curthread :: nat
  c_zombies :: "nat list"
  c_spinlocks :: nat
  c_isidle :: bool
  c_runqueue :: "nat list"
  c_ipi_pending :: u32
  c_shootdown :: "u32 list"
  c_halted :: bool

record sys =
  threads :: "nat \<rightharpoonup> thread"
  numcpus :: nat
  cpus :: "nat \<Rightarrow> cpu"
  wc_name :: "nat \<Rightarrow> string"
  wc_threads :: "nat \<Rightarrow> nat list"
  splk_holder :: "lockid \<rightharpoonup> nat"
  p_numthreads :: "nat \<Rightarrow> nat"
  heap :: kheap

definition upd_cpu :: "nat \<Rightarrow> (cpu \<Rightarrow> cpu) \<Rightarrow> sys \<Rightarrow> sys" where
  "upd_cpu c f s = s\<lparr>cpus := (cpus s)(c := f (cpus s c))\<rparr>"

definition upd_thread :: "nat \<Rightarrow> (thread \<Rightarrow> thread) \<Rightarrow> sys \<Rightarrow> sys outcome" where
  "upd_thread t f s = obind (deref (threads s t)) (\<lambda>th. Done (s\<lparr>threads := (threads s)(t \<mapsto> f th)\<rparr>))"

section \<open>Spinlocks, as held by processors\<close>

definition splk_acquire :: "nat \<Rightarrow> lockid \<Rightarrow> sys \<Rightarrow> sys outcome" where
  "splk_acquire me k s =
     (case splk_holder s k of
        Some c \<Rightarrow> Stop (if c = me then Panic else Blocked)
      | None \<Rightarrow> Done (upd_cpu me (\<lambda>c. c\<lparr>c_spinlocks := c_spinlocks c + 1\<rparr>)
                  (s\<lparr>splk_holder := (splk_holder s)(k \<mapsto> me)\<rparr>)))"

definition splk_release :: "nat \<Rightarrow> lockid \<Rightarrow> sys \<Rightarrow> sys outcome" where
  "splk_release me k s =
     obind (kassert (splk_holder s k = Some me)) (\<lambda>_.
     obind (kassert (c_spinlocks (cpus s me) > 0)) (\<lambda>_.
     Done (upd_cpu me (\<lambda>c. c\<lparr>c_spinlocks := c_spinlocks c - 1\<rparr>)
             (s\<lparr>splk_holder := (splk_holder s)(k := None)\<rparr>))))"

section \<open>Interprocessor interrupts\<close>

definition IPI_PANIC :: nat where "IPI_PANIC = 0"
definition IPI_OFFLINE :: nat where "IPI_OFFLINE = 1"
definition IPI_UNIDLE :: nat where "IPI_UNIDLE = 2"
definition IPI_TLBSHOOTDOWN :: nat where "IPI_TLBSHOOTDOWN = 3"
definition TLBSHOOTDOWN_MAX :: nat where "TLBSHOOTDOWN_MAX = 16"

definition ipi_send :: "nat \<Rightarrow> nat \<Rightarrow> nat \<Rightarrow> sys \<Rightarrow> sys outcome" where
  "ipi_send me target code s =
     obind (kassert (code < 32)) (\<lambda>_.
     obind (splk_acquire me (IpiLock target) s) (\<lambda>s.
     splk_release me (IpiLock target)
       (upd_cpu target (\<lambda>c. c\<lparr>c_ipi_pending := c_ipi_pending c OR push_bit code 1\<rparr>) s)))"

fun ipi_broadcast_from :: "nat \<Rightarrow> nat \<Rightarrow> nat list \<Rightarrow> sys \<Rightarrow> sys outcome" where
  "ipi_broadcast_from me code [] s = Done s"
| "ipi_broadcast_from me code (c # cs) s =
     obind (if c \<noteq> me then ipi_send me c code s else Done s) (\<lambda>s. ipi_broadcast_from me code cs s)"

definition ipi_broadcast :: "nat \<Rightarrow> nat \<Rightarrow> sys \<Rightarrow> sys outcome" where
  "ipi_broadcast me code s = ipi_broadcast_from me code [0..<numcpus s] s"

definition ipi_tlbshootdown :: "nat \<Rightarrow> nat \<Rightarrow> u32 \<Rightarrow> sys \<Rightarrow> sys outcome" where
  "ipi_tlbshootdown me target mapping s =
     obind (splk_acquire me (IpiLock target) s) (\<lambda>s.
     if length (c_shootdown (cpus s target)) = TLBSHOOTDOWN_MAX then Stop Panic
     else splk_release me (IpiLock target)
       (upd_cpu target (\<lambda>c. c\<lparr>c_shootdown := c_shootdown c @ [mapping],
            c_ipi_pending := c_ipi_pending c OR push_bit IPI_TLBSHOOTDOWN 1\<rparr>) s))"

text \<open>The virtual memory system of the build refuses shootdown requests.\<close>

definition vm_tlbshootdown :: "u32 \<Rightarrow> sys \<Rightarrow> sys outcome" where
  "vm_tlbshootdown ts s = Stop Panic"

fun shootdowns :: "u32 list \<Rightarrow> sys \<Rightarrow> sys outcome" where
  "shootdowns [] s = Done s"
| "shootdowns (m # ms) s = obind (vm_tlbshootdown m s) (\<lambda>s. shootdowns ms s)"

definition cpu_halt :: "nat \<Rightarrow> sys \<Rightarrow> sys" where
  "cpu_halt me s = upd_cpu me (\<lambda>c. c\<lparr>c_halted := True\<rparr>) s"

definition interprocessor_interrupt :: "nat \<Rightarrow> sys \<Rightarrow> sys outcome" where
  "interprocessor_interrupt me s =
     obind (splk_acquire me (IpiLock me) s) (\<lambda>s.
     let bits = c_ipi_pending (cpus s me) in
     if bit bits IPI_PANIC then
       obind (splk_release me (IpiLock me) s) (\<lambda>s. Done (cpu_halt me s))
     else if bit bits IPI_OFFLINE then
       obind (splk_release me (IpiLock me) s) (\<lambda>s.
       obind (splk_acquire me (RunqueueLock me) s) (\<lambda>s.
       obind (splk_release me (RunqueueLock me) s) (\<lambda>s.
       Done (cpu_halt me s))))
     else
       obind (if bit bits IPI_TLBSHOOTDOWN
              then obind (shootdowns (c_shootdown (cpus s me)) s)
                     (\<lambda>s. Done (upd_cpu me (\<lambda>c. c\<lparr>c_shootdown := []\<rparr>) s))
              else Done s) (\<lambda>s.
       splk_release me (IpiLock me) (upd_cpu me (\<lambda>c. c\<lparr>c_ipi_pending := 0\<rparr>) s)))"

section \<open>Threads\<close>

definition thread_checkstack :: "nat \<Rightarrow> sys \<Rightarrow> unit outcome" where
  "thread_checkstack t s =
     obind (deref (threads s t)) (\<lambda>th. if t_stack th \<noteq> None then kassert (stack_intact th) else Done ())"

definition thread_create :: "sys \<Rightarrow> (nat option \<times> sys) outcome" where
  "thread_create s =
     (case kmalloc (heap s) of
        (None, h) \<Rightarrow> Done (None, s\<lparr>heap := h\<rparr>)
      | (Some t, h) \<Rightarrow>
          (case kmalloc h of
             (None, h) \<Rightarrow> obind (kfree (Some t) h) (\<lambda>h. Done (None, s\<lparr>heap := h\<rparr>))
           | (Some nm, h) \<Rightarrow>
               Done (Some t, s\<lparr>heap := h, threads := (threads s)(t \<mapsto>
                 \<lparr>t_name = nm, t_wchan_name = Some ''NEW'', t_state = S_READY, t_stack = None,
                  stack_intact = False, t_cpu = None, t_proc = None, t_in_interrupt = False\<rparr>)\<rparr>)))"

definition thread_destroy :: "nat \<Rightarrow> nat \<Rightarrow> sys \<Rightarrow> sys outcome" where
  "thread_destroy me t s =
     obind (kassert (t \<noteq> c_curthread (cpus s me))) (\<lambda>_.
     obind (deref (threads s t)) (\<lambda>th.
     obind (kassert (t_state th \<noteq> S_RUN)) (\<lambda>_.
     obind (kassert (t_proc th = None)) (\<lambda>_.
     obind (kfree (t_stack th) (heap s)) (\<lambda>h.
     obind (kfree (Some (t_name th)) h) (\<lambda>h.
     obind (kfree (Some t) h) (\<lambda>h.
     Done (s\<lparr>heap := h, threads := (threads s)(t := None)\<rparr>))))))))"

text \<open>One turn of the loop per zombie.\<close>

fun exorcise_list :: "nat \<Rightarrow> nat list \<Rightarrow> sys \<Rightarrow> sys outcome" where
  "exorcise_list me [] s = Done s"
| "exorcise_list me (z # zs) s =
     (let s = upd_cpu me (\<lambda>c. c\<lparr>c_zombies := zs\<rparr>) s in
      obind (kassert (z \<noteq> c_curthread (cpus s me))) (\<lambda>_.
      obind (deref (threads s z)) (\<lambda>th.
      obind (kassert (t_state th = S_ZOMBIE)) (\<lambda>_.
      obind (thread_destroy me z s) (\<lambda>s. exorcise_list me zs s)))))"

definition exorcise :: "nat \<Rightarrow> sys \<Rightarrow> sys outcome" where
  "exorcise me s = exorcise_list me (c_zombies (cpus s me)) s"

definition thread_panic :: "nat \<Rightarrow> sys \<Rightarrow> sys outcome" where
  "thread_panic me s =
     obind (ipi_broadcast me IPI_PANIC s) (\<lambda>s. Done (upd_cpu me (\<lambda>c. c\<lparr>c_runqueue := []\<rparr>) s))"

definition thread_shutdown :: "nat \<Rightarrow> sys \<Rightarrow> sys outcome" where
  "thread_shutdown me s = ipi_broadcast me IPI_OFFLINE s"

definition proc_addthread :: "nat \<Rightarrow> nat \<Rightarrow> nat \<Rightarrow> sys \<Rightarrow> (errno option \<times> sys) outcome" where
  "proc_addthread me p t s =
     obind (deref (threads s t)) (\<lambda>th.
     obind (kassert (t_proc th = None)) (\<lambda>_.
     obind (splk_acquire me (ProcLock p) s) (\<lambda>s.
     obind (splk_release me (ProcLock p) (s\<lparr>p_numthreads := (p_numthreads s)(p := p_numthreads s p + 1)\<rparr>)) (\<lambda>s.
     obind (upd_thread t (\<lambda>th. th\<lparr>t_proc := Some p\<rparr>) s) (\<lambda>s.
     Done (None, s))))))"

definition proc_remthread :: "nat \<Rightarrow> nat \<Rightarrow> sys \<Rightarrow> sys outcome" where
  "proc_remthread me t s =
     obind (deref (threads s t)) (\<lambda>th.
     case t_proc th of None \<Rightarrow> Stop Panic | Some p \<Rightarrow>
       obind (splk_acquire me (ProcLock p) s) (\<lambda>s.
       obind (kassert (p_numthreads s p > 0)) (\<lambda>_.
       obind (splk_release me (ProcLock p) (s\<lparr>p_numthreads := (p_numthreads s)(p := p_numthreads s p - 1)\<rparr>)) (\<lambda>s.
       upd_thread t (\<lambda>th. th\<lparr>t_proc := None\<rparr>) s))))"

definition thread_make_runnable :: "nat \<Rightarrow> nat \<Rightarrow> bool \<Rightarrow> sys \<Rightarrow> sys outcome" where
  "thread_make_runnable me target already_have_lock s =
     obind (deref (threads s target)) (\<lambda>th.
     obind (deref (t_cpu th)) (\<lambda>targetcpu.
     obind (if already_have_lock
            then obind (kassert (splk_holder s (RunqueueLock targetcpu) = Some me)) (\<lambda>_. Done s)
            else splk_acquire me (RunqueueLock targetcpu) s) (\<lambda>s.
     obind (upd_thread target (\<lambda>th. th\<lparr>t_state := S_READY\<rparr>) s) (\<lambda>s.
     let s = upd_cpu targetcpu (\<lambda>c. c\<lparr>c_runqueue := c_runqueue c @ [target]\<rparr>) s in
     obind (if c_isidle (cpus s targetcpu) \<and> targetcpu \<noteq> me
            then ipi_send me targetcpu IPI_UNIDLE s else Done s) (\<lambda>s.
     if \<not> already_have_lock then splk_release me (RunqueueLock targetcpu) s else Done s)))))"

definition thread_fork :: "nat \<Rightarrow> nat option \<Rightarrow> sys \<Rightarrow> (errno option \<times> sys) outcome" where
  "thread_fork me proc s =
     obind (thread_create s) (\<lambda>(newthread, s).
     case newthread of None \<Rightarrow> Done (Some ENOMEM, s) | Some t \<Rightarrow>
       (case kmalloc (heap s) of
          (None, h) \<Rightarrow> obind (thread_destroy me t (s\<lparr>heap := h\<rparr>)) (\<lambda>s. Done (Some ENOMEM, s))
        | (Some stk, h) \<Rightarrow>
            obind (deref (threads s (c_curthread (cpus s me)))) (\<lambda>cur.
            obind (upd_thread t (\<lambda>th. th\<lparr>t_stack := Some stk, stack_intact := True, t_cpu := t_cpu cur\<rparr>)
                     (s\<lparr>heap := h\<rparr>)) (\<lambda>s.
            obind (deref (case proc of None \<Rightarrow> t_proc cur | Some p \<Rightarrow> Some p)) (\<lambda>p.
            obind (proc_addthread me p t s) (\<lambda>(result, s).
            case result of
              Some e \<Rightarrow> obind (thread_destroy me t s) (\<lambda>s. Done (Some e, s))
            | None \<Rightarrow> obind (thread_make_runnable me t False s) (\<lambda>s. Done (None, s))))))))"

section \<open>The context switch\<close>

text \<open>How the first part of the switch ends: the routine has returned, or the processor is in
  the idle loop with its run queue locked.\<close>

datatype switched = Returned | Switching

definition thread_switch_out ::
  "nat \<Rightarrow> threadstate \<Rightarrow> nat \<Rightarrow> lockid \<Rightarrow> sys \<Rightarrow> (switched \<times> sys) outcome" where
  "thread_switch_out me newstate wc lk s =
     (let cur = c_curthread (cpus s me) in
      if c_isidle (cpus s me) then Done (Returned, s)
      else
        obind (thread_checkstack cur s) (\<lambda>_.
        obind (splk_acquire me (RunqueueLock me) s) (\<lambda>s.
        if newstate = S_READY \<and> c_runqueue (cpus s me) = [] then
          obind (splk_release me (RunqueueLock me) s) (\<lambda>s. Done (Returned, s))
        else
          obind (case newstate of
              S_RUN \<Rightarrow> Stop Panic
            | S_READY \<Rightarrow> thread_make_runnable me cur True s
            | S_SLEEP \<Rightarrow>
                obind (upd_thread cur (\<lambda>th. th\<lparr>t_wchan_name := Some (wc_name s wc)\<rparr>) s) (\<lambda>s.
                splk_release me lk (s\<lparr>wc_threads := (wc_threads s)(wc := wc_threads s wc @ [cur])\<rparr>))
            | S_ZOMBIE \<Rightarrow>
                obind (upd_thread cur (\<lambda>th. th\<lparr>t_wchan_name := Some ''ZOMBIE''\<rparr>) s) (\<lambda>s.
                Done (upd_cpu me (\<lambda>c. c\<lparr>c_zombies := c_zombies c @ [cur]\<rparr>) s))) (\<lambda>s.
          obind (upd_thread cur (\<lambda>th. th\<lparr>t_state := newstate\<rparr>) s) (\<lambda>s.
          Done (Switching, upd_cpu me (\<lambda>c. c\<lparr>c_isidle := True\<rparr>) s))))))"

text \<open>One round of the idle loop: \<open>None\<close> when the queue was empty; the lock is then released
  and \<^verbatim>\<open>cpu_idle\<close> waits for an interrupt.\<close>

definition switch_pick :: "nat \<Rightarrow> sys \<Rightarrow> (nat option \<times> sys) outcome" where
  "switch_pick me s =
     (case c_runqueue (cpus s me) of
        [] \<Rightarrow> obind (splk_release me (RunqueueLock me) s) (\<lambda>s. Done (None, s))
      | t # ts \<Rightarrow> Done (Some t, upd_cpu me (\<lambda>c. c\<lparr>c_runqueue := ts, c_isidle := False, c_curthread := t\<rparr>) s))"

definition thread_switch_in :: "nat \<Rightarrow> sys \<Rightarrow> sys outcome" where
  "thread_switch_in me s =
     (let cur = c_curthread (cpus s me) in
      obind (upd_thread cur (\<lambda>th. th\<lparr>t_wchan_name := None, t_state := S_RUN\<rparr>) s) (\<lambda>s.
      obind (splk_release me (RunqueueLock me) s) (\<lambda>s.
      exorcise me s)))"

text \<open>The whole switch when a thread is ready; \<open>Stop Blocked\<close> is the idle processor.\<close>

definition thread_switch :: "nat \<Rightarrow> threadstate \<Rightarrow> nat \<Rightarrow> lockid \<Rightarrow> sys \<Rightarrow> sys outcome" where
  "thread_switch me newstate wc lk s =
     obind (thread_switch_out me newstate wc lk s) (\<lambda>(r, s).
     case r of Returned \<Rightarrow> Done s | Switching \<Rightarrow>
       obind (switch_pick me s) (\<lambda>(next, s).
       case next of None \<Rightarrow> Stop Blocked | Some _ \<Rightarrow> thread_switch_in me s))"

definition thread_yield :: "nat \<Rightarrow> sys \<Rightarrow> sys outcome" where
  "thread_yield me s = thread_switch me S_READY 0 (OtherLock 0) s"

definition thread_exit :: "nat \<Rightarrow> sys \<Rightarrow> sys outcome" where
  "thread_exit me s =
     (let cur = c_curthread (cpus s me) in
      obind (deref (threads s cur)) (\<lambda>th.
      obind (if t_proc th \<noteq> None then proc_remthread me cur s else Done s) (\<lambda>s.
      obind (deref (threads s cur)) (\<lambda>th.
      obind (kassert (t_proc th = None)) (\<lambda>_.
      obind (thread_checkstack cur s) (\<lambda>_.
      thread_switch me S_ZOMBIE 0 (OtherLock 0) s))))))"

definition thread_startup :: "nat \<Rightarrow> (sys \<Rightarrow> sys outcome) \<Rightarrow> sys \<Rightarrow> sys outcome" where
  "thread_startup me entrypoint s =
     obind (thread_switch_in me s) (\<lambda>s. obind (entrypoint s) (\<lambda>s. thread_exit me s))"

section \<open>Wait channels\<close>

definition wchan_create :: "string \<Rightarrow> sys \<Rightarrow> nat option \<times> sys" where
  "wchan_create nm s =
     (case kmalloc (heap s) of
        (None, h) \<Rightarrow> (None, s\<lparr>heap := h\<rparr>)
      | (Some wc, h) \<Rightarrow> (Some wc, s\<lparr>heap := h, wc_threads := (wc_threads s)(wc := []),
                                     wc_name := (wc_name s)(wc := nm)\<rparr>))"

definition wchan_destroy :: "nat \<Rightarrow> sys \<Rightarrow> sys outcome" where
  "wchan_destroy wc s =
     obind (kassert (wc_threads s wc = [])) (\<lambda>_.
     obind (kfree (Some wc) (heap s)) (\<lambda>h. Done (s\<lparr>heap := h\<rparr>)))"

definition sleep_checks :: "nat \<Rightarrow> lockid \<Rightarrow> sys \<Rightarrow> unit outcome" where
  "sleep_checks me lk s =
     obind (deref (threads s (c_curthread (cpus s me)))) (\<lambda>th.
     obind (kassert (\<not> t_in_interrupt th)) (\<lambda>_.
     obind (kassert (splk_holder s lk = Some me)) (\<lambda>_.
     kassert (c_spinlocks (cpus s me) = 1))))"

text \<open>The part of \<^verbatim>\<open>wchan_sleep\<close> before the thread is off the processor; after it is picked again
  it takes \<open>lk\<close> back.\<close>

definition wchan_sleep_out :: "nat \<Rightarrow> nat \<Rightarrow> lockid \<Rightarrow> sys \<Rightarrow> (switched \<times> sys) outcome" where
  "wchan_sleep_out me wc lk s =
     obind (sleep_checks me lk s) (\<lambda>_. thread_switch_out me S_SLEEP wc lk s)"

definition wchan_sleep_back :: "nat \<Rightarrow> lockid \<Rightarrow> sys \<Rightarrow> sys outcome" where
  "wchan_sleep_back me lk s =
     obind (thread_switch_in me s) (\<lambda>s. splk_acquire me lk s)"

definition wchan_wakeone :: "nat \<Rightarrow> nat \<Rightarrow> lockid \<Rightarrow> sys \<Rightarrow> sys outcome" where
  "wchan_wakeone me wc lk s =
     obind (kassert (splk_holder s lk = Some me)) (\<lambda>_.
     case wc_threads s wc of
       [] \<Rightarrow> Done s
     | t # ts \<Rightarrow> thread_make_runnable me t False (s\<lparr>wc_threads := (wc_threads s)(wc := ts)\<rparr>))"

fun make_all_runnable :: "nat \<Rightarrow> nat list \<Rightarrow> sys \<Rightarrow> sys outcome" where
  "make_all_runnable me [] s = Done s"
| "make_all_runnable me (t # ts) s =
     obind (thread_make_runnable me t False s) (\<lambda>s. make_all_runnable me ts s)"

text \<open>The first loop moves every sleeper to a private list, in order.\<close>

definition wchan_wakeall :: "nat \<Rightarrow> nat \<Rightarrow> lockid \<Rightarrow> sys \<Rightarrow> sys outcome" where
  "wchan_wakeall me wc lk s =
     obind (kassert (splk_holder s lk = Some me)) (\<lambda>_.
     make_all_runnable me (wc_threads s wc) (s\<lparr>wc_threads := (wc_threads s)(wc := [])\<rparr>))"

definition wchan_isempty :: "nat \<Rightarrow> nat \<Rightarrow> lockid \<Rightarrow> sys \<Rightarrow> bool outcome" where
  "wchan_isempty me wc lk s =
     obind (kassert (splk_holder s lk = Some me)) (\<lambda>_. Done (wc_threads s wc = []))"

end
