(* ===== verification/SchedInv.thy ===== *)
theory SchedInv
  imports Sched
begin

text \<open>
  The placement invariant of the thread system: every thread is in one place, a run queue,
  a wait channel, a zombie list or a processor, and its state says which.  Every operation of
  \<open>Sched\<close> keeps it.
\<close>

section \<open>Every thread is in one place\<close>

text \<open>The queues of the state, and the states that leave them as they are.\<close>

definition same_queues :: "sys \<Rightarrow> sys \<Rightarrow> bool" where
  "same_queues s s' \<longleftrightarrow> threads s' = threads s \<and> wc_threads s' = wc_threads s \<and> numcpus s' = numcpus s \<and>
     (\<forall>c. c_runqueue (cpus s' c) = c_runqueue (cpus s c) \<and> c_zombies (cpus s' c) = c_zombies (cpus s c) \<and>
          c_isidle (cpus s' c) = c_isidle (cpus s c) \<and> c_curthread (cpus s' c) = c_curthread (cpus s c))"

lemma same_queues_refl [simp]: "same_queues s s"
  by (simp add: same_queues_def)

lemma same_queues_trans: "same_queues s s' \<Longrightarrow> same_queues s' s'' \<Longrightarrow> same_queues s s''"
  by (simp add: same_queues_def)

lemma same_queues_upd_cpu:
  assumes "\<And>x. c_runqueue (f x) = c_runqueue x \<and> c_zombies (f x) = c_zombies x \<and>
    c_isidle (f x) = c_isidle x \<and> c_curthread (f x) = c_curthread x"
  shows "same_queues s (upd_cpu c f s)"
proof -
  have "c_runqueue (((cpus s)(c := f (cpus s c))) d) = c_runqueue (cpus s d) \<and>
    c_zombies (((cpus s)(c := f (cpus s c))) d) = c_zombies (cpus s d) \<and>
    c_isidle (((cpus s)(c := f (cpus s c))) d) = c_isidle (cpus s d) \<and>
    c_curthread (((cpus s)(c := f (cpus s c))) d) = c_curthread (cpus s d)" for d
    using assms by (cases "d = c") simp_all
  then show ?thesis by (simp add: same_queues_def upd_cpu_def)
qed

lemma same_queues_lock:
  assumes "\<And>x. c_runqueue (f x) = c_runqueue x \<and> c_zombies (f x) = c_zombies x \<and>
    c_isidle (f x) = c_isidle x \<and> c_curthread (f x) = c_curthread x"
  shows "same_queues s (upd_cpu c f (s\<lparr>splk_holder := k\<rparr>))"
proof -
  have "same_queues s (s\<lparr>splk_holder := k\<rparr>)" by (simp add: same_queues_def)
  then show ?thesis using same_queues_upd_cpu [OF assms] same_queues_trans by blast
qed

lemma splk_acquire_same: "splk_acquire me k s = Done s' \<Longrightarrow> same_queues s s'"
  unfolding splk_acquire_def
  by (cases "splk_holder s k") (auto intro!: same_queues_lock)

lemma splk_release_same: "splk_release me k s = Done s' \<Longrightarrow> same_queues s s'"
  unfolding splk_release_def by (auto intro!: same_queues_lock split: if_splits)

lemma ipi_send_same:
  assumes "ipi_send me c code s = Done s'"
  shows "same_queues s s'"
proof -
  let ?f = "\<lambda>c. c\<lparr>c_ipi_pending := c_ipi_pending c OR push_bit code 1\<rparr>"
  obtain s1 where s1: "splk_acquire me (IpiLock c) s = Done s1"
    "splk_release me (IpiLock c) (upd_cpu c ?f s1) = Done s'"
    using assms unfolding ipi_send_def obind_Done_iff by blast
  have "same_queues s1 (upd_cpu c ?f s1)" by (rule same_queues_upd_cpu) simp
  then show ?thesis
    using splk_acquire_same [OF s1(1)] splk_release_same [OF s1(2)] same_queues_trans by blast
qed

text \<open>\<open>A\<close> is the set of processors that are in the middle of a switch.\<close>

definition th_is :: "sys \<Rightarrow> nat \<Rightarrow> threadstate \<Rightarrow> bool" where
  "th_is s t st \<longleftrightarrow> (\<exists>th. threads s t = Some th \<and> t_state th = st)"

definition th_cpu :: "sys \<Rightarrow> nat \<Rightarrow> nat option" where
  "th_cpu s t = Option.bind (threads s t) t_cpu"

definition sched_inv :: "nat set \<Rightarrow> sys \<Rightarrow> bool" where
  "sched_inv A s \<longleftrightarrow>
     (\<forall>c. distinct (c_runqueue (cpus s c))) \<and> (\<forall>c. distinct (c_zombies (cpus s c))) \<and>
     (\<forall>w. distinct (wc_threads s w)) \<and>
     (\<forall>c. \<forall>t\<in>set (c_runqueue (cpus s c)). th_is s t S_READY \<and> th_cpu s t = Some c) \<and>
     (\<forall>c. \<forall>t\<in>set (c_zombies (cpus s c)). th_is s t S_ZOMBIE \<and> th_cpu s t = Some c) \<and>
     (\<forall>w. \<forall>t\<in>set (wc_threads s w). th_is s t S_SLEEP) \<and>
     (\<forall>w v. w \<noteq> v \<longrightarrow> set (wc_threads s w) \<inter> set (wc_threads s v) = {}) \<and>
     (\<forall>c<numcpus s. c \<notin> A \<longrightarrow> \<not> c_isidle (cpus s c) \<longrightarrow>
        th_is s (c_curthread (cpus s c)) S_RUN \<and> th_cpu s (c_curthread (cpus s c)) = Some c)"

lemma sched_invI:
  assumes "\<And>c. distinct (c_runqueue (cpus s c))" "\<And>c. distinct (c_zombies (cpus s c))"
    "\<And>w. distinct (wc_threads s w)"
    "\<And>c t. t \<in> set (c_runqueue (cpus s c)) \<Longrightarrow> th_is s t S_READY \<and> th_cpu s t = Some c"
    "\<And>c t. t \<in> set (c_zombies (cpus s c)) \<Longrightarrow> th_is s t S_ZOMBIE \<and> th_cpu s t = Some c"
    "\<And>w t. t \<in> set (wc_threads s w) \<Longrightarrow> th_is s t S_SLEEP"
    "\<And>w v t. t \<in> set (wc_threads s w) \<Longrightarrow> t \<in> set (wc_threads s v) \<Longrightarrow> w = v"
    "\<And>c. c < numcpus s \<Longrightarrow> c \<notin> A \<Longrightarrow> \<not> c_isidle (cpus s c) \<Longrightarrow>
      th_is s (c_curthread (cpus s c)) S_RUN \<and> th_cpu s (c_curthread (cpus s c)) = Some c"
  shows "sched_inv A s"
  unfolding sched_inv_def using assms by (intro conjI allI ballI impI) blast+

lemma sched_invD:
  assumes "sched_inv A s"
  shows "distinct (c_runqueue (cpus s c))" "distinct (c_zombies (cpus s c))" "distinct (wc_threads s w)"
    "t \<in> set (c_runqueue (cpus s c)) \<Longrightarrow> th_is s t S_READY \<and> th_cpu s t = Some c"
    "t \<in> set (c_zombies (cpus s c)) \<Longrightarrow> th_is s t S_ZOMBIE \<and> th_cpu s t = Some c"
    "t \<in> set (wc_threads s w) \<Longrightarrow> th_is s t S_SLEEP"
    "t \<in> set (wc_threads s w) \<Longrightarrow> t \<in> set (wc_threads s v) \<Longrightarrow> w = v"
    "c < numcpus s \<Longrightarrow> c \<notin> A \<Longrightarrow> \<not> c_isidle (cpus s c) \<Longrightarrow>
      th_is s (c_curthread (cpus s c)) S_RUN \<and> th_cpu s (c_curthread (cpus s c)) = Some c"
  using assms unfolding sched_inv_def by blast+

definition unqueued :: "sys \<Rightarrow> nat \<Rightarrow> bool" where
  "unqueued s t \<longleftrightarrow> (\<forall>c. t \<notin> set (c_runqueue (cpus s c)) \<and> t \<notin> set (c_zombies (cpus s c))) \<and>
     (\<forall>w. t \<notin> set (wc_threads s w))"

text \<open>The processors not in \<open>A\<close> that run \<open>t\<close>.\<close>

definition running :: "nat set \<Rightarrow> sys \<Rightarrow> nat \<Rightarrow> bool" where
  "running A s t \<longleftrightarrow> (\<exists>c<numcpus s. c \<notin> A \<and> \<not> c_isidle (cpus s c) \<and> c_curthread (cpus s c) = t)"

lemma same_queues_inv:
  assumes "same_queues s s'"
  shows "sched_inv A s' = sched_inv A s" "unqueued s' t = unqueued s t" "running A s' t = running A s t"
    "th_is s' t st = th_is s t st" "th_cpu s' t = th_cpu s t"
  using assms by (simp_all add: same_queues_def sched_inv_def unqueued_def running_def th_is_def th_cpu_def)

lemma th_is_unique: "th_is s t a \<Longrightarrow> th_is s t b \<Longrightarrow> a = b"
  by (auto simp: th_is_def)

lemma running_unqueued:
  assumes "sched_inv A s" "c < numcpus s" "c \<notin> A" "\<not> c_isidle (cpus s c)"
  shows "unqueued s (c_curthread (cpus s c))"
proof -
  have "th_is s (c_curthread (cpus s c)) S_RUN" using sched_invD(8) [OF assms] by simp
  then show ?thesis using sched_invD(4-6) [OF assms(1)] th_is_unique
    unfolding unqueued_def by (metis threadstate.distinct)
qed

text \<open>Only threads that are queued or running matter to the invariant.\<close>

lemma sched_inv_threads:
  assumes inv: "sched_inv A s"
    and c: "cpus s' = cpus s" "wc_threads s' = wc_threads s" "numcpus s' = numcpus s"
    and th: "\<And>u. \<not> unqueued s u \<or> running A s u \<Longrightarrow> threads s' u = threads s u"
  shows "sched_inv A s'"
proof -
  have e: "th_is s' u st = th_is s u st" "th_cpu s' u = th_cpu s u" if "\<not> unqueued s u \<or> running A s u" for u st
    using th [OF that] by (simp_all add: th_is_def th_cpu_def)
  have q: "t \<in> set (c_runqueue (cpus s c)) \<Longrightarrow> \<not> unqueued s t" "t \<in> set (c_zombies (cpus s c)) \<Longrightarrow> \<not> unqueued s t"
    "t \<in> set (wc_threads s w) \<Longrightarrow> \<not> unqueued s t" for t c w by (auto simp: unqueued_def)
  have r: "running A s (c_curthread (cpus s c))" if "c < numcpus s" "c \<notin> A" "\<not> c_isidle (cpus s c)" for c
    using that by (auto simp: running_def)
  note inv' = sched_invD [OF inv]
  show ?thesis
  proof (rule sched_invI, unfold c)
    show "th_is s' t S_READY \<and> th_cpu s' t = Some k" if "t \<in> set (c_runqueue (cpus s k))" for k t
      using inv'(4) [OF that] e q(1) [OF that] by simp
    show "th_is s' t S_ZOMBIE \<and> th_cpu s' t = Some k" if "t \<in> set (c_zombies (cpus s k))" for k t
      using inv'(5) [OF that] e q(2) [OF that] by simp
    show "th_is s' t S_SLEEP" if "t \<in> set (wc_threads s w)" for w t
      using inv'(6) [OF that] e q(3) [OF that] by simp
    show "th_is s' (c_curthread (cpus s k)) S_RUN \<and> th_cpu s' (c_curthread (cpus s k)) = Some k"
      if "k < numcpus s" "k \<notin> A" "\<not> c_isidle (cpus s k)" for k
      using inv'(8) [OF that] e r [OF that] by simp
  qed (use inv'(1-3,7) in blast)+
qed

text \<open>A thread that is nowhere may change state.\<close>

lemma upd_thread_inv:
  assumes "upd_thread t f s = Done s'" "sched_inv A s" "unqueued s t" "\<not> running A s t"
  shows "sched_inv A s' \<and> unqueued s' t \<and> \<not> running A s' t"
proof -
  obtain th where s': "s' = s\<lparr>threads := (threads s)(t \<mapsto> f th)\<rparr>"
    using assms(1) by (auto simp: upd_thread_def obind_Done_iff)
  have "sched_inv A s'"
    using assms(3,4) by (intro sched_inv_threads [OF assms(2)]) (auto simp: s' fun_upd_apply)
  moreover have "unqueued s' t" using assms(3) by (simp add: s' unqueued_def)
  moreover have "\<not> running A s' t" using assms(4) by (simp add: s' running_def)
  ultimately show ?thesis by blast
qed

text \<open>Queues may change as long as every entry is of the right kind.\<close>

lemma sched_inv_queues:
  assumes inv: "sched_inv A s" and t: "threads s' = threads s" and n: "numcpus s' = numcpus s"
    and cur: "\<And>c. c < numcpus s \<Longrightarrow> c \<notin> B \<Longrightarrow> \<not> c_isidle (cpus s' c) \<Longrightarrow>
      c \<notin> A \<and> \<not> c_isidle (cpus s c) \<and> c_curthread (cpus s' c) = c_curthread (cpus s c)"
    and rq: "\<And>c. distinct (c_runqueue (cpus s' c))"
      "\<And>c t. t \<in> set (c_runqueue (cpus s' c)) \<Longrightarrow>
        t \<in> set (c_runqueue (cpus s c)) \<or> th_is s t S_READY \<and> th_cpu s t = Some c"
    and zo: "\<And>c. distinct (c_zombies (cpus s' c))"
      "\<And>c t. t \<in> set (c_zombies (cpus s' c)) \<Longrightarrow>
        t \<in> set (c_zombies (cpus s c)) \<or> th_is s t S_ZOMBIE \<and> th_cpu s t = Some c"
    and wc: "\<And>w. distinct (wc_threads s' w)"
      "\<And>w t. t \<in> set (wc_threads s' w) \<Longrightarrow> t \<in> set (wc_threads s w) \<or> th_is s t S_SLEEP"
      "\<And>w v t. t \<in> set (wc_threads s' w) \<Longrightarrow> t \<in> set (wc_threads s' v) \<Longrightarrow> w = v"
  shows "sched_inv B s'"
proof -
  have e: "th_is s' u st = th_is s u st" "th_cpu s' u = th_cpu s u" for u st
    by (simp_all add: th_is_def th_cpu_def t)
  note d = sched_invD [OF inv]
  show ?thesis
  proof (rule sched_invI, unfold e n)
    show "th_is s t S_READY \<and> th_cpu s t = Some c" if "t \<in> set (c_runqueue (cpus s' c))" for c t
      using rq(2) [OF that] d(4) by blast
    show "th_is s t S_ZOMBIE \<and> th_cpu s t = Some c" if "t \<in> set (c_zombies (cpus s' c))" for c t
      using zo(2) [OF that] d(5) by blast
    show "th_is s t S_SLEEP" if "t \<in> set (wc_threads s' w)" for w t
      using wc(2) [OF that] d(6) by blast
    show "th_is s (c_curthread (cpus s' c)) S_RUN \<and> th_cpu s (c_curthread (cpus s' c)) = Some c"
      if "c < numcpus s" "c \<notin> B" "\<not> c_isidle (cpus s' c)" for c
      using cur [OF that] d(8) that by metis
  qed (use rq(1) zo(1) wc(1,3) in blast)+
qed

definition enqueue_run :: "nat \<Rightarrow> nat \<Rightarrow> sys \<Rightarrow> sys" where
  "enqueue_run c t s = upd_cpu c (\<lambda>x. x\<lparr>c_runqueue := c_runqueue x @ [t]\<rparr>) s"

lemma enqueue_run_sel:
  "c_runqueue (cpus (enqueue_run c t s) d) = (if d = c then c_runqueue (cpus s c) @ [t] else c_runqueue (cpus s d))"
  "c_zombies (cpus (enqueue_run c t s) d) = c_zombies (cpus s d)"
  "c_isidle (cpus (enqueue_run c t s) d) = c_isidle (cpus s d)"
  "c_curthread (cpus (enqueue_run c t s) d) = c_curthread (cpus s d)"
  "threads (enqueue_run c t s) = threads s" "numcpus (enqueue_run c t s) = numcpus s"
  "wc_threads (enqueue_run c t s) = wc_threads s"
  by (cases "d = c"; simp add: enqueue_run_def upd_cpu_def)+

lemma enqueue_run_inv:
  assumes "sched_inv A s" "unqueued s t" "th_is s t S_READY" "th_cpu s t = Some c"
  shows "sched_inv A (enqueue_run c t s)"
  by (rule sched_inv_queues [OF assms(1)])
    (use sched_invD [OF assms(1)] assms(2-4) in \<open>auto simp: enqueue_run_sel unqueued_def split: if_splits\<close>)

text \<open>Making a thread runnable: the thread leaves no trace but at the end of one run queue.\<close>

lemma make_runnable_steps:
  assumes "thread_make_runnable me t b s = Done s'"
  obtains th c s2 where "threads s t = Some th" "t_cpu th = Some c"
    "threads s2 = (threads s)(t \<mapsto> th\<lparr>t_state := S_READY\<rparr>)"
    "same_queues (s\<lparr>threads := (threads s)(t \<mapsto> th\<lparr>t_state := S_READY\<rparr>)\<rparr>) s2"
    "same_queues (enqueue_run c t s2) s'"
proof -
  obtain th where th: "threads s t = Some th" using assms
    by (auto simp: thread_make_runnable_def obind_Done_iff deref_Done_iff)
  obtain c where c: "t_cpu th = Some c" using assms th
    by (auto simp: thread_make_runnable_def obind_Done_iff deref_Done_iff)
  obtain s1 where s1: "(if b then obind (kassert (splk_holder s (RunqueueLock c) = Some me)) (\<lambda>_. Done s)
      else splk_acquire me (RunqueueLock c) s) = Done s1"
    and r1: "obind (upd_thread t (\<lambda>th. th\<lparr>t_state := S_READY\<rparr>) s1) (\<lambda>s.
     let s = upd_cpu c (\<lambda>x. x\<lparr>c_runqueue := c_runqueue x @ [t]\<rparr>) s in
     obind (if c_isidle (cpus s c) \<and> c \<noteq> me then ipi_send me c IPI_UNIDLE s else Done s) (\<lambda>s.
     if \<not> b then splk_release me (RunqueueLock c) s else Done s)) = Done s'"
    using assms th c unfolding thread_make_runnable_def obind_Done_iff deref_Done_iff by auto
  have q1: "same_queues s s1" using s1 splk_acquire_same by (auto split: if_splits)
  then have t1: "threads s1 = threads s" by (simp add: same_queues_def)
  define s2 where "s2 = s1\<lparr>threads := (threads s)(t \<mapsto> th\<lparr>t_state := S_READY\<rparr>)\<rparr>"
  have u: "upd_thread t (\<lambda>th. th\<lparr>t_state := S_READY\<rparr>) s1 = Done s2" by (simp add: upd_thread_def t1 th s2_def)
  obtain s3 where s3: "(if c_isidle (cpus (enqueue_run c t s2) c) \<and> c \<noteq> me
       then ipi_send me c IPI_UNIDLE (enqueue_run c t s2) else Done (enqueue_run c t s2)) = Done s3"
    "(if \<not> b then splk_release me (RunqueueLock c) s3 else Done s3) = Done s'"
    using r1 unfolding u obind.simps Let_def enqueue_run_def [symmetric] obind_Done_iff by blast
  have "same_queues (enqueue_run c t s2) s3" using s3(1) ipi_send_same by (auto split: if_splits)
  moreover have "same_queues s3 s'" using s3(2) splk_release_same by (auto split: if_splits)
  ultimately have "same_queues (enqueue_run c t s2) s'" using same_queues_trans by blast
  moreover have "same_queues (s\<lparr>threads := (threads s)(t \<mapsto> th\<lparr>t_state := S_READY\<rparr>)\<rparr>) s2"
    using q1 by (simp add: same_queues_def s2_def)
  moreover have "threads s2 = (threads s)(t \<mapsto> th\<lparr>t_state := S_READY\<rparr>)" by (simp add: s2_def)
  ultimately show thesis using that th c by blast
qed

lemma make_runnable_inv:
  assumes "thread_make_runnable me t b s = Done s'" "sched_inv A s" "unqueued s t" "\<not> running A s t"
  shows "sched_inv A s' \<and> th_cpu s t \<noteq> None \<and>
    (\<forall>d. c_runqueue (cpus s' d) = c_runqueue (cpus s d) @ (if th_cpu s t = Some d then [t] else [])) \<and>
    wc_threads s' = wc_threads s \<and> numcpus s' = numcpus s \<and> \<not> running A s' t \<and>
    (\<forall>u. u \<noteq> t \<longrightarrow> threads s' u = threads s u) \<and> th_is s' t S_READY \<and>
    (\<forall>d. c_isidle (cpus s' d) = c_isidle (cpus s d) \<and> c_curthread (cpus s' d) = c_curthread (cpus s d) \<and>
      c_zombies (cpus s' d) = c_zombies (cpus s d))"
proof -
  obtain th c s2 where th: "threads s t = Some th" "t_cpu th = Some c"
    and t2: "threads s2 = (threads s)(t \<mapsto> th\<lparr>t_state := S_READY\<rparr>)"
    and q2: "same_queues (s\<lparr>threads := (threads s)(t \<mapsto> th\<lparr>t_state := S_READY\<rparr>)\<rparr>) s2"
    and q3: "same_queues (enqueue_run c t s2) s'"
    using make_runnable_steps [OF assms(1)] by metis
  have "upd_thread t (\<lambda>th. th\<lparr>t_state := S_READY\<rparr>) s =
      Done (s\<lparr>threads := (threads s)(t \<mapsto> th\<lparr>t_state := S_READY\<rparr>)\<rparr>)"
    by (simp add: upd_thread_def th)
  from upd_thread_inv [OF this assms(2-4)]
  have i2: "sched_inv A s2" "unqueued s2 t" "\<not> running A s2 t" using same_queues_inv [OF q2] by simp_all
  have "th_is s2 t S_READY" "th_cpu s2 t = Some c" by (simp_all add: th_is_def th_cpu_def t2 th)
  then have "sched_inv A (enqueue_run c t s2)" using enqueue_run_inv i2 by blast
  moreover have "\<not> running A (enqueue_run c t s2) t" using i2(3) by (simp add: running_def enqueue_run_sel)
  moreover have "th_is (enqueue_run c t s2) t S_READY" by (simp add: th_is_def enqueue_run_sel t2)
  ultimately have "sched_inv A s' \<and> \<not> running A s' t \<and> th_is s' t S_READY" using same_queues_inv [OF q3] by simp
  then show ?thesis using q2 q3 th t2 by (auto simp: same_queues_def enqueue_run_sel th_cpu_def)
qed

lemma sleeping_not_running:
  assumes "sched_inv A s" "t \<in> set (wc_threads s w)"
  shows "\<not> running A s t"
proof
  assume "running A s t"
  then have "th_is s t S_RUN" using sched_invD(8) [OF assms(1)] by (auto simp: running_def)
  then show False using sched_invD(6) [OF assms] th_is_unique by fastforce
qed

lemma sleeping_only_here:
  assumes "sched_inv A s" "t \<in> set (wc_threads s w)"
  shows "t \<notin> set (c_runqueue (cpus s c))" "t \<notin> set (c_zombies (cpus s c))" "v \<noteq> w \<Longrightarrow> t \<notin> set (wc_threads s v)"
proof -
  have sl: "th_is s t S_SLEEP" using sched_invD(6) [OF assms] .
  then show "t \<notin> set (c_runqueue (cpus s c))" "t \<notin> set (c_zombies (cpus s c))"
    using sched_invD(4,5) [OF assms(1)] th_is_unique by fastforce+
  show "v \<noteq> w \<Longrightarrow> t \<notin> set (wc_threads s v)" using sched_invD(7) [OF assms] by blast
qed

lemma wakeone_inv:
  assumes "wchan_wakeone me wc lk s = Done s'" "sched_inv {} s" "wc_threads s wc = t # ts"
  shows "sched_inv {} s' \<and> wc_threads s' = (wc_threads s)(wc := ts) \<and> th_is s' t S_READY \<and>
    th_cpu s t \<noteq> None \<and>
    (\<forall>d. c_runqueue (cpus s' d) = c_runqueue (cpus s d) @ (if th_cpu s t = Some d then [t] else []))"
proof -
  let ?s = "s\<lparr>wc_threads := (wc_threads s)(wc := ts)\<rparr>"
  have mr: "thread_make_runnable me t False ?s = Done s'"
    using assms(1,3) by (auto simp: wchan_wakeone_def split: if_splits)
  note d = sched_invD [OF assms(2)]
  have t: "t \<in> set (wc_threads s wc)" "t \<notin> set ts" using assms(3) d(3) [of wc] by auto
  have i: "sched_inv {} ?s"
  proof (rule sched_inv_queues [OF assms(2)])
    show "distinct (wc_threads ?s w)" for w using d(3) [of w] d(3) [of wc] assms(3) by (cases "w = wc") auto
    show "u \<in> set (wc_threads s w) \<or> th_is s u S_SLEEP" if "u \<in> set (wc_threads ?s w)" for w u
      using that assms(3) by (cases "w = wc") auto
    show "w = v" if "u \<in> set (wc_threads ?s w)" "u \<in> set (wc_threads ?s v)" for w v u
      using that assms(3) d(7) by (cases "w = wc"; cases "v = wc") auto
  qed (use d in auto)
  have u: "unqueued ?s t"
    using sleeping_only_here [OF assms(2) t(1)] t(2) by (auto simp: unqueued_def fun_upd_apply)
  have "\<not> running {} ?s t" using sleeping_not_running [OF assms(2) t(1)] by (simp add: running_def)
  from make_runnable_inv [OF mr i u this] show ?thesis by (simp add: th_cpu_def)
qed

lemma make_all_runnable_inv:
  assumes "make_all_runnable me ts s = Done s'" "sched_inv {} s" "distinct ts"
    "\<forall>t\<in>set ts. unqueued s t \<and> \<not> running {} s t"
  shows "sched_inv {} s' \<and> wc_threads s' = wc_threads s \<and> (\<forall>t\<in>set ts. th_is s' t S_READY) \<and>
    (\<forall>d. c_runqueue (cpus s' d) = c_runqueue (cpus s d) @ filter (\<lambda>t. th_cpu s t = Some d) ts)"
  using assms
proof (induction me ts s rule: make_all_runnable.induct)
  case (2 me t ts s)
  obtain s1 where s1: "thread_make_runnable me t False s = Done s1" "make_all_runnable me ts s1 = Done s'"
    using 2(2) by (auto simp: obind_Done_iff)
  note m = make_runnable_inv [OF s1(1) 2(3)] and dt = 2(4)
  have m': "sched_inv {} s1" "wc_threads s1 = wc_threads s" "numcpus s1 = numcpus s" "th_is s1 t S_READY"
    "\<And>d. c_runqueue (cpus s1 d) = c_runqueue (cpus s d) @ (if th_cpu s t = Some d then [t] else [])"
    "\<And>u. u \<noteq> t \<Longrightarrow> threads s1 u = threads s u"
    "\<And>d. c_isidle (cpus s1 d) = c_isidle (cpus s d)" "\<And>d. c_curthread (cpus s1 d) = c_curthread (cpus s d)"
    "\<And>d. c_zombies (cpus s1 d) = c_zombies (cpus s d)"
    using m 2(5) by auto
  have "unqueued s1 u \<and> \<not> running {} s1 u" if "u \<in> set ts" for u
    using that 2(4,5) by (auto simp: unqueued_def running_def m')
  then have ih: "sched_inv {} s' \<and> wc_threads s' = wc_threads s1 \<and> (\<forall>t\<in>set ts. th_is s' t S_READY) \<and>
    (\<forall>d. c_runqueue (cpus s' d) = c_runqueue (cpus s1 d) @ filter (\<lambda>t. th_cpu s1 t = Some d) ts)"
    using 2(1) [OF s1(1,2) m'(1)] 2(4) by simp
  have cpu: "filter (\<lambda>u. th_cpu s1 u = Some d) ts = filter (\<lambda>u. th_cpu s u = Some d) ts" for d
  proof (rule filter_cong [OF refl])
    fix u assume "u \<in> set ts"
    then have "u \<noteq> t" using 2(4) by auto
    then show "(th_cpu s1 u = Some d) = (th_cpu s u = Some d)" by (simp add: th_cpu_def m'(6))
  qed
  have "th_cpu s t \<noteq> None" using m 2(5) by auto
  then obtain c where c: "th_cpu s t = Some c" by auto
  have "t \<in> set (c_runqueue (cpus s' c))" using ih m'(5) c by simp
  then have "th_is s' t S_READY" using ih sched_invD(4) by blast
  then show ?case using ih m'(2,5) cpu by simp
qed auto

lemma wakeall_inv:
  assumes "wchan_wakeall me wc lk s = Done s'" "sched_inv {} s"
  shows "sched_inv {} s' \<and> wc_threads s' = (wc_threads s)(wc := []) \<and>
    (\<forall>t\<in>set (wc_threads s wc). th_is s' t S_READY) \<and>
    (\<forall>d. c_runqueue (cpus s' d) = c_runqueue (cpus s d) @ filter (\<lambda>t. th_cpu s t = Some d) (wc_threads s wc))"
proof -
  let ?s = "s\<lparr>wc_threads := (wc_threads s)(wc := [])\<rparr>"
  have mr: "make_all_runnable me (wc_threads s wc) ?s = Done s'"
    using assms(1) by (auto simp: wchan_wakeall_def split: if_splits)
  note d = sched_invD [OF assms(2)]
  have i: "sched_inv {} ?s"
  proof (rule sched_inv_queues [OF assms(2)])
    show "distinct (wc_threads ?s w)" for w using d(3) [of w] by (cases "w = wc") auto
    show "u \<in> set (wc_threads s w) \<or> th_is s u S_SLEEP" if "u \<in> set (wc_threads ?s w)" for w u
      using that by (cases "w = wc") auto
    show "w = v" if "u \<in> set (wc_threads ?s w)" "u \<in> set (wc_threads ?s v)" for w v u
      using that d(7) by (cases "w = wc"; cases "v = wc") auto
  qed (use d in auto)
  have "unqueued ?s t \<and> \<not> running {} ?s t" if "t \<in> set (wc_threads s wc)" for t
    using sleeping_only_here [OF assms(2) that] sleeping_not_running [OF assms(2) that]
    by (auto simp: unqueued_def running_def fun_upd_apply)
  from make_all_runnable_inv [OF mr i d(3)] this show ?thesis by (simp add: th_cpu_def)
qed

text \<open>Leaving the processor.\<close>

lemma upd_thread_sel:
  assumes "upd_thread t f s = Done s'"
  obtains th where "threads s t = Some th" "s' = s\<lparr>threads := (threads s)(t \<mapsto> f th)\<rparr>"
  using assms by (auto simp: upd_thread_def obind_Done_iff deref_Done_iff)

lemma idle_inv:
  assumes "sched_inv {me} s" "me < numcpus s"
  shows "sched_inv {} (upd_cpu me (\<lambda>c. c\<lparr>c_isidle := True\<rparr>) s)"
proof (rule sched_inv_queues [OF assms(1)])
  fix c assume "c < numcpus s" "\<not> c_isidle (cpus (upd_cpu me (\<lambda>c. c\<lparr>c_isidle := True\<rparr>) s) c)"
  then show "c \<notin> {me} \<and> \<not> c_isidle (cpus s c) \<and>
      c_curthread (cpus (upd_cpu me (\<lambda>c. c\<lparr>c_isidle := True\<rparr>) s) c) = c_curthread (cpus s c)"
    by (cases "c = me") (simp_all add: upd_cpu_def)
next
  have q: "c_runqueue (cpus (upd_cpu me (\<lambda>c. c\<lparr>c_isidle := True\<rparr>) s) c) = c_runqueue (cpus s c)"
    "c_zombies (cpus (upd_cpu me (\<lambda>c. c\<lparr>c_isidle := True\<rparr>) s) c) = c_zombies (cpus s c)" for c
    by (cases "c = me"; simp add: upd_cpu_def)+
  note d = sched_invD [OF assms(1)]
  show "distinct (c_runqueue (cpus (upd_cpu me (\<lambda>c. c\<lparr>c_isidle := True\<rparr>) s) c))" for c using q d by simp
  show "distinct (c_zombies (cpus (upd_cpu me (\<lambda>c. c\<lparr>c_isidle := True\<rparr>) s) c))" for c using q d by simp
  show "t \<in> set (c_runqueue (cpus s c)) \<or> th_is s t S_READY \<and> th_cpu s t = Some c"
    if "t \<in> set (c_runqueue (cpus (upd_cpu me (\<lambda>c. c\<lparr>c_isidle := True\<rparr>) s) c))" for c t using q that by simp
  show "t \<in> set (c_zombies (cpus s c)) \<or> th_is s t S_ZOMBIE \<and> th_cpu s t = Some c"
    if "t \<in> set (c_zombies (cpus (upd_cpu me (\<lambda>c. c\<lparr>c_isidle := True\<rparr>) s) c))" for c t using q that by simp
qed (use sched_invD(3,7) [OF assms(1)] in \<open>auto simp: upd_cpu_def\<close>)

lemma sched_inv_mono: "sched_inv A s \<Longrightarrow> A \<subseteq> B \<Longrightarrow> sched_inv B s"
  unfolding sched_inv_def by blast

text \<open>The current thread put on a wait channel or among the zombies.\<close>

lemma sleep_inv:
  assumes "sched_inv A s" "unqueued s t" "th_is s t S_SLEEP"
  shows "sched_inv A (s\<lparr>wc_threads := (wc_threads s)(wc := wc_threads s wc @ [t])\<rparr>)"
proof (rule sched_inv_queues [OF assms(1)])
  let ?s = "s\<lparr>wc_threads := (wc_threads s)(wc := wc_threads s wc @ [t])\<rparr>"
  note d = sched_invD [OF assms(1)]
  have n: "t \<notin> set (wc_threads s w)" for w using assms(2) by (simp add: unqueued_def)
  show "distinct (wc_threads ?s w)" for w using d(3) [of w] n by (cases "w = wc") auto
  show "u \<in> set (wc_threads s w) \<or> th_is s u S_SLEEP" if "u \<in> set (wc_threads ?s w)" for w u
    using that assms(3) by (cases "w = wc") auto
  show "w = v" if "u \<in> set (wc_threads ?s w)" "u \<in> set (wc_threads ?s v)" for w v u
    using that d(7) n by (cases "w = wc"; cases "v = wc") auto
qed (use sched_invD [OF assms(1)] in auto)

lemma zombie_inv:
  assumes "sched_inv A s" "unqueued s t" "th_is s t S_ZOMBIE" "th_cpu s t = Some me"
  shows "sched_inv A (upd_cpu me (\<lambda>c. c\<lparr>c_zombies := c_zombies c @ [t]\<rparr>) s)"
proof -
  let ?s = "upd_cpu me (\<lambda>c. c\<lparr>c_zombies := c_zombies c @ [t]\<rparr>) s"
  have q: "c_runqueue (cpus ?s c) = c_runqueue (cpus s c)"
    "c_zombies (cpus ?s c) = (if c = me then c_zombies (cpus s c) @ [t] else c_zombies (cpus s c))"
    "c_isidle (cpus ?s c) = c_isidle (cpus s c)" "c_curthread (cpus ?s c) = c_curthread (cpus s c)"
    "wc_threads ?s = wc_threads s" "threads ?s = threads s" "numcpus ?s = numcpus s" for c
    by (cases "c = me"; simp add: upd_cpu_def)+
  note d = sched_invD [OF assms(1)]
  show ?thesis
    by (rule sched_inv_queues [OF assms(1)])
      (use d assms(2-4) in \<open>auto simp: q unqueued_def split: if_splits\<close>)
qed

lemma current_alone:
  assumes "sched_inv {} s" "me < numcpus s" "\<not> c_isidle (cpus s me)"
  shows "unqueued s (c_curthread (cpus s me))" "\<not> running {me} s (c_curthread (cpus s me))"
    "th_cpu s (c_curthread (cpus s me)) = Some me"
proof -
  show cpu: "th_cpu s (c_curthread (cpus s me)) = Some me" using sched_invD(8) [OF assms(1,2)] assms(3) by simp
  show "unqueued s (c_curthread (cpus s me))" using running_unqueued [OF assms(1,2)] assms(3) by simp
  have "c = me" if "c < numcpus s" "\<not> c_isidle (cpus s c)" "c_curthread (cpus s c) = c_curthread (cpus s me)" for c
    using sched_invD(8) [OF assms(1) that(1)] that(2,3) cpu by simp
  then show "\<not> running {me} s (c_curthread (cpus s me))" by (auto simp: running_def)
qed

text \<open>The current thread may change state while its processor is in the middle of a switch.\<close>

lemma current_upd_inv:
  assumes "sched_inv {} s" "me < numcpus s" "\<not> c_isidle (cpus s me)" "cur = c_curthread (cpus s me)"
    "threads s cur = Some th" "t_cpu th' = t_cpu th"
  shows "sched_inv {me} (s\<lparr>threads := (threads s)(cur \<mapsto> th')\<rparr>)"
    "unqueued (s\<lparr>threads := (threads s)(cur \<mapsto> th')\<rparr>) cur"
    "th_cpu (s\<lparr>threads := (threads s)(cur \<mapsto> th')\<rparr>) cur = Some me"
proof -
  note a = current_alone [OF assms(1-3), folded assms(4)]
  have "upd_thread cur (\<lambda>_. th') s = Done (s\<lparr>threads := (threads s)(cur \<mapsto> th')\<rparr>)"
    by (simp add: upd_thread_def assms(5))
  from upd_thread_inv [OF this sched_inv_mono [OF assms(1)] a(1,2)]
  show "sched_inv {me} (s\<lparr>threads := (threads s)(cur \<mapsto> th')\<rparr>)"
    "unqueued (s\<lparr>threads := (threads s)(cur \<mapsto> th')\<rparr>) cur" by auto
  show "th_cpu (s\<lparr>threads := (threads s)(cur \<mapsto> th')\<rparr>) cur = Some me"
    using a(3) assms(5,6) by (simp add: th_cpu_def)
qed

lemma switch_out_sleep:
  assumes "thread_switch_out me S_SLEEP wc lk s = Done (Switching, s')" "sched_inv {} s" "me < numcpus s"
  shows "sched_inv {} s' \<and> c_isidle (cpus s' me) \<and>
    wc_threads s' = (wc_threads s)(wc := wc_threads s wc @ [c_curthread (cpus s me)]) \<and>
    (\<forall>c. c_runqueue (cpus s' c) = c_runqueue (cpus s c)) \<and> numcpus s' = numcpus s \<and>
    splk_holder s' lk = None"
proof -
  define cur where "cur = c_curthread (cpus s me)"
  have idle: "\<not> c_isidle (cpus s me)" using assms(1) by (auto simp: thread_switch_out_def Let_def split: if_splits)
  obtain s1 where s1: "splk_acquire me (RunqueueLock me) s = Done s1"
    using assms(1) idle by (auto simp: thread_switch_out_def Let_def obind_Done_iff)
  have q1: "same_queues s s1" using splk_acquire_same [OF s1] .
  obtain s2 s4 s5 where s2: "upd_thread cur (\<lambda>th. th\<lparr>t_wchan_name := Some (wc_name s1 wc)\<rparr>) s1 = Done s2"
    and s4: "splk_release me lk (s2\<lparr>wc_threads := (wc_threads s2)(wc := wc_threads s2 wc @ [cur])\<rparr>) = Done s4"
    and s5: "upd_thread cur (\<lambda>th. th\<lparr>t_state := S_SLEEP\<rparr>) s4 = Done s5"
    and s': "s' = upd_cpu me (\<lambda>c. c\<lparr>c_isidle := True\<rparr>) s5"
    using assms(1) idle s1 by (auto simp: thread_switch_out_def Let_def obind_Done_iff cur_def)
  obtain th where th: "threads s1 cur = Some th"
    "s2 = s1\<lparr>threads := (threads s1)(cur \<mapsto> th\<lparr>t_wchan_name := Some (wc_name s1 wc)\<rparr>)\<rparr>"
    using s2 by (rule upd_thread_sel)
  note q4 = splk_release_same [OF s4]
  let ?th = "th\<lparr>t_wchan_name := Some (wc_name s1 wc), t_state := S_SLEEP\<rparr>"
  let ?u = "s\<lparr>threads := (threads s)(cur \<mapsto> ?th)\<rparr>"
  let ?v = "?u\<lparr>wc_threads := (wc_threads ?u)(wc := wc_threads ?u wc @ [cur])\<rparr>"
  have t0: "threads s cur = Some th" using th q1 by (simp add: same_queues_def)
  have h4: "splk_holder s4 lk = None" using s4 by (auto simp: splk_release_def upd_cpu_def split: if_splits)
  have "same_queues ?v s5 \<and> splk_holder s5 = splk_holder s4" using s5 q1 q4 th
    by (auto simp: upd_thread_def obind_Done_iff deref_Done_iff same_queues_def)
  note qv = conjunct1 [OF this] and h5 = conjunct2 [OF this]
  note c = current_upd_inv [OF assms(2,3) idle cur_def t0, of ?th]
  have "sched_inv {me} ?v" using c by (intro sleep_inv) (auto simp: th_is_def)
  then have "sched_inv {me} s5" using same_queues_inv [OF qv] by simp
  moreover have "numcpus s5 = numcpus s" using qv by (simp add: same_queues_def)
  ultimately have "sched_inv {} s'" using idle_inv assms(3) s' by simp
  moreover have "c_runqueue (cpus s' c) = c_runqueue (cpus s c)" for c
    using qv by (cases "c = me") (simp_all add: s' upd_cpu_def same_queues_def)
  ultimately show ?thesis using qv h4 h5 by (simp add: s' upd_cpu_def same_queues_def cur_def)
qed

lemma switch_out_zombie:
  assumes "thread_switch_out me S_ZOMBIE wc lk s = Done (Switching, s')" "sched_inv {} s" "me < numcpus s"
  shows "sched_inv {} s' \<and> c_isidle (cpus s' me) \<and> wc_threads s' = wc_threads s \<and>
    (\<forall>c. c_runqueue (cpus s' c) = c_runqueue (cpus s c)) \<and> numcpus s' = numcpus s"
proof -
  define cur where "cur = c_curthread (cpus s me)"
  have idle: "\<not> c_isidle (cpus s me)" using assms(1) by (auto simp: thread_switch_out_def Let_def split: if_splits)
  obtain s1 where s1: "splk_acquire me (RunqueueLock me) s = Done s1"
    using assms(1) idle by (auto simp: thread_switch_out_def Let_def obind_Done_iff)
  have q1: "same_queues s s1" using splk_acquire_same [OF s1] .
  obtain s2 s5 where s2: "upd_thread cur (\<lambda>th. th\<lparr>t_wchan_name := Some ''ZOMBIE''\<rparr>) s1 = Done s2"
    and s5: "upd_thread cur (\<lambda>th. th\<lparr>t_state := S_ZOMBIE\<rparr>)
        (upd_cpu me (\<lambda>c. c\<lparr>c_zombies := c_zombies c @ [cur]\<rparr>) s2) = Done s5"
    and s': "s' = upd_cpu me (\<lambda>c. c\<lparr>c_isidle := True\<rparr>) s5"
    using assms(1) idle s1 by (auto simp: thread_switch_out_def Let_def obind_Done_iff cur_def)
  obtain th where th: "threads s1 cur = Some th"
    "s2 = s1\<lparr>threads := (threads s1)(cur \<mapsto> th\<lparr>t_wchan_name := Some ''ZOMBIE''\<rparr>)\<rparr>"
    using s2 by (rule upd_thread_sel)
  let ?th = "th\<lparr>t_wchan_name := Some ''ZOMBIE'', t_state := S_ZOMBIE\<rparr>"
  let ?u = "s1\<lparr>threads := (threads s1)(cur \<mapsto> ?th)\<rparr>"
  have s5': "s5 = upd_cpu me (\<lambda>c. c\<lparr>c_zombies := c_zombies c @ [cur]\<rparr>) ?u" using s5 th
    by (auto simp: upd_thread_def obind_Done_iff deref_Done_iff upd_cpu_def)
  have i1: "sched_inv {} s1" "me < numcpus s1" "\<not> c_isidle (cpus s1 me)" "cur = c_curthread (cpus s1 me)"
    using same_queues_inv [OF q1] assms(2,3) idle q1 by (auto simp: same_queues_def cur_def)
  note c = current_upd_inv [OF i1 th(1), of ?th]
  have "sched_inv {me} s5" unfolding s5' using c by (intro zombie_inv) (auto simp: th_is_def)
  moreover have "numcpus s5 = numcpus s" using q1 by (simp add: same_queues_def s5' upd_cpu_def)
  ultimately have "sched_inv {} s'" using idle_inv assms(3) s' by simp
  moreover have "c_runqueue (cpus s' c) = c_runqueue (cpus s c)" for c
    using q1 by (cases "c = me") (simp_all add: s' s5' upd_cpu_def same_queues_def)
  ultimately show ?thesis using q1 by (simp add: s' s5' upd_cpu_def same_queues_def)
qed

lemma switch_out_ready:
  assumes "thread_switch_out me S_READY wc lk s = Done (Switching, s')" "sched_inv {} s" "me < numcpus s"
  shows "sched_inv {} s' \<and> c_isidle (cpus s' me) \<and> wc_threads s' = wc_threads s \<and>
    (\<forall>c. c_runqueue (cpus s' c) =
       c_runqueue (cpus s c) @ (if c = me then [c_curthread (cpus s me)] else [])) \<and> numcpus s' = numcpus s"
proof -
  define cur where "cur = c_curthread (cpus s me)"
  have idle: "\<not> c_isidle (cpus s me)" using assms(1) by (auto simp: thread_switch_out_def Let_def split: if_splits)
  obtain s1 where s1: "splk_acquire me (RunqueueLock me) s = Done s1"
    using assms(1) idle by (auto simp: thread_switch_out_def Let_def obind_Done_iff)
  have q1: "same_queues s s1" using splk_acquire_same [OF s1] .
  have ne: "c_runqueue (cpus s1 me) \<noteq> []" using assms(1) idle s1
    by (auto simp: thread_switch_out_def Let_def obind_Done_iff)
  obtain s3 s5 where s3: "thread_make_runnable me cur True s1 = Done s3"
    and s5: "upd_thread cur (\<lambda>th. th\<lparr>t_state := S_READY\<rparr>) s3 = Done s5"
    and s': "s' = upd_cpu me (\<lambda>c. c\<lparr>c_isidle := True\<rparr>) s5"
    using assms(1) idle s1 ne by (auto simp: thread_switch_out_def Let_def obind_Done_iff cur_def)
  have i1: "sched_inv {} s1" "me < numcpus s1" "\<not> c_isidle (cpus s1 me)" "cur = c_curthread (cpus s1 me)"
    using same_queues_inv [OF q1] assms(2,3) idle q1 by (auto simp: same_queues_def cur_def)
  note a = current_alone [OF i1(1-3), folded i1(4)]
  note m = make_runnable_inv [OF s3 sched_inv_mono [OF i1(1)] a(1,2)]
  have "s5 = s3"
  proof -
    obtain th where "threads s3 cur = Some th" "t_state th = S_READY" using m by (auto simp: th_is_def)
    then have "th\<lparr>t_state := S_READY\<rparr> = th" "(threads s3)(cur \<mapsto> th) = threads s3"
      by (simp_all add: map_upd_triv)
    then show ?thesis using s5 \<open>threads s3 cur = Some th\<close> by (simp add: upd_thread_def)
  qed
  moreover have "sched_inv {me} s3" "numcpus s3 = numcpus s" using m q1 by (simp_all add: same_queues_def)
  ultimately have "sched_inv {} s'" using idle_inv assms(3) s' by simp
  moreover have "c_runqueue (cpus s' c) = c_runqueue (cpus s c) @ (if c = me then [cur] else [])" for c
    using m q1 a(3) \<open>s5 = s3\<close> by (cases "c = me") (simp_all add: s' upd_cpu_def same_queues_def)
  ultimately show ?thesis using m q1 \<open>s5 = s3\<close> by (simp add: s' upd_cpu_def same_queues_def cur_def)
qed

text \<open>Coming back to the processor.\<close>

lemma switch_pick_inv:
  assumes "switch_pick me s = Done (Some t, s')" "sched_inv {} s"
  shows "sched_inv {me} s' \<and> unqueued s' t \<and> \<not> running {me} s' t \<and> th_is s' t S_READY \<and> th_cpu s' t = Some me \<and>
    c_curthread (cpus s' me) = t \<and> \<not> c_isidle (cpus s' me) \<and> c_runqueue (cpus s me) = t # c_runqueue (cpus s' me) \<and>
    numcpus s' = numcpus s \<and> wc_threads s' = wc_threads s \<and> splk_holder s' = splk_holder s"
proof -
  obtain ts where ts: "c_runqueue (cpus s me) = t # ts"
    and s': "s' = upd_cpu me (\<lambda>c. c\<lparr>c_runqueue := ts, c_isidle := False, c_curthread := t\<rparr>) s"
    using assms(1) by (auto simp: switch_pick_def obind_Done_iff split: list.splits)
  have sel: "c_runqueue (cpus s' c) = (if c = me then ts else c_runqueue (cpus s c))"
    "c_zombies (cpus s' c) = c_zombies (cpus s c)" "c \<noteq> me \<Longrightarrow> cpus s' c = cpus s c"
    "threads s' = threads s" "numcpus s' = numcpus s" "wc_threads s' = wc_threads s" for c
    by (cases "c = me"; simp add: s' upd_cpu_def)+
  note d = sched_invD [OF assms(2)]
  have r: "th_is s t S_READY" "th_cpu s t = Some me" "t \<notin> set ts"
    using d(4) [of t me] d(1) [of me] ts by auto
  have "sched_inv {me} s'"
  proof (rule sched_inv_queues [OF assms(2)])
    show "distinct (c_runqueue (cpus s' c))" for c using d(1) [of c] ts by (auto simp: sel)
    show "u \<in> set (c_runqueue (cpus s c)) \<or> th_is s u S_READY \<and> th_cpu s u = Some c"
      if "u \<in> set (c_runqueue (cpus s' c))" for c u using that ts by (auto simp: sel split: if_splits)
  qed (use d in \<open>auto simp: sel\<close>)
  moreover have "t \<notin> set (c_runqueue (cpus s c))" if "c \<noteq> me" for c
    using d(4) [of t c] r(2) that by auto
  moreover have "t \<notin> set (c_zombies (cpus s c))" "t \<notin> set (wc_threads s w)" for c w
    using d(5) [of t c] d(6) [of t w] th_is_unique [OF r(1)] by blast+
  moreover have "c_curthread (cpus s c) \<noteq> t" if "c < numcpus s" "\<not> c_isidle (cpus s c)" for c
    using d(8) [OF that(1)] that(2) th_is_unique [OF r(1), of S_RUN] by auto
  ultimately show ?thesis using r ts
    by (auto simp: unqueued_def running_def sel th_is_def th_cpu_def s' upd_cpu_def fun_upd_apply)
qed

lemma sched_inv_close:
  assumes "sched_inv {me} s" "th_is s (c_curthread (cpus s me)) S_RUN" "th_cpu s (c_curthread (cpus s me)) = Some me"
  shows "sched_inv {} s"
proof (rule sched_invI)
  fix c assume "c < numcpus s" "\<not> c_isidle (cpus s c)"
  then show "th_is s (c_curthread (cpus s c)) S_RUN \<and> th_cpu s (c_curthread (cpus s c)) = Some c"
    using sched_invD(8) [OF assms(1)] assms(2,3) by (cases "c = me") auto
qed (use sched_invD [OF assms(1)] in blast)+

lemma resume_inv:
  assumes "sched_inv {me} s" "unqueued s t" "\<not> running {me} s t" "c_curthread (cpus s me) = t"
    "th_cpu s t = Some me" "threads s t = Some th"
  shows "sched_inv {} (s\<lparr>threads := (threads s)(t \<mapsto> th\<lparr>t_wchan_name := None, t_state := S_RUN\<rparr>)\<rparr>)"
proof -
  let ?th = "th\<lparr>t_wchan_name := None, t_state := S_RUN\<rparr>"
  let ?s = "s\<lparr>threads := (threads s)(t \<mapsto> ?th)\<rparr>"
  have "upd_thread t (\<lambda>th. th\<lparr>t_wchan_name := None, t_state := S_RUN\<rparr>) s = Done ?s"
    by (simp add: upd_thread_def assms(6))
  from upd_thread_inv [OF this assms(1-3)] have i: "sched_inv {me} ?s" by simp
  have "th_is ?s t S_RUN" "th_cpu ?s t = Some me" using assms(5,6) by (simp_all add: th_is_def th_cpu_def)
  then show ?thesis using sched_inv_close [OF i] assms(4) by simp
qed

text \<open>Burying the zombies of this processor.\<close>

lemma bury_inv:
  assumes "sched_inv {} s" "c_zombies (cpus s me) = z # zs"
    "thread_destroy me z (upd_cpu me (\<lambda>c. c\<lparr>c_zombies := zs\<rparr>) s) = Done s'"
  shows "sched_inv {} s' \<and> c_zombies (cpus s' me) = zs \<and> wc_threads s' = wc_threads s \<and> numcpus s' = numcpus s \<and>
    (\<forall>c. c_runqueue (cpus s' c) = c_runqueue (cpus s c))"
proof -
  let ?s = "upd_cpu me (\<lambda>c. c\<lparr>c_zombies := zs\<rparr>) s"
  obtain h where s': "s' = ?s\<lparr>heap := h, threads := (threads ?s)(z := None)\<rparr>"
    using assms(3) by (auto simp: thread_destroy_def obind_Done_iff split: if_splits)
  have sel: "c_zombies (cpus ?s c) = (if c = me then zs else c_zombies (cpus s c))"
    "c_runqueue (cpus ?s c) = c_runqueue (cpus s c)" "c_isidle (cpus ?s c) = c_isidle (cpus s c)"
    "c_curthread (cpus ?s c) = c_curthread (cpus s c)" for c
    by (cases "c = me"; simp add: upd_cpu_def)+
  have sel': "threads ?s = threads s" "wc_threads ?s = wc_threads s" "numcpus ?s = numcpus s"
    by (simp_all add: upd_cpu_def)
  note d = sched_invD [OF assms(1)]
  have z: "th_is s z S_ZOMBIE" "th_cpu s z = Some me" "z \<notin> set zs"
    using d(5) [of z me] d(2) [of me] assms(2) by auto
  have i: "sched_inv {} ?s"
  proof (rule sched_inv_queues [OF assms(1)])
    show "distinct (c_zombies (cpus ?s c))" for c using d(2) [of c] assms(2) by (auto simp: sel)
    show "u \<in> set (c_zombies (cpus s c)) \<or> th_is s u S_ZOMBIE \<and> th_cpu s u = Some c"
      if "u \<in> set (c_zombies (cpus ?s c))" for c u using that assms(2) by (auto simp: sel split: if_splits)
  qed (use d in \<open>auto simp: sel sel'\<close>)
  have "z \<notin> set (c_runqueue (cpus s c))" "z \<notin> set (wc_threads s w)" for c w
    using d(4) [of z c] d(6) [of z w] th_is_unique [OF z(1)] by blast+
  moreover have "z \<notin> set (c_zombies (cpus ?s c))" for c
    using d(5) [of z c] z(2,3) by (auto simp: sel)
  ultimately have u: "unqueued ?s z" by (simp add: unqueued_def sel sel')
  have "c_curthread (cpus s c) \<noteq> z" if "c < numcpus s" "\<not> c_isidle (cpus s c)" for c
    using d(8) [OF that(1)] that(2) th_is_unique [OF z(1), of S_RUN] by auto
  then have r: "\<not> running {} ?s z" by (auto simp: running_def sel sel')
  have "sched_inv {} s'"
    by (rule sched_inv_threads [OF i]) (use u r in \<open>auto simp: s' fun_upd_apply\<close>)
  then show ?thesis by (simp add: s' sel sel')
qed

lemma exorcise_inv:
  assumes "exorcise_list me zs s = Done s'" "sched_inv {} s" "c_zombies (cpus s me) = zs"
  shows "sched_inv {} s' \<and> c_zombies (cpus s' me) = [] \<and> wc_threads s' = wc_threads s \<and> numcpus s' = numcpus s \<and>
    (\<forall>c. c_runqueue (cpus s' c) = c_runqueue (cpus s c))"
  using assms
proof (induction zs arbitrary: s)
  case (Cons z zs)
  obtain th s1 where s1: "threads (upd_cpu me (\<lambda>c. c\<lparr>c_zombies := zs\<rparr>) s) z = Some th" "t_state th = S_ZOMBIE"
    "thread_destroy me z (upd_cpu me (\<lambda>c. c\<lparr>c_zombies := zs\<rparr>) s) = Done s1" "exorcise_list me zs s1 = Done s'"
    using Cons.prems(1) by (auto simp: Let_def obind_Done_iff deref_Done_iff split: if_splits)
  note b = bury_inv [OF Cons.prems(2,3) s1(3)]
  then show ?case using Cons.IH [OF s1(4)] by simp
qed auto

lemma switch_in_inv:
  assumes "thread_switch_in me s = Done s'" "sched_inv {me} s" "unqueued s t" "\<not> running {me} s t"
    "c_curthread (cpus s me) = t" "th_cpu s t = Some me"
  shows "sched_inv {} s' \<and> c_zombies (cpus s' me) = [] \<and> wc_threads s' = wc_threads s \<and> numcpus s' = numcpus s \<and>
    (\<forall>c. c_runqueue (cpus s' c) = c_runqueue (cpus s c))"
proof -
  obtain s1 s2 where s1: "upd_thread t (\<lambda>th. th\<lparr>t_wchan_name := None, t_state := S_RUN\<rparr>) s = Done s1"
    and s2: "splk_release me (RunqueueLock me) s1 = Done s2" and s3: "exorcise me s2 = Done s'"
    using assms(1,5) by (auto simp: thread_switch_in_def Let_def obind_Done_iff)
  obtain th where th: "threads s t = Some th"
    "s1 = s\<lparr>threads := (threads s)(t \<mapsto> th\<lparr>t_wchan_name := None, t_state := S_RUN\<rparr>)\<rparr>"
    using s1 by (rule upd_thread_sel)
  have i1: "sched_inv {} s1" using resume_inv [OF assms(2-6) th(1)] th(2) by simp
  note q = splk_release_same [OF s2]
  have "sched_inv {} s2" using same_queues_inv [OF q] i1 by simp
  from exorcise_inv [OF s3 [unfolded exorcise_def] this refl]
  show ?thesis using q th(2) by (simp add: same_queues_def)
qed

lemma switch_out_returned:
  assumes "thread_switch_out me st wc lk s = Done (Returned, s')"
  shows "same_queues s s'"
proof (cases "c_isidle (cpus s me)")
  case True
  then show ?thesis using assms by (simp add: thread_switch_out_def Let_def)
next
  case False
  obtain s1 where s1: "splk_acquire me (RunqueueLock me) s = Done s1"
    using assms False by (auto simp: thread_switch_out_def Let_def obind_Done_iff)
  have "splk_release me (RunqueueLock me) s1 = Done s'"
    using assms False s1 by (auto simp: thread_switch_out_def Let_def obind_Done_iff split: if_splits)
  then show ?thesis using splk_acquire_same [OF s1] splk_release_same same_queues_trans by blast
qed

lemma switch_out_inv:
  assumes "thread_switch_out me st wc lk s = Done (r, s')" "sched_inv {} s" "me < numcpus s"
  shows "sched_inv {} s' \<and> numcpus s' = numcpus s"
proof (cases r)
  case Returned
  then show ?thesis using switch_out_returned assms same_queues_inv(1) by (metis same_queues_def)
next
  case Switching
  have "st \<noteq> S_RUN" using assms(1) Switching
    by (auto simp: thread_switch_out_def Let_def obind_Done_iff split: if_splits)
  then show ?thesis using assms Switching switch_out_sleep switch_out_ready switch_out_zombie
    by (cases st) blast+
qed

lemma thread_switch_inv:
  assumes "thread_switch me st wc lk s = Done s'" "sched_inv {} s" "me < numcpus s"
  shows "sched_inv {} s' \<and> numcpus s' = numcpus s"
proof -
  obtain r s1 where r: "thread_switch_out me st wc lk s = Done (r, s1)"
    using assms(1) by (auto simp: thread_switch_def obind_Done_iff)
  have i: "sched_inv {} s1" "numcpus s1 = numcpus s" using switch_out_inv [OF r assms(2,3)] by simp_all
  show ?thesis
  proof (cases r)
    case Returned
    then show ?thesis using assms(1) r i by (simp add: thread_switch_def)
  next
    case Switching
    then obtain t s2 where p: "switch_pick me s1 = Done (Some t, s2)" "thread_switch_in me s2 = Done s'"
      using assms(1) r by (auto simp: thread_switch_def obind_Done_iff split: option.splits)
    note q = switch_pick_inv [OF p(1) i(1)]
    then show ?thesis using switch_in_inv [OF p(2), of t] i(2) by simp
  qed
qed

section \<open>Properties\<close>

text \<open>A system of one processor, with thread 0 running, threads 1 and 2 ready and thread 3
  asleep on channel 5.\<close>

definition demo_thread :: "threadstate \<Rightarrow> thread" where
  "demo_thread st = \<lparr>t_name = 0, t_wchan_name = None, t_state = st, t_stack = None, stack_intact = True,
     t_cpu = Some 0, t_proc = None, t_in_interrupt = False\<rparr>"

definition demo_cpu :: "nat list \<Rightarrow> cpu" where
  "demo_cpu q = \<lparr>c_curthread = 0, c_zombies = [], c_spinlocks = 0, c_isidle = False, c_runqueue = q,
     c_ipi_pending = 0, c_shootdown = [], c_halted = False\<rparr>"

definition demo_sys :: sys where
  "demo_sys = \<lparr>threads = [0 \<mapsto> demo_thread S_RUN, 1 \<mapsto> demo_thread S_READY, 2 \<mapsto> demo_thread S_READY,
       3 \<mapsto> demo_thread S_SLEEP], numcpus = 1, cpus = (\<lambda>_. demo_cpu [])(0 := demo_cpu [1, 2]),
     wc_name = (\<lambda>_. []), wc_threads = (\<lambda>_. [])(5 := [3]), splk_holder = Map.empty, p_numthreads = (\<lambda>_. 0),
     heap = \<lparr>kh_next = 0, kh_live = [], kh_avail = (\<lambda>_. True)\<rparr>\<rparr>"

lemma demo_sys_inv: "sched_inv {} demo_sys"
  by (auto simp: sched_inv_def demo_sys_def demo_thread_def demo_cpu_def th_is_def th_cpu_def fun_upd_apply)

lemmas sched_defs = thread_switch_def thread_switch_out_def splk_acquire_def splk_release_def
  thread_make_runnable_def upd_thread_def upd_cpu_def deref_def thread_checkstack_def switch_pick_def
  thread_switch_in_def exorcise_def

lemmas demo_defs = demo_sys_def demo_thread_def demo_cpu_def

text \<open>C27.  \<^verbatim>\<open>thread_yield\<close> is round robin and always comes back: with a ready thread on the queue
  of the processor and its lock free, it gives the processor to the head of the queue, puts
  the caller at the tail, touches no other thread, releases every lock it took and keeps
  every thread in one place.\<close>

theorem thread_yield_round_robin:
  assumes "sched_inv {} s" "me < numcpus s" "\<not> c_isidle (cpus s me)" "c_runqueue (cpus s me) = t # ts"
    "splk_holder s (RunqueueLock me) = None" "c_zombies (cpus s me) = []"
    "thread_checkstack (c_curthread (cpus s me)) s = Done ()"
  shows "\<exists>s'. thread_yield me s = Done s' \<and> sched_inv {} s' \<and> c_curthread (cpus s' me) = t \<and>
    th_is s' t S_RUN \<and> c_runqueue (cpus s' me) = ts @ [c_curthread (cpus s me)] \<and>
    splk_holder s' = splk_holder s \<and> wc_threads s' = wc_threads s \<and>
    (\<forall>u. u \<noteq> t \<and> u \<noteq> c_curthread (cpus s me) \<longrightarrow> threads s' u = threads s u)"
proof -
  let ?cur = "c_curthread (cpus s me)"
  have cur: "th_is s ?cur S_RUN" "th_cpu s ?cur = Some me" using sched_invD(8) [OF assms(1,2)] assms(3) by auto
  have t: "th_is s t S_READY" "th_cpu s t = Some me" using sched_invD(4) [OF assms(1), of t me] assms(4) by auto
  have ne: "t \<noteq> ?cur" using cur(1) t(1) by (auto simp: th_is_def)
  obtain thc tht where th: "threads s ?cur = Some thc" "t_cpu thc = Some me" "threads s t = Some tht"
    using cur t by (auto simp: th_is_def th_cpu_def)
  have "\<exists>s'. thread_yield me s = Done s' \<and> c_curthread (cpus s' me) = t \<and>
    th_is s' t S_RUN \<and> c_runqueue (cpus s' me) = ts @ [c_curthread (cpus s me)] \<and>
    splk_holder s' = splk_holder s \<and> wc_threads s' = wc_threads s \<and>
    (\<forall>u. u \<noteq> t \<and> u \<noteq> c_curthread (cpus s me) \<longrightarrow> threads s' u = threads s u)"
    using assms(3-7) th ne by (simp add: thread_yield_def sched_defs Let_def th_is_def fun_upd_idem)
  moreover from this obtain s' where "thread_yield me s = Done s'" by blast
  moreover from this have "sched_inv {} s'" using thread_switch_inv assms(1,2) by (auto simp: thread_yield_def)
  ultimately show ?thesis by auto
qed

theorem thread_yield_round_robin_witness:
  "\<exists>s'. thread_yield 0 demo_sys = Done s' \<and> c_curthread (cpus s' 0) = 1 \<and> c_runqueue (cpus s' 0) = [2, 0] \<and>
     sched_inv {} s'"
proof -
  have "numcpus demo_sys = 1" "\<not> c_isidle (cpus demo_sys 0)" "c_runqueue (cpus demo_sys 0) = 1 # [2]"
    "splk_holder demo_sys (RunqueueLock 0) = None" "c_zombies (cpus demo_sys 0) = []"
    "thread_checkstack (c_curthread (cpus demo_sys 0)) demo_sys = Done ()" "c_curthread (cpus demo_sys 0) = 0"
    by (simp_all add: demo_defs sched_defs)
  then show ?thesis using thread_yield_round_robin [OF demo_sys_inv, of 0 1 "[2]"] by auto
qed



text \<open>C29.  Waking moves threads from the channel to the run queues of their processors and loses
  none: \<^verbatim>\<open>wchan_wakeone\<close> moves the thread that slept first, \<^verbatim>\<open>wchan_wakeall\<close> moves all of them in
  the order they went to sleep.\<close>

theorem wakeup_moves_sleepers:
  assumes "sched_inv {} s"
  shows "(\<forall>t ts s'. wchan_wakeone me wc lk s = Done s' \<and> wc_threads s wc = t # ts \<longrightarrow>
      sched_inv {} s' \<and> wc_threads s' = (wc_threads s)(wc := ts) \<and> th_is s' t S_READY \<and> th_cpu s t \<noteq> None \<and>
      (\<forall>d. c_runqueue (cpus s' d) = c_runqueue (cpus s d) @ (if th_cpu s t = Some d then [t] else []))) \<and>
    (\<forall>s'. wchan_wakeall me wc lk s = Done s' \<longrightarrow>
      sched_inv {} s' \<and> wc_threads s' = (wc_threads s)(wc := []) \<and>
      (\<forall>t\<in>set (wc_threads s wc). th_is s' t S_READY) \<and>
      (\<forall>d. c_runqueue (cpus s' d) = c_runqueue (cpus s d) @ filter (\<lambda>t. th_cpu s t = Some d) (wc_threads s wc)))"
  using wakeone_inv [OF _ assms] wakeall_inv [OF _ assms] by blast

theorem wakeup_moves_sleepers_witness:
  "\<exists>s'. wchan_wakeone 0 5 (OtherLock 0) (demo_sys\<lparr>splk_holder := [OtherLock 0 \<mapsto> 0]\<rparr>) = Done s' \<and>
     c_runqueue (cpus s' 0) = [1, 2, 3] \<and> wc_threads s' 5 = [] \<and> sched_inv {} s'"
proof -
  let ?s = "demo_sys\<lparr>splk_holder := [OtherLock 0 \<mapsto> 0]\<rparr>"
  have i: "sched_inv {} ?s" using demo_sys_inv by (simp add: sched_inv_def th_is_def th_cpu_def)
  obtain s' where s': "wchan_wakeone 0 5 (OtherLock 0) ?s = Done s'"
    by (simp add: wchan_wakeone_def demo_defs sched_defs)
  have "wc_threads ?s 5 = 3 # []" "th_cpu ?s 3 = Some 0" "c_runqueue (cpus ?s 0) = [1, 2]"
    by (simp_all add: demo_defs th_cpu_def)
  moreover from this have "sched_inv {} s' \<and> wc_threads s' = (wc_threads ?s)(5 := []) \<and>
      c_runqueue (cpus s' 0) = c_runqueue (cpus ?s 0) @ (if th_cpu ?s 3 = Some 0 then [3] else [])"
    using wakeup_moves_sleepers [OF i, of 0 5 "OtherLock 0"] s' by blast
  ultimately show ?thesis using s' by auto
qed

end
