(* ===== verification/Migrate.thy ===== *)
theory Migrate
  imports SchedInv "HOL-Library.Multiset"
begin

text \<open>
  Load balancing between processors (\<^verbatim>\<open>thread_consider_migration\<close> of
  \<^verbatim>\<open>kern/thread/thread.c\<close>): threads are taken from the tail of this processor's run queue
  into a private list and handed to processors below their share.
\<close>

fun count_loads :: "nat \<Rightarrow> nat list \<Rightarrow> nat \<times> nat \<Rightarrow> sys \<Rightarrow> ((nat \<times> nat) \<times> sys) outcome" where
  "count_loads me [] acc s = Done (acc, s)"
| "count_loads me (c # cs) (my_count, total_count) s =
     obind (splk_acquire me (RunqueueLock c) s) (\<lambda>s.
     let n = length (c_runqueue (cpus s c)) in
     obind (splk_release me (RunqueueLock c) s) (\<lambda>s.
     count_loads me cs (if c = me then n else my_count, total_count + n) s))"

text \<open>\<open>threadlist_remtail\<close> of an empty queue is the null pointer, which \<open>threadlist_addhead\<close>
  dereferences.\<close>

fun take_victims :: "nat \<Rightarrow> nat \<Rightarrow> nat list \<Rightarrow> sys \<Rightarrow> (nat list \<times> sys) outcome" where
  "take_victims me 0 victims s = Done (victims, s)"
| "take_victims me (Suc n) victims s =
     (let q = c_runqueue (cpus s me) in
      if q = [] then Stop Fault
      else take_victims me n (last q # victims) (upd_cpu me (\<lambda>c. c\<lparr>c_runqueue := butlast q\<rparr>) s))"

fun fill_cpu :: "nat \<Rightarrow> nat \<Rightarrow> nat \<Rightarrow> nat \<Rightarrow> nat list \<Rightarrow> sys \<Rightarrow> (nat \<times> nat list \<times> sys) outcome" where
  "fill_cpu me c one_share 0 victims s = Done (0, victims, s)"
| "fill_cpu me c one_share (Suc to_send) victims s =
     (if length (c_runqueue (cpus s c)) < one_share then
        (case victims of
           [] \<Rightarrow> Stop Fault
         | t # vs \<Rightarrow>
             if t = c_curthread (cpus s me) then fill_cpu me c one_share to_send (vs @ [t]) s
             else
               obind (upd_thread t (\<lambda>th. th\<lparr>t_cpu := Some c\<rparr>) s) (\<lambda>s.
               let s = upd_cpu c (\<lambda>x. x\<lparr>c_runqueue := c_runqueue x @ [t]\<rparr>) s in
               obind (if c_isidle (cpus s c) then ipi_send me c IPI_UNIDLE s else Done s) (\<lambda>s.
               fill_cpu me c one_share to_send vs s)))
      else Done (Suc to_send, victims, s))"

fun spread :: "nat \<Rightarrow> nat list \<Rightarrow> nat \<Rightarrow> nat \<Rightarrow> nat list \<Rightarrow> sys \<Rightarrow> (nat list \<times> sys) outcome" where
  "spread me [] one_share to_send victims s = Done (victims, s)"
| "spread me (c # cs) one_share to_send victims s =
     (if to_send = 0 then Done (victims, s)
      else if c = me then spread me cs one_share to_send victims s
      else obind (splk_acquire me (RunqueueLock c) s) (\<lambda>s.
           obind (fill_cpu me c one_share to_send victims s) (\<lambda>(to_send, victims, s).
           obind (splk_release me (RunqueueLock c) s) (\<lambda>s.
           spread me cs one_share to_send victims s))))"

definition thread_consider_migration :: "nat \<Rightarrow> sys \<Rightarrow> sys outcome" where
  "thread_consider_migration me s =
     obind (count_loads me [0..<numcpus s] (0, 0) s) (\<lambda>((my_count, total_count), s).
     let one_share = (total_count + numcpus s - 1) div numcpus s in
     if my_count < one_share then Done s
     else
       let to_send = my_count - one_share in
       obind (splk_acquire me (RunqueueLock me) s) (\<lambda>s.
       obind (take_victims me to_send [] s) (\<lambda>(victims, s).
       obind (splk_release me (RunqueueLock me) s) (\<lambda>s.
       obind (spread me [0..<numcpus s] one_share to_send victims s) (\<lambda>(victims, s).
       if victims \<noteq> [] then
         obind (splk_acquire me (RunqueueLock me) s) (\<lambda>s.
         splk_release me (RunqueueLock me)
           (upd_cpu me (\<lambda>c. c\<lparr>c_runqueue := c_runqueue c @ victims\<rparr>) s))
       else Done s)))))"

section \<open>Timer\<close>

definition SCHEDULE_HARDCLOCKS :: nat where "SCHEDULE_HARDCLOCKS = 4"
definition MIGRATE_HARDCLOCKS :: nat where "MIGRATE_HARDCLOCKS = 16"

text \<open>The count of timer interrupts of the processor is an argument and a result;
  \<^verbatim>\<open>schedule\<close> does nothing.\<close>

definition hardclock :: "nat \<Rightarrow> u32 \<Rightarrow> sys \<Rightarrow> (u32 \<times> sys) outcome" where
  "hardclock me c_hardclocks s =
     (let n = c_hardclocks + 1 in
      obind (if unat n mod MIGRATE_HARDCLOCKS = 0 then thread_consider_migration me s else Done s) (\<lambda>s.
      obind (thread_yield me s) (\<lambda>s. Done (n, s))))"

definition timerclock :: "nat \<Rightarrow> nat \<Rightarrow> lockid \<Rightarrow> sys \<Rightarrow> sys outcome" where
  "timerclock me lbolt lbolt_lock s =
     obind (splk_acquire me lbolt_lock s) (\<lambda>s.
     obind (wchan_wakeall me lbolt lbolt_lock s) (\<lambda>s.
     splk_release me lbolt_lock s))"

section \<open>No thread is lost\<close>

text \<open>The threads on run queues, with multiplicity.\<close>

definition ready_threads :: "sys \<Rightarrow> nat multiset" where
  "ready_threads s = (\<Sum>c<numcpus s. mset (c_runqueue (cpus s c)))"

lemma ready_threads_same: "same_queues s s' \<Longrightarrow> ready_threads s' = ready_threads s"
  by (simp add: same_queues_def ready_threads_def)

lemma ready_threads_upd:
  assumes "me < numcpus s" "numcpus s' = numcpus s"
    "\<And>c. c \<noteq> me \<Longrightarrow> c_runqueue (cpus s' c) = c_runqueue (cpus s c)"
    "mset (c_runqueue (cpus s' me)) + X = mset (c_runqueue (cpus s me)) + Y"
  shows "ready_threads s' + X = ready_threads s + Y"
proof -
  have r: "ready_threads t = mset (c_runqueue (cpus t me)) +
      (\<Sum>c\<in>{..<numcpus s} - {me}. mset (c_runqueue (cpus t c)))" if "numcpus t = numcpus s" for t
    using assms(1) that by (simp add: ready_threads_def sum.remove [of "{..<numcpus s}" me])
  have "(\<Sum>c\<in>{..<numcpus s} - {me}. mset (c_runqueue (cpus s' c))) =
      (\<Sum>c\<in>{..<numcpus s} - {me}. mset (c_runqueue (cpus s c)))"
    using assms(3) by (intro sum.cong) auto
  then show ?thesis using assms(4) r [OF assms(2)] r [of s]
    by (metis (no_types, lifting) add.assoc add.commute)
qed

text \<open>In the middle of a migration the victims \<open>vs\<close> are ready and on no queue.\<close>

definition mig_inv :: "nat \<Rightarrow> nat list \<Rightarrow> sys \<Rightarrow> bool" where
  "mig_inv me vs s \<longleftrightarrow> sched_inv {} s \<and> me < numcpus s \<and> distinct vs \<and>
     (\<forall>t\<in>set vs. unqueued s t \<and> th_is s t S_READY \<and> th_cpu s t = Some me)"

lemma mig_inv_same:
  assumes "same_queues s s'" "mig_inv me vs s"
  shows "mig_inv me vs s'"
proof -
  have "numcpus s' = numcpus s" using assms(1) by (simp add: same_queues_def)
  then show ?thesis using assms(2) by (simp add: mig_inv_def same_queues_inv [OF assms(1)])
qed

lemma ready_not_running: "sched_inv A s \<Longrightarrow> th_is s t S_READY \<Longrightarrow> \<not> running A s t"
  using sched_invD(8) th_is_unique unfolding running_def by (metis threadstate.distinct(1))

lemma take_step:
  assumes "mig_inv me vs s" "c_runqueue (cpus s me) \<noteq> []"
  defines "q \<equiv> c_runqueue (cpus s me)"
  defines "s' \<equiv> upd_cpu me (\<lambda>c. c\<lparr>c_runqueue := butlast q\<rparr>) s"
  shows "mig_inv me (last q # vs) s' \<and> ready_threads s' + mset [last q] = ready_threads s \<and>
    wc_threads s' = wc_threads s \<and> numcpus s' = numcpus s"
proof -
  have sel: "c_runqueue (cpus s' c) = (if c = me then butlast q else c_runqueue (cpus s c))"
    "c_zombies (cpus s' c) = c_zombies (cpus s c)" "c_isidle (cpus s' c) = c_isidle (cpus s c)"
    "c_curthread (cpus s' c) = c_curthread (cpus s c)" for c
    by (cases "c = me"; simp add: s'_def upd_cpu_def)+
  have sel': "threads s' = threads s" "wc_threads s' = wc_threads s" "numcpus s' = numcpus s"
    by (simp_all add: s'_def upd_cpu_def)
  have th: "th_is s' t st = th_is s t st" "th_cpu s' t = th_cpu s t" for t st
    by (simp_all add: th_is_def th_cpu_def sel')
  have i: "sched_inv {} s" and me: "me < numcpus s" using assms(1) by (simp_all add: mig_inv_def)
  note d = sched_invD [OF i]
  have q: "q = butlast q @ [last q]" using assms(2) q_def by simp
  have dq: "distinct (butlast q @ [last q])" using d(1) [of me] q q_def by metis
  have l: "th_is s (last q) S_READY" "th_cpu s (last q) = Some me" "last q \<in> set q"
    using d(4) [of "last q" me] assms(2) by (auto simp: q_def)
  have "sched_inv {} s'"
  proof (rule sched_inv_queues [OF i])
    show "distinct (c_runqueue (cpus s' c))" for c using d(1) [of c] dq by (auto simp: sel)
    show "u \<in> set (c_runqueue (cpus s c)) \<or> th_is s u S_READY \<and> th_cpu s u = Some c"
      if "u \<in> set (c_runqueue (cpus s' c))" for c u
      using that in_set_butlastD [of u q] by (auto simp: sel q_def split: if_splits)
  qed (use d in \<open>auto simp: sel sel'\<close>)
  moreover have "last q \<notin> set (c_zombies (cpus s c))" "last q \<notin> set (wc_threads s w)" for c w
    using d(5) [of "last q" c] d(6) [of "last q" w] th_is_unique [OF l(1)] by blast+
  moreover have "last q \<notin> set (c_runqueue (cpus s' c))" for c
    using d(4) [of "last q" c] l(2) dq by (auto simp: sel)
  ultimately have "sched_inv {} s'" "unqueued s' (last q)" by (simp_all add: unqueued_def sel sel')
  moreover have "unqueued s' t" if "t \<in> set vs" for t
    using that assms(1) in_set_butlastD [of t q] by (auto simp: mig_inv_def unqueued_def sel sel' q_def)
  moreover have "last q \<notin> set vs" using assms(1) l(3) by (auto simp: mig_inv_def unqueued_def q_def)
  moreover have "ready_threads s' + mset [last q] = ready_threads s + {#}"
  proof (rule ready_threads_upd [OF me sel'(3)])
    have "mset q = mset (butlast q @ [last q])" using q by metis
    then show "mset (c_runqueue (cpus s' me)) + mset [last q] = mset (c_runqueue (cpus s me)) + {#}"
      by (simp add: sel q_def)
  qed (simp add: sel)
  ultimately show ?thesis using assms(1) l me by (auto simp: mig_inv_def th sel')
qed

lemma take_victims_spec:
  assumes "take_victims me n vs s = Done (vs', s')" "mig_inv me vs s"
  shows "mig_inv me vs' s' \<and> ready_threads s' + mset vs' = ready_threads s + mset vs \<and>
    wc_threads s' = wc_threads s \<and> numcpus s' = numcpus s"
  using assms
proof (induction n arbitrary: vs s)
  case (Suc n)
  let ?q = "c_runqueue (cpus s me)"
  have ne: "?q \<noteq> []" and r: "take_victims me n (last ?q # vs) (upd_cpu me (\<lambda>c. c\<lparr>c_runqueue := butlast ?q\<rparr>) s) = Done (vs', s')"
    using Suc.prems(1) by (auto simp: Let_def split: if_splits)
  note t = take_step [OF Suc.prems(2) ne]
  have "mig_inv me vs' s' \<and> ready_threads s' + mset vs' =
      ready_threads (upd_cpu me (\<lambda>c. c\<lparr>c_runqueue := butlast ?q\<rparr>) s) + mset (last ?q # vs) \<and>
      wc_threads s' = wc_threads (upd_cpu me (\<lambda>c. c\<lparr>c_runqueue := butlast ?q\<rparr>) s) \<and>
      numcpus s' = numcpus (upd_cpu me (\<lambda>c. c\<lparr>c_runqueue := butlast ?q\<rparr>) s)"
    using t by (intro Suc.IH [OF r]) simp
  moreover have "ready_threads s = ready_threads (upd_cpu me (\<lambda>c. c\<lparr>c_runqueue := butlast ?q\<rparr>) s) + mset [last ?q]"
    using t by simp
  ultimately show ?case using t by simp
qed simp

lemma give_step:
  assumes "mig_inv me (t # vs) s" "upd_thread t (\<lambda>th. th\<lparr>t_cpu := Some c\<rparr>) s = Done s1" "c < numcpus s"
  shows "mig_inv me vs (enqueue_run c t s1) \<and> ready_threads (enqueue_run c t s1) = ready_threads s + mset [t] \<and>
    wc_threads (enqueue_run c t s1) = wc_threads s \<and> numcpus (enqueue_run c t s1) = numcpus s"
proof -
  have i: "sched_inv {} s" "me < numcpus s" "unqueued s t" "th_is s t S_READY"
    "distinct vs" "t \<notin> set vs" "\<And>u. u \<in> set vs \<Longrightarrow> unqueued s u \<and> th_is s u S_READY \<and> th_cpu s u = Some me"
    using assms(1) by (auto simp: mig_inv_def)
  note u = upd_thread_inv [OF assms(2) i(1,3) ready_not_running [OF i(1,4)]]
  obtain th where th: "threads s t = Some th" "s1 = s\<lparr>threads := (threads s)(t \<mapsto> th\<lparr>t_cpu := Some c\<rparr>)\<rparr>"
    using assms(2) by (rule upd_thread_sel)
  have t1: "th_is s1 t S_READY" "th_cpu s1 t = Some c" using i(4) th by (auto simp: th_is_def th_cpu_def)
  have inv: "sched_inv {} (enqueue_run c t s1)" using enqueue_run_inv u t1 by blast
  have "unqueued (enqueue_run c t s1) w \<and> th_is (enqueue_run c t s1) w S_READY \<and>
      th_cpu (enqueue_run c t s1) w = Some me" if "w \<in> set vs" for w
  proof -
    have ne: "w \<noteq> t" using that i(6) by auto
    then have "th_is (enqueue_run c t s1) w S_READY" "th_cpu (enqueue_run c t s1) w = Some me"
      using i(7) [OF that] th(2) by (simp_all add: th_is_def th_cpu_def enqueue_run_sel)
    moreover have "unqueued (enqueue_run c t s1) w"
      using i(7) [OF that] ne th(2) by (simp add: unqueued_def enqueue_run_sel)
    ultimately show ?thesis by simp
  qed
  then have "mig_inv me vs (enqueue_run c t s1)"
    using inv i(2,5) th(2) by (simp add: mig_inv_def enqueue_run_sel)
  moreover have "ready_threads (enqueue_run c t s1) + {#} = ready_threads s + mset [t]"
    by (rule ready_threads_upd [OF assms(3)]) (simp_all add: enqueue_run_sel th(2))
  ultimately show ?thesis by (simp add: enqueue_run_sel th(2))
qed

definition mig_kept :: "nat \<Rightarrow> nat list \<Rightarrow> sys \<Rightarrow> nat list \<Rightarrow> sys \<Rightarrow> bool" where
  "mig_kept me vs s vs' s' \<longleftrightarrow> mig_inv me vs' s' \<and> ready_threads s' + mset vs' = ready_threads s + mset vs \<and>
     wc_threads s' = wc_threads s \<and> numcpus s' = numcpus s"

lemma mig_kept_trans: "mig_kept me vs s vs' s' \<Longrightarrow> mig_kept me vs' s' vs'' s'' \<Longrightarrow> mig_kept me vs s vs'' s''"
  by (simp add: mig_kept_def)

lemma mig_kept_same:
  assumes "same_queues s s'" "mig_inv me vs s"
  shows "mig_kept me vs s vs s'"
  using assms mig_inv_same ready_threads_same by (auto simp: mig_kept_def same_queues_def)

lemma mig_kept_then_same:
  assumes "mig_kept me vs s vs' s'" "same_queues s' s''"
  shows "mig_kept me vs s vs' s''"
proof (rule mig_kept_trans [OF assms(1)])
  show "mig_kept me vs' s' vs' s''" using assms by (intro mig_kept_same) (simp_all add: mig_kept_def)
qed

lemma fill_cpu_spec:
  assumes "fill_cpu me c sh n vs s = Done (n', vs', s')" "mig_inv me vs s" "c < numcpus s"
  shows "mig_kept me vs s vs' s'"
  using assms
proof (induction n arbitrary: vs s)
  case 0
  then show ?case by (simp add: mig_kept_def)
next
  case (Suc n)
  show ?case
  proof (cases "length (c_runqueue (cpus s c)) < sh")
    case False
    then show ?thesis using Suc.prems by (simp add: mig_kept_def)
  next
    case True
    then obtain t ws where v: "vs = t # ws" using Suc.prems(1) by (auto split: list.splits)
    show ?thesis
    proof (cases "t = c_curthread (cpus s me)")
      case cur: True
      have "fill_cpu me c sh n (ws @ [t]) s = Done (n', vs', s')"
        using Suc.prems(1) True v cur by simp
      moreover have "mig_inv me (ws @ [t]) s" using Suc.prems(2) v by (auto simp: mig_inv_def)
      ultimately have "mig_kept me (ws @ [t]) s vs' s'" using Suc.IH Suc.prems(3) by blast
      then show ?thesis by (simp add: mig_kept_def v)
    next
      case False
      then obtain s1 s3 where s1: "upd_thread t (\<lambda>th. th\<lparr>t_cpu := Some c\<rparr>) s = Done s1"
        and s3: "(if c_isidle (cpus (enqueue_run c t s1) c) then ipi_send me c IPI_UNIDLE (enqueue_run c t s1)
           else Done (enqueue_run c t s1)) = Done s3" and r: "fill_cpu me c sh n ws s3 = Done (n', vs', s')"
        using Suc.prems(1) True v by (auto simp: obind_Done_iff Let_def simp flip: enqueue_run_def)
      note g = give_step [OF Suc.prems(2) [unfolded v] s1 Suc.prems(3)]
      have "same_queues (enqueue_run c t s1) s3" using s3 ipi_send_same by (auto split: if_splits)
      then have k: "mig_kept me ws (enqueue_run c t s1) ws s3" using g mig_kept_same by blast
      moreover have "mig_kept me vs s ws (enqueue_run c t s1)" using g by (simp add: mig_kept_def v)
      moreover have "mig_kept me ws s3 vs' s'"
        using k g by (intro Suc.IH [OF r]) (simp_all add: mig_kept_def Suc.prems(3))
      ultimately show ?thesis using mig_kept_trans by blast
    qed
  qed
qed

lemma spread_spec:
  assumes "spread me cs sh n vs s = Done (vs', s')" "mig_inv me vs s" "\<forall>c\<in>set cs. c < numcpus s"
  shows "mig_kept me vs s vs' s'"
  using assms
proof (induction cs arbitrary: n vs s)
  case Nil
  then show ?case by (simp add: mig_kept_def)
next
  case (Cons c cs)
  show ?case
  proof (cases "n = 0 \<or> c = me")
    case True
    then show ?thesis using Cons by (auto simp: mig_kept_def split: if_splits)
  next
    case False
    then obtain s1 n2 vs2 s2 s3 where s1: "splk_acquire me (RunqueueLock c) s = Done s1"
      and s2: "fill_cpu me c sh n vs s1 = Done (n2, vs2, s2)"
      and s3: "splk_release me (RunqueueLock c) s2 = Done s3" and r: "spread me cs sh n2 vs2 s3 = Done (vs', s')"
      using Cons.prems(1) by (auto simp: obind_Done_iff)
    have k1: "mig_kept me vs s vs s1" using mig_kept_same [OF splk_acquire_same [OF s1] Cons.prems(2)] .
    then have "mig_kept me vs s1 vs2 s2" using Cons.prems(3) by (intro fill_cpu_spec [OF s2]) (auto simp: mig_kept_def)
    moreover from this have "mig_kept me vs2 s2 vs2 s3"
      by (intro mig_kept_same [OF splk_release_same [OF s3]]) (simp add: mig_kept_def)
    ultimately have k3: "mig_kept me vs s vs2 s3" using k1 mig_kept_trans by blast
    moreover have "mig_kept me vs2 s3 vs' s'"
      using k3 Cons.prems(3) by (intro Cons.IH [OF r]) (auto simp: mig_kept_def)
    ultimately show ?thesis using mig_kept_trans by blast
  qed
qed

lemma count_loads_same: "count_loads me cs acc s = Done (r, s') \<Longrightarrow> same_queues s s'"
proof (induction me cs acc s rule: count_loads.induct)
  case (2 me c cs a b s)
  obtain s1 s2 where "splk_acquire me (RunqueueLock c) s = Done s1" "splk_release me (RunqueueLock c) s1 = Done s2"
    "count_loads me cs (if c = me then length (c_runqueue (cpus s1 c)) else a, b + length (c_runqueue (cpus s1 c))) s2
      = Done (r, s')"
    using 2(2) by (auto simp: obind_Done_iff Let_def)
  then show ?case using 2(1) [of s1 _ s2] splk_acquire_same splk_release_same same_queues_trans by metis
qed simp

lemma append_inv:
  assumes "mig_inv me vs s"
  defines "s' \<equiv> upd_cpu me (\<lambda>c. c\<lparr>c_runqueue := c_runqueue c @ vs\<rparr>) s"
  shows "mig_kept me vs s [] s'"
proof -
  have sel: "c_runqueue (cpus s' c) = (if c = me then c_runqueue (cpus s c) @ vs else c_runqueue (cpus s c))"
    "c_zombies (cpus s' c) = c_zombies (cpus s c)" "c_isidle (cpus s' c) = c_isidle (cpus s c)"
    "c_curthread (cpus s' c) = c_curthread (cpus s c)" for c
    by (cases "c = me"; simp add: s'_def upd_cpu_def)+
  have sel': "threads s' = threads s" "wc_threads s' = wc_threads s" "numcpus s' = numcpus s"
    by (simp_all add: s'_def upd_cpu_def)
  have i: "sched_inv {} s" and me: "me < numcpus s" using assms(1) by (simp_all add: mig_inv_def)
  note d = sched_invD [OF i]
  have "sched_inv {} s'"
  proof (rule sched_inv_queues [OF i])
    show "distinct (c_runqueue (cpus s' c))" for c
      using d(1) [of c] assms(1) by (auto simp: sel mig_inv_def unqueued_def)
    show "u \<in> set (c_runqueue (cpus s c)) \<or> th_is s u S_READY \<and> th_cpu s u = Some c"
      if "u \<in> set (c_runqueue (cpus s' c))" for c u
      using that assms(1) by (auto simp: sel mig_inv_def split: if_splits)
  qed (use d in \<open>auto simp: sel sel'\<close>)
  moreover have "ready_threads s' + {#} = ready_threads s + mset vs"
    by (rule ready_threads_upd [OF me sel'(3)]) (simp_all add: sel)
  ultimately show ?thesis using me by (simp add: mig_kept_def mig_inv_def sel')
qed

lemma consider_migration_kept:
  assumes "thread_consider_migration me s = Done s'" "sched_inv {} s" "me < numcpus s"
  shows "mig_kept me [] s [] s'"
proof -
  obtain my total s0 where s0: "count_loads me [0..<numcpus s] (0, 0) s = Done ((my, total), s0)"
    using assms(1) by (auto simp: thread_consider_migration_def obind_Done_iff)
  have i: "mig_inv me [] s" using assms(2,3) by (simp add: mig_inv_def)
  have k0: "mig_kept me [] s [] s0" using mig_kept_same [OF count_loads_same [OF s0] i] .
  define sh where "sh = (total + numcpus s0 - 1) div numcpus s0"
  show ?thesis
  proof (cases "my < sh")
    case True
    then show ?thesis using assms(1) s0 k0 by (simp add: thread_consider_migration_def Let_def sh_def)
  next
    case False
    then obtain s1 vs2 s2 s3 vs4 s4 where s1: "splk_acquire me (RunqueueLock me) s0 = Done s1"
      and s2: "take_victims me (my - sh) [] s1 = Done (vs2, s2)"
      and s3: "splk_release me (RunqueueLock me) s2 = Done s3"
      and s4: "spread me [0..<numcpus s3] sh (my - sh) vs2 s3 = Done (vs4, s4)"
      and r: "(if vs4 \<noteq> [] then obind (splk_acquire me (RunqueueLock me) s4) (\<lambda>s.
         splk_release me (RunqueueLock me) (upd_cpu me (\<lambda>c. c\<lparr>c_runqueue := c_runqueue c @ vs4\<rparr>) s))
         else Done s4) = Done s'"
      using assms(1) s0 by (auto simp: thread_consider_migration_def Let_def sh_def obind_Done_iff)
    have k1: "mig_kept me [] s [] s1"
      using mig_kept_then_same [OF k0 splk_acquire_same [OF s1]] .
    have "mig_kept me [] s1 vs2 s2" using take_victims_spec [OF s2] k1 by (auto simp: mig_kept_def)
    then have k2: "mig_kept me [] s vs2 s2" using k1 mig_kept_trans by blast
    then have k3: "mig_kept me [] s vs2 s3"
      using mig_kept_then_same splk_release_same [OF s3] by blast
    then have "mig_kept me vs2 s3 vs4 s4" by (intro spread_spec [OF s4]) (auto simp: mig_kept_def)
    then have k4: "mig_kept me [] s vs4 s4" using k3 mig_kept_trans by blast
    show ?thesis
    proof (cases "vs4 = []")
      case True
      then show ?thesis using r k4 by simp
    next
      case False
      then obtain s5 where s5: "splk_acquire me (RunqueueLock me) s4 = Done s5"
        "splk_release me (RunqueueLock me) (upd_cpu me (\<lambda>c. c\<lparr>c_runqueue := c_runqueue c @ vs4\<rparr>) s5) = Done s'"
        using r by (auto simp: obind_Done_iff)
      have k5: "mig_kept me [] s vs4 s5"
        using mig_kept_then_same [OF k4 splk_acquire_same [OF s5(1)]] .
      then have "mig_kept me [] s [] (upd_cpu me (\<lambda>c. c\<lparr>c_runqueue := c_runqueue c @ vs4\<rparr>) s5)"
        by (rule mig_kept_trans) (rule append_inv, use k5 in \<open>simp add: mig_kept_def\<close>)
      then show ?thesis using mig_kept_then_same splk_release_same [OF s5(2)] by blast
    qed
  qed
qed

section \<open>Properties\<close>

text \<open>C30.  Load balancing loses and duplicates no thread: across
  \<^verbatim>\<open>thread_consider_migration\<close> the multiset of threads on all run queues is unchanged, wait
  channels are untouched, and every thread is still in one place, on the queue of the
  processor it is bound to.\<close>

theorem migration_conserves_threads:
  assumes "thread_consider_migration me s = Done s'" "sched_inv {} s" "me < numcpus s"
  shows "ready_threads s' = ready_threads s \<and> sched_inv {} s' \<and> wc_threads s' = wc_threads s"
  using consider_migration_kept [OF assms] by (simp add: mig_kept_def mig_inv_def)

theorem migration_conserves_threads_witness:
  "\<exists>s'. thread_consider_migration 0 (demo_sys\<lparr>numcpus := 1\<rparr>) = Done s' \<and> ready_threads s' = {#1, 2#}"
proof -
  let ?s = "demo_sys\<lparr>numcpus := 1\<rparr>"
  have "sched_inv {} ?s" using demo_sys_inv by (simp add: demo_sys_def)
  moreover have "\<exists>s'. thread_consider_migration 0 ?s = Done s'"
    by (simp add: thread_consider_migration_def splk_acquire_def splk_release_def upd_cpu_def demo_defs Let_def)
  moreover have "ready_threads ?s = {#1, 2#}" by (simp add: ready_threads_def demo_defs)
  ultimately show ?thesis using migration_conserves_threads [of 0 ?s] by auto
qed

end
