(* ===== verification/Synch.thy ===== *)
theory Synch
  imports KHeap
begin

text \<open>
  Semaphores, locks and condition variables (\<^verbatim>\<open>kern/thread/synch.c\<close>, built with locks on
  top of semaphores).

  The first part models creation and destruction with the kernel allocator.  The second
  part is the concurrent behaviour: threads interleave at the granularity of the spinlock
  sections of the source, each thread with its own program counter.  A section that the
  source protects by \<^verbatim>\<open>sem_lock\<close> is one step; \<^verbatim>\<open>lk_spinlock\<close> and \<^verbatim>\<open>cv_spinlock\<close>, which are
  held across other sections, are part of the state.
\<close>

section \<open>Creation and destruction\<close>

record semaphore =
  sem_self :: nat
  sem_name :: nat
  sem_wchan :: nat
  sem_waiters :: "nat list"
  sem_locked :: bool
  sem_count :: u32

definition sem_create :: "u32 \<Rightarrow> kheap \<Rightarrow> (semaphore option \<times> kheap) outcome" where
  "sem_create initial_count h =
     (case kmalloc h of
        (None, h) \<Rightarrow> Done (None, h)
      | (Some sem, h) \<Rightarrow>
     (case kmalloc h of
        (None, h) \<Rightarrow> obind (kfree (Some sem) h) (\<lambda>h. Done (None, h))
      | (Some nm, h) \<Rightarrow>
     (case kmalloc h of
        (None, h) \<Rightarrow> obind (kfree (Some nm) h) (\<lambda>h. obind (kfree (Some sem) h) (\<lambda>h. Done (None, h)))
      | (Some wc, h) \<Rightarrow>
          Done (Some \<lparr>sem_self = sem, sem_name = nm, sem_wchan = wc, sem_waiters = [],
                      sem_locked = False, sem_count = initial_count\<rparr>, h))))"

definition sem_destroy :: "semaphore option \<Rightarrow> kheap \<Rightarrow> kheap outcome" where
  "sem_destroy sem h =
     (case sem of None \<Rightarrow> Stop Panic | Some sm \<Rightarrow>
        obind (kassert (\<not> sem_locked sm)) (\<lambda>_.
        obind (kassert (sem_waiters sm = [])) (\<lambda>_.
        obind (kfree (Some (sem_wchan sm)) h) (\<lambda>h.
        obind (kfree (Some (sem_name sm)) h) (\<lambda>h.
        kfree (Some (sem_self sm)) h)))))"

record lock =
  lk_self :: nat
  lk_name :: nat
  lk_sem :: semaphore
  lk_locked :: bool
  lk_owner :: "nat option"

definition lock_create :: "kheap \<Rightarrow> (lock option \<times> kheap) outcome" where
  "lock_create h =
     (case kmalloc h of
        (None, h) \<Rightarrow> Done (None, h)
      | (Some lk, h) \<Rightarrow>
     (case kmalloc h of
        (None, h) \<Rightarrow> obind (kfree (Some lk) h) (\<lambda>h. Done (None, h))
      | (Some nm, h) \<Rightarrow>
          obind (sem_create 1 h) (\<lambda>(sem, h).
          case sem of
            None \<Rightarrow> obind (kfree (Some nm) h) (\<lambda>h. obind (kfree (Some lk) h) (\<lambda>h. Done (None, h)))
          | Some sm \<Rightarrow> Done (Some \<lparr>lk_self = lk, lk_name = nm, lk_sem = sm, lk_locked = False,
                                   lk_owner = None\<rparr>, h))))"

definition lock_destroy :: "lock option \<Rightarrow> kheap \<Rightarrow> kheap outcome" where
  "lock_destroy lk h =
     (case lk of None \<Rightarrow> Stop Panic | Some l \<Rightarrow>
        obind (kassert (\<not> lk_locked l)) (\<lambda>_.
        obind (sem_destroy (Some (lk_sem l)) h) (\<lambda>h.
        obind (kfree (Some (lk_name l)) h) (\<lambda>h.
        kfree (Some (lk_self l)) h))))"

record cv =
  cv_self :: nat
  cv_name :: nat
  cv_wchan :: nat
  cv_waiters :: "nat list"
  cv_locked :: bool

definition cv_create :: "kheap \<Rightarrow> (cv option \<times> kheap) outcome" where
  "cv_create h =
     (case kmalloc h of
        (None, h) \<Rightarrow> Done (None, h)
      | (Some c, h) \<Rightarrow>
     (case kmalloc h of
        (None, h) \<Rightarrow> obind (kfree (Some c) h) (\<lambda>h. Done (None, h))
      | (Some nm, h) \<Rightarrow>
     (case kmalloc h of
        (None, h) \<Rightarrow> obind (kfree (Some nm) h) (\<lambda>h. obind (kfree (Some c) h) (\<lambda>h. Done (None, h)))
      | (Some wc, h) \<Rightarrow>
          Done (Some \<lparr>cv_self = c, cv_name = nm, cv_wchan = wc, cv_waiters = [], cv_locked = False\<rparr>, h))))"

definition cv_destroy :: "cv option \<Rightarrow> kheap \<Rightarrow> kheap outcome" where
  "cv_destroy c h =
     (case c of None \<Rightarrow> Stop Panic | Some v \<Rightarrow>
        obind (kassert (\<not> cv_locked v)) (\<lambda>_.
        obind (kassert (cv_waiters v = [])) (\<lambda>_.
        obind (kfree (Some (cv_wchan v)) h) (\<lambda>h.
        obind (kfree (Some (cv_name v)) h) (\<lambda>h.
        kfree (Some (cv_self v)) h)))))"

text \<open>A failed creation leaves nothing allocated, and destruction undoes creation.\<close>

lemma kmalloc_cases:
  assumes "kheap_ok h"
  obtains h' where "kmalloc h = (None, h')" "kheap_ok h'" "kh_live h' = kh_live h"
  | n h' where "kmalloc h = (Some n, h')" "kheap_ok h'" "kh_live h' = n # kh_live h" "n \<notin> set (kh_live h)"
proof (cases "kmalloc h")
  case (Pair p h')
  have "kheap_ok h'" using kmalloc_ok [OF assms] Pair by simp
  then show thesis
    using Pair kmalloc_fresh [OF assms] kmalloc_none that by (cases p) auto
qed

lemma kfree_live:
  "n \<in> set (kh_live h) \<Longrightarrow> kfree (Some n) h = Done (h\<lparr>kh_live := remove1 n (kh_live h)\<rparr>)"
  by (simp add: kfree_def)

lemma sem_create_spec:
  assumes "kheap_ok h"
  shows "(\<exists>h'. sem_create n h = Done (None, h') \<and> kheap_ok h' \<and> kh_live h' = kh_live h) \<or>
    (\<exists>sm h'. sem_create n h = Done (Some sm, h') \<and> kheap_ok h' \<and> sem_count sm = n \<and> sem_waiters sm = [] \<and>
       \<not> sem_locked sm \<and> kh_live h' = [sem_wchan sm, sem_name sm, sem_self sm] @ kh_live h \<and>
       (\<exists>h''. sem_destroy (Some sm) h' = Done h'' \<and> kheap_ok h'' \<and> kh_live h'' = kh_live h))"
proof (cases rule: kmalloc_cases [OF assms])
  case (1 h1)
  then show ?thesis by (simp add: sem_create_def)
next
  case (2 s h1)
  show ?thesis
  proof (cases rule: kmalloc_cases [OF 2(2)])
    case (1 h2)
    then show ?thesis using 2 by (auto simp: sem_create_def kfree_def kheap_ok_def)
  next
    case nm: (2 nm h2)
    show ?thesis
    proof (cases rule: kmalloc_cases [OF nm(2)])
      case (1 h3)
      then show ?thesis using 2 nm by (auto simp: sem_create_def kfree_def kheap_ok_def)
    next
      case wc: (2 wc h3)
      then show ?thesis using 2 nm
        by (auto simp: sem_create_def sem_destroy_def kfree_def kheap_ok_def)
    qed
  qed
qed

lemma lock_create_spec:
  assumes "kheap_ok h"
  shows "(\<exists>h'. lock_create h = Done (None, h') \<and> kheap_ok h' \<and> kh_live h' = kh_live h) \<or>
    (\<exists>l h'. lock_create h = Done (Some l, h') \<and> kheap_ok h' \<and> lk_owner l = None \<and> sem_count (lk_sem l) = 1 \<and>
       length (kh_live h') = length (kh_live h) + 5 \<and>
       (\<exists>h''. lock_destroy (Some l) h' = Done h'' \<and> kheap_ok h'' \<and> kh_live h'' = kh_live h))"
proof (cases rule: kmalloc_cases [OF assms])
  case (1 h1)
  then show ?thesis by (simp add: lock_create_def)
next
  case (2 k h1)
  show ?thesis
  proof (cases rule: kmalloc_cases [OF 2(2)])
    case (1 h2)
    then show ?thesis using 2 by (auto simp: lock_create_def kfree_def kheap_ok_def)
  next
    case nm: (2 nm h2)
    show ?thesis
    proof (cases "\<exists>h'. sem_create 1 h2 = Done (None, h')")
      case True
      then obtain h3 where "sem_create 1 h2 = Done (None, h3)" "kheap_ok h3" "kh_live h3 = kh_live h2"
        using sem_create_spec [OF nm(2), of 1] by auto
      then show ?thesis using 2 nm by (auto simp: lock_create_def kfree_def kheap_ok_def)
    next
      case False
      then obtain sm h3 h4 where "sem_create 1 h2 = Done (Some sm, h3)" "kheap_ok h3" "sem_count sm = 1"
        "kh_live h3 = [sem_wchan sm, sem_name sm, sem_self sm] @ kh_live h2"
        "sem_destroy (Some sm) h3 = Done h4" "kheap_ok h4" "kh_live h4 = kh_live h2"
        using sem_create_spec [OF nm(2), of 1] by auto
      then show ?thesis using 2 nm by (auto simp: lock_create_def lock_destroy_def kfree_def kheap_ok_def)
    qed
  qed
qed

lemma cv_create_spec:
  assumes "kheap_ok h"
  shows "(\<exists>h'. cv_create h = Done (None, h') \<and> kheap_ok h' \<and> kh_live h' = kh_live h) \<or>
    (\<exists>v h'. cv_create h = Done (Some v, h') \<and> kheap_ok h' \<and> cv_waiters v = [] \<and>
       length (kh_live h') = length (kh_live h) + 3 \<and>
       (\<exists>h''. cv_destroy (Some v) h' = Done h'' \<and> kheap_ok h'' \<and> kh_live h'' = kh_live h))"
proof (cases rule: kmalloc_cases [OF assms])
  case (1 h1)
  then show ?thesis by (simp add: cv_create_def)
next
  case (2 c h1)
  show ?thesis
  proof (cases rule: kmalloc_cases [OF 2(2)])
    case (1 h2)
    then show ?thesis using 2 by (auto simp: cv_create_def kfree_def kheap_ok_def)
  next
    case nm: (2 nm h2)
    show ?thesis
    proof (cases rule: kmalloc_cases [OF nm(2)])
      case (1 h3)
      then show ?thesis using 2 nm by (auto simp: cv_create_def kfree_def kheap_ok_def)
    next
      case wc: (2 wc h3)
      then show ?thesis using 2 nm by (auto simp: cv_create_def cv_destroy_def kfree_def kheap_ok_def)
    qed
  qed
qed

section \<open>The spinlock sections\<close>

text \<open>What a semaphore is between sections: its count and the sleepers of its channel.\<close>

record sema =
  s_count :: u32
  s_sleepers :: "nat list"

text \<open>One turn of the loop of \<open>P\<close>: \<open>True\<close> when the thread is through, \<open>False\<close> when it is put to
  sleep; it comes back to the top of the loop when it is woken.\<close>

definition P :: "nat \<Rightarrow> sema \<Rightarrow> (bool \<times> sema) outcome" where
  "P t sm =
     (if s_count sm = 0 then Done (False, sm\<lparr>s_sleepers := s_sleepers sm @ [t]\<rparr>)
      else obind (kassert (s_count sm > 0)) (\<lambda>_. Done (True, sm\<lparr>s_count := s_count sm - 1\<rparr>)))"

text \<open>\<open>V\<close>, with the thread it makes runnable.\<close>

definition V :: "sema \<Rightarrow> (nat option \<times> sema) outcome" where
  "V sm =
     (let c = s_count sm + 1 in
      obind (kassert (c > 0)) (\<lambda>_.
      Done (case s_sleepers sm of [] \<Rightarrow> (None, sm\<lparr>s_count := c\<rparr>)
            | t # ts \<Rightarrow> (Some t, sm\<lparr>s_count := c, s_sleepers := ts\<rparr>))))"

section \<open>Semaphores under interleaving\<close>

text \<open>A thread is outside, at the head of the loop of \<open>P\<close> (for the first time or after being
  woken), or asleep.\<close>

datatype sem_pc = Out | Trying | Woken | Asleep

record sem_sys =
  sem :: sema
  at :: "nat \<Rightarrow> sem_pc"
  passed :: nat
  vs :: nat

inductive sem_step :: "sem_sys \<Rightarrow> sem_sys \<Rightarrow> bool" where
  begin_P: "at s t = Out \<Longrightarrow> sem_step s (s\<lparr>at := (at s)(t := Trying)\<rparr>)"
| pass: "at s t = Trying \<or> at s t = Woken \<Longrightarrow> P t (sem s) = Done (True, q) \<Longrightarrow>
    sem_step s (s\<lparr>sem := q, at := (at s)(t := Out), passed := passed s + 1\<rparr>)"
| sleep: "at s t = Trying \<or> at s t = Woken \<Longrightarrow> P t (sem s) = Done (False, q) \<Longrightarrow>
    sem_step s (s\<lparr>sem := q, at := (at s)(t := Asleep)\<rparr>)"
| do_V: "V (sem s) = Done (w, q) \<Longrightarrow>
    sem_step s (s\<lparr>sem := q, at := (case w of None \<Rightarrow> at s | Some u \<Rightarrow> (at s)(u := Woken)), vs := vs s + 1\<rparr>)"

inductive sem_reach :: "u32 \<Rightarrow> sem_sys \<Rightarrow> bool" for n where
  sem_init: "sem_reach n \<lparr>sem = \<lparr>s_count = n, s_sleepers = []\<rparr>, at = (\<lambda>_. Out), passed = 0, vs = 0\<rparr>"
| sem_next: "sem_reach n s \<Longrightarrow> sem_step s s' \<Longrightarrow> sem_reach n s'"

definition sem_inv :: "u32 \<Rightarrow> sem_sys \<Rightarrow> bool" where
  "sem_inv n s \<longleftrightarrow>
     distinct (s_sleepers (sem s)) \<and> (\<forall>t. t \<in> set (s_sleepers (sem s)) \<longleftrightarrow> at s t = Asleep) \<and>
     finite {t. at s t = Woken} \<and>
     unat n + vs s = passed s + unat (s_count (sem s)) \<and>
     (s_sleepers (sem s) \<noteq> [] \<longrightarrow> unat (s_count (sem s)) \<le> card {t. at s t = Woken})"

lemma P_Done:
  "P t sm = Done (True, q) \<longleftrightarrow> s_count sm \<noteq> 0 \<and> q = sm\<lparr>s_count := s_count sm - 1\<rparr>"
  "P t sm = Done (False, q) \<longleftrightarrow> s_count sm = 0 \<and> q = sm\<lparr>s_sleepers := s_sleepers sm @ [t]\<rparr>"
  by (auto simp: P_def word_gt_0)

lemma V_Done:
  assumes "V sm = Done (w, q)"
  shows "unat (s_count q) = unat (s_count sm) + 1"
    "s_sleepers sm = (case w of None \<Rightarrow> [] | Some t \<Rightarrow> t # s_sleepers q)" "w = None \<Longrightarrow> s_sleepers q = []"
proof -
  have "s_count sm + 1 > 0" using assms by (auto simp: V_def Let_def split: if_splits)
  then have "unat (s_count sm + 1) = unat (s_count sm) + 1" by (intro unat_inc) (simp add: word_gt_0)
  then show "unat (s_count q) = unat (s_count sm) + 1" using assms
    by (auto simp: V_def Let_def split: if_splits list.splits)
  show "s_sleepers sm = (case w of None \<Rightarrow> [] | Some t \<Rightarrow> t # s_sleepers q)" "w = None \<Longrightarrow> s_sleepers q = []"
    using assms by (auto simp: V_def Let_def split: if_splits list.splits)
qed

lemma woken_upd:
  "p \<noteq> Woken \<Longrightarrow> {u. (f(t := p)) u = Woken} = {u. f u = Woken} - {t}"
  "{u. (f(t := Woken)) u = Woken} = insert t {u. f u = Woken}"
  by (auto simp: fun_upd_apply)

lemma asleep_upd:
  "p \<noteq> Asleep \<Longrightarrow> (\<forall>u. u \<in> X \<longleftrightarrow> f u = Asleep) \<Longrightarrow> f t \<noteq> Asleep \<Longrightarrow> (\<forall>u. u \<in> X \<longleftrightarrow> (f(t := p)) u = Asleep)"
  by (auto simp: fun_upd_apply)

lemma card_after_leave:
  assumes "finite W" "(c::nat) \<le> card W" "c \<noteq> 0"
  shows "c - 1 \<le> card (W - {t})"
  using assms by (cases "t \<in> W") (auto simp: card_Diff_singleton_if)

lemma sem_inv_step:
  assumes "sem_step s s'" "sem_inv n s"
  shows "sem_inv n s'"
  using assms
proof (induction rule: sem_step.induct)
  case (begin_P s t)
  have "{u. ((at s)(t := Trying)) u = Woken} = {u. at s u = Woken}"
    using begin_P(1) by (auto simp: fun_upd_apply)
  moreover have "\<forall>u. u \<in> set (s_sleepers (sem s)) \<longleftrightarrow> ((at s)(t := Trying)) u = Asleep"
    using begin_P by (intro asleep_upd) (auto simp: sem_inv_def)
  ultimately show ?case using begin_P(2) by (simp add: sem_inv_def)
next
  case (pass s t q)
  have q: "s_count (sem s) \<noteq> 0" "q = (sem s)\<lparr>s_count := s_count (sem s) - 1\<rparr>"
    using pass(2) by (simp_all add: P_Done)
  then have c: "unat (s_count q) = unat (s_count (sem s)) - 1" "unat (s_count (sem s)) \<noteq> 0"
    by (simp_all add: unat_minus_one unat_eq_zero)
  have "\<forall>u. u \<in> set (s_sleepers (sem s)) \<longleftrightarrow> ((at s)(t := Out)) u = Asleep"
    using pass by (intro asleep_upd) (auto simp: sem_inv_def)
  moreover have "unat (s_count q) \<le> card ({u. at s u = Woken} - {t})" if "s_sleepers (sem s) \<noteq> []"
    unfolding c(1) by (rule card_after_leave) (use that pass(3) c(2) in \<open>simp_all add: sem_inv_def\<close>)
  ultimately show ?case using pass(3) c q(2) by (simp add: sem_inv_def woken_upd)
next
  case (sleep s t q)
  then have q: "s_count (sem s) = 0" "q = (sem s)\<lparr>s_sleepers := s_sleepers (sem s) @ [t]\<rparr>"
    by (simp_all add: P_Done)
  have "at s t \<noteq> Asleep" using sleep(1) by auto
  then have "t \<notin> set (s_sleepers (sem s))" using sleep(3) by (simp add: sem_inv_def)
  moreover have "\<forall>u. u \<in> set (s_sleepers q) \<longleftrightarrow> ((at s)(t := Asleep)) u = Asleep"
    using sleep(3) by (auto simp: sem_inv_def q(2) fun_upd_apply)
  ultimately show ?case using sleep(3) q by (simp add: sem_inv_def woken_upd)
next
  case (do_V s w q)
  note v = V_Done [OF do_V(1)]
  show ?case
  proof (cases w)
    case None
    then show ?thesis using do_V(2) v by (simp add: sem_inv_def)
  next
    case (Some u)
    then have sl: "s_sleepers (sem s) = u # s_sleepers q" using v(2) by simp
    have u: "at s u = Asleep" "u \<notin> set (s_sleepers q)" "distinct (s_sleepers q)"
      using do_V(2) sl by (auto simp: sem_inv_def)
    have "\<forall>x. x \<in> set (s_sleepers q) \<longleftrightarrow> ((at s)(u := Woken)) x = Asleep"
      using do_V(2) sl u by (auto simp: sem_inv_def fun_upd_apply)
    moreover have "card (insert u {x. at s x = Woken}) = card {x. at s x = Woken} + 1"
      using do_V(2) u(1) by (subst card_insert_disjoint) (auto simp: sem_inv_def)
    ultimately show ?thesis using do_V(2) v sl u Some by (simp add: sem_inv_def woken_upd)
  qed
qed

lemma sem_reach_inv: "sem_reach n s \<Longrightarrow> sem_inv n s"
proof (induction rule: sem_reach.induct)
  case sem_init
  then show ?case by (simp add: sem_inv_def)
qed (rule sem_inv_step)

section \<open>Locks and condition variables under interleaving\<close>

text \<open>Where a thread is with respect to one lock and one condition variable used with it.
  \<open>Rel1\<close> and \<open>Rel2\<close> are inside \<^verbatim>\<open>lock_release\<close>, before and after the owner is cleared; their
  argument tells a release inside \<^verbatim>\<open>cv_wait\<close> from a plain one.\<close>

datatype lpc =
    Idle            \<comment> \<open>not using the lock\<close>
  | AcqP            \<comment> \<open>in \<open>lock_acquire\<close>, at the loop of \<open>P\<close>\<close>
  | AcqSleep        \<comment> \<open>asleep in \<open>P\<close>\<close>
  | AcqOwn          \<comment> \<open>through \<open>P\<close>, about to take the spinlock and become owner\<close>
  | Held            \<comment> \<open>lock held, running client code\<close>
  | Rel1 bool
  | Rel2 bool
  | CvGo            \<comment> \<open>lock released, about to join the channel of the condition variable\<close>
  | CvSleep
  | CvWoken         \<comment> \<open>made runnable, about to retake \<open>cv_spinlock\<close>\<close>

record lk_sys =
  lsem :: sema
  owner :: "nat option"
  lkspin :: "nat option"
  cvq :: "nat list"
  cvspin :: "nat option"
  lpc :: "nat \<Rightarrow> lpc"
  panicked :: bool

definition goto :: "nat \<Rightarrow> lpc \<Rightarrow> lk_sys \<Rightarrow> lk_sys" where
  "goto t p s = s\<lparr>lpc := (lpc s)(t := p)\<rparr>"

definition lock_do_i_hold :: "nat \<Rightarrow> lk_sys \<Rightarrow> bool" where
  "lock_do_i_hold t s \<longleftrightarrow> owner s = Some t"

definition panic_unless :: "bool \<Rightarrow> lk_sys \<Rightarrow> lk_sys" where
  "panic_unless b s = (if b then s else s\<lparr>panicked := True\<rparr>)"

text \<open>The steps of a thread \<open>t\<close>.  A failed assertion sets \<open>panicked\<close>.\<close>

inductive lk_step :: "nat \<Rightarrow> lk_sys \<Rightarrow> lk_sys \<Rightarrow> bool" where
  acquire: "lpc s t = Idle \<Longrightarrow> lkspin s = None \<Longrightarrow>
    lk_step t s (panic_unless (\<not> lock_do_i_hold t s) (goto t AcqP s))"
| P_sleep: "lpc s t = AcqP \<Longrightarrow> P t (lsem s) = Done (False, q) \<Longrightarrow>
    lk_step t s (goto t AcqSleep (s\<lparr>lsem := q\<rparr>))"
| P_pass: "lpc s t = AcqP \<Longrightarrow> P t (lsem s) = Done (True, q) \<Longrightarrow>
    lk_step t s (goto t AcqOwn (s\<lparr>lsem := q\<rparr>))"
| own: "lpc s t = AcqOwn \<Longrightarrow> lkspin s = None \<Longrightarrow>
    lk_step t s (panic_unless (owner s = None) (goto t Held (s\<lparr>owner := Some t\<rparr>)))"
| release: "lpc s t = Held \<Longrightarrow> lkspin s = None \<Longrightarrow>
    lk_step t s (panic_unless (lock_do_i_hold t s) (goto t (Rel1 False) s))"
| wait: "lpc s t = Held \<Longrightarrow> lkspin s = None \<Longrightarrow> cvspin s = None \<Longrightarrow>
    lk_step t s (panic_unless (lock_do_i_hold t s) (goto t (Rel1 True) (s\<lparr>cvspin := Some t\<rparr>)))"
| disown: "lpc s t = Rel1 w \<Longrightarrow> lkspin s = None \<Longrightarrow>
    lk_step t s (goto t (Rel2 w) (s\<lparr>lkspin := Some t, owner := None\<rparr>))"
| give: "lpc s t = Rel2 w \<Longrightarrow> V (lsem s) = Done (u, q) \<Longrightarrow>
    lk_step t s (goto t (if w then CvGo else Idle)
      (case u of None \<Rightarrow> s\<lparr>lsem := q, lkspin := None\<rparr> | Some v \<Rightarrow> goto v AcqP (s\<lparr>lsem := q, lkspin := None\<rparr>)))"
| give_panic: "lpc s t = Rel2 w \<Longrightarrow> V (lsem s) = Stop r \<Longrightarrow> lk_step t s (s\<lparr>panicked := True\<rparr>)"
| join: "lpc s t = CvGo \<Longrightarrow>
    lk_step t s (goto t CvSleep (s\<lparr>cvq := cvq s @ [t], cvspin := None\<rparr>))"
| retake: "lpc s t = CvWoken \<Longrightarrow> cvspin s = None \<Longrightarrow> lk_step t s (goto t AcqP s)"
| signal_none: "lpc s t = Held \<Longrightarrow> lkspin s = None \<Longrightarrow> cvspin s = None \<Longrightarrow> cvq s = [] \<Longrightarrow>
    lk_step t s (panic_unless (lock_do_i_hold t s) s)"
| signal: "lpc s t = Held \<Longrightarrow> lkspin s = None \<Longrightarrow> cvspin s = None \<Longrightarrow> cvq s = u # us \<Longrightarrow>
    lk_step t s (panic_unless (lock_do_i_hold t s) (goto u CvWoken (s\<lparr>cvq := us\<rparr>)))"
| broadcast: "lpc s t = Held \<Longrightarrow> lkspin s = None \<Longrightarrow> cvspin s = None \<Longrightarrow>
    lk_step t s (panic_unless (lock_do_i_hold t s)
      (s\<lparr>cvq := [], lpc := (\<lambda>u. if u \<in> set (cvq s) then CvWoken else lpc s u)\<rparr>))"

definition lk_init :: lk_sys where
  "lk_init = \<lparr>lsem = \<lparr>s_count = 1, s_sleepers = []\<rparr>, owner = None, lkspin = None, cvq = [], cvspin = None,
     lpc = (\<lambda>_. Idle), panicked = False\<rparr>"

inductive lk_reach :: "lk_sys \<Rightarrow> bool" where
  lk_start: "lk_reach lk_init"
| lk_next: "lk_reach s \<Longrightarrow> lk_step t s s' \<Longrightarrow> lk_reach s'"

text \<open>The program points at which a thread has the one unit of the semaphore.\<close>

definition has_unit :: "lpc \<Rightarrow> bool" where
  "has_unit p \<longleftrightarrow> p \<in> {AcqOwn, Held, Rel1 True, Rel1 False, Rel2 True, Rel2 False}"

definition in_wait :: "lpc \<Rightarrow> bool" where
  "in_wait p \<longleftrightarrow> p \<in> {Rel1 True, Rel2 True, CvGo}"

definition owning :: "lpc \<Rightarrow> bool" where
  "owning p \<longleftrightarrow> p \<in> {Held, Rel1 True, Rel1 False}"

definition disowned :: "lpc \<Rightarrow> bool" where
  "disowned p \<longleftrightarrow> p \<in> {Rel2 True, Rel2 False}"

text \<open>\<open>h\<close> has the unit of the semaphore, \<open>c\<close> the spinlock of the condition variable.\<close>

definition lk_core :: "nat option \<Rightarrow> nat option \<Rightarrow> lk_sys \<Rightarrow> bool" where
  "lk_core h c s \<longleftrightarrow>
     (\<forall>t. has_unit (lpc s t) = (h = Some t)) \<and> (\<forall>t. in_wait (lpc s t) = (c = Some t)) \<and>
     (\<forall>t. owning (lpc s t) = (owner s = Some t)) \<and> (\<forall>t. disowned (lpc s t) = (lkspin s = Some t)) \<and>
     (\<forall>t. (lpc s t = AcqSleep) = (t \<in> set (s_sleepers (lsem s)))) \<and>
     (\<forall>t. (lpc s t = CvSleep) = (t \<in> set (cvq s))) \<and>
     s_count (lsem s) = (if h = None then 1 else 0) \<and> cvspin s = c \<and>
     distinct (s_sleepers (lsem s)) \<and> distinct (cvq s) \<and> \<not> panicked s"

text \<open>Nobody sleeps on a free semaphore unless a thread is on its way to it.\<close>

definition lk_wake :: "nat option \<Rightarrow> lk_sys \<Rightarrow> bool" where
  "lk_wake h s \<longleftrightarrow> (s_sleepers (lsem s) \<noteq> [] \<longrightarrow> h \<noteq> None \<or> (\<exists>t. lpc s t = AcqP))"

definition lk_inv :: "lk_sys \<Rightarrow> bool" where
  "lk_inv s \<longleftrightarrow> (\<exists>h c. lk_core h c s \<and> lk_wake h s)"

lemma lpc_goto [simp]: "lpc (goto t p s) = (lpc s)(t := p)"
  by (simp add: goto_def)

lemma goto_sel [simp]:
  "lsem (goto t p s) = lsem s" "owner (goto t p s) = owner s" "lkspin (goto t p s) = lkspin s"
  "cvq (goto t p s) = cvq s" "cvspin (goto t p s) = cvspin s" "panicked (goto t p s) = panicked s"
  by (simp_all add: goto_def)

lemma panic_unless_True [simp]: "panic_unless True s = s"
  by (simp add: panic_unless_def)

lemma lpc_simps [simp]:
  "\<not> has_unit Idle" "\<not> has_unit AcqP" "\<not> has_unit AcqSleep" "has_unit AcqOwn" "has_unit Held"
  "has_unit (Rel1 w)" "has_unit (Rel2 w)" "\<not> has_unit CvGo" "\<not> has_unit CvSleep" "\<not> has_unit CvWoken"
  "\<not> in_wait Idle" "\<not> in_wait AcqP" "\<not> in_wait AcqSleep" "\<not> in_wait AcqOwn" "\<not> in_wait Held"
  "in_wait (Rel1 w) = w" "in_wait (Rel2 w) = w" "in_wait CvGo" "\<not> in_wait CvSleep" "\<not> in_wait CvWoken"
  "\<not> owning Idle" "\<not> owning AcqP" "\<not> owning AcqSleep" "\<not> owning AcqOwn" "owning Held"
  "owning (Rel1 w)" "\<not> owning (Rel2 w)" "\<not> owning CvGo" "\<not> owning CvSleep" "\<not> owning CvWoken"
  "\<not> disowned Idle" "\<not> disowned AcqP" "\<not> disowned AcqSleep" "\<not> disowned AcqOwn" "\<not> disowned Held"
  "\<not> disowned (Rel1 w)" "disowned (Rel2 w)" "\<not> disowned CvGo" "\<not> disowned CvSleep" "\<not> disowned CvWoken"
  by (cases w; simp add: has_unit_def in_wait_def owning_def disowned_def)+

lemma lk_coreD:
  assumes "lk_core h c s"
  shows "has_unit (lpc s t) = (h = Some t)" "in_wait (lpc s t) = (c = Some t)"
    "owning (lpc s t) = (owner s = Some t)" "disowned (lpc s t) = (lkspin s = Some t)"
    "(lpc s t = AcqSleep) = (t \<in> set (s_sleepers (lsem s)))" "(lpc s t = CvSleep) = (t \<in> set (cvq s))"
    "s_count (lsem s) = (if h = None then 1 else 0)" "cvspin s = c"
    "distinct (s_sleepers (lsem s))" "distinct (cvq s)" "\<not> panicked s"
  using assms unfolding lk_core_def by blast+

text \<open>A resource that at most one thread has, when one thread moves.\<close>

definition moved :: "nat \<Rightarrow> bool \<Rightarrow> bool \<Rightarrow> nat option \<Rightarrow> nat option" where
  "moved t had has r = (if has then Some t else if had then None else r)"

lemma moved_iff:
  assumes "\<forall>u. f (p u) = (r = Some u)" "f q \<longrightarrow> r = None \<or> r = Some t"
  shows "\<forall>u. f ((p(t := q)) u) = (moved t (f (p t)) (f q) r = Some u)"
proof
  fix u
  show "f ((p(t := q)) u) = (moved t (f (p t)) (f q) r = Some u)"
    using assms(1) [rule_format, of u] assms(1) [rule_format, of t] assms(2)
    by (cases "u = t"; cases "f q") (auto simp: moved_def)
qed

lemma lk_core_move:
  assumes inv: "lk_core h c s" and pc: "lpc s' = (lpc s)(t := p)"
    and free: "has_unit p \<longrightarrow> h = None \<or> h = Some t" "in_wait p \<longrightarrow> c = None \<or> c = Some t"
      "owning p \<longrightarrow> owner s = None \<or> owner s = Some t" "disowned p \<longrightarrow> lkspin s = None \<or> lkspin s = Some t"
    and own: "owner s' = moved t (owning (lpc s t)) (owning p) (owner s)"
    and spin: "lkspin s' = moved t (disowned (lpc s t)) (disowned p) (lkspin s)"
    and h': "h' = moved t (has_unit (lpc s t)) (has_unit p) h" and c': "c' = moved t (in_wait (lpc s t)) (in_wait p) c"
    and sl: "set (s_sleepers (lsem s')) = (if p = AcqSleep then insert t else (\<lambda>X. X - {t})) (set (s_sleepers (lsem s)))"
      "distinct (s_sleepers (lsem s'))"
    and cv: "set (cvq s') = (if p = CvSleep then insert t else (\<lambda>X. X - {t})) (set (cvq s))" "distinct (cvq s')"
    and rest: "s_count (lsem s') = (if h' = None then 1 else 0)" "cvspin s' = c'" "\<not> panicked s'"
  shows "lk_core h' c' s'"
proof -
  note d = inv [unfolded lk_core_def]
  have "\<forall>u. has_unit (lpc s' u) = (h' = Some u)" unfolding pc h' using d free(1) by (intro moved_iff) blast+
  moreover have "\<forall>u. in_wait (lpc s' u) = (c' = Some u)" unfolding pc c' using d free(2) by (intro moved_iff) blast+
  moreover have "\<forall>u. owning (lpc s' u) = (owner s' = Some u)" unfolding pc own using d free(3) by (intro moved_iff) blast+
  moreover have "\<forall>u. disowned (lpc s' u) = (lkspin s' = Some u)" unfolding pc spin using d free(4) by (intro moved_iff) blast+
  moreover have "(lpc s' u = AcqSleep) = (u \<in> set (s_sleepers (lsem s')))" for u
    using lk_coreD(5) [OF inv, of u] by (cases "u = t") (auto simp: pc sl(1))
  moreover have "(lpc s' u = CvSleep) = (u \<in> set (cvq s'))" for u
    using lk_coreD(6) [OF inv, of u] by (cases "u = t") (auto simp: pc cv(1))
  ultimately show ?thesis unfolding lk_core_def using sl(2) cv(2) rest by blast
qed

lemma moved_simps [simp]:
  "moved t had True r = Some t" "moved t True False r = None" "moved t False False r = r"
  by (simp_all add: moved_def)

lemma lk_wake_AcqP: "lpc s t = AcqP \<Longrightarrow> lk_wake h s"
  by (auto simp: lk_wake_def)

lemma not_queued:
  assumes "lk_core h c s"
  shows "lpc s t \<noteq> AcqSleep \<Longrightarrow> set (s_sleepers (lsem s)) - {t} = set (s_sleepers (lsem s))"
    "lpc s t \<noteq> CvSleep \<Longrightarrow> set (cvq s) - {t} = set (cvq s)"
  using lk_coreD(5,6) [OF assms, of t] by auto

lemma step_acquire:
  assumes "lk_core h c s" "lpc s t = Idle"
  shows "lk_inv (panic_unless (\<not> lock_do_i_hold t s) (goto t AcqP s))"
proof -
  have o: "owner s \<noteq> Some t" using lk_coreD(3) [OF assms(1), of t] assms(2) by simp
  have "lk_core h c (goto t AcqP s)"
    by (rule lk_core_move [OF assms(1), where t = t and p = AcqP])
      (use assms(2) not_queued [OF assms(1), of t] lk_coreD(7-11) [OF assms(1)] in simp_all)
  moreover have "lk_wake h (goto t AcqP s)" by (rule lk_wake_AcqP [of _ t]) simp
  ultimately show ?thesis using o by (auto simp: lk_inv_def lock_do_i_hold_def)
qed

lemma step_P_sleep:
  assumes "lk_core h c s" "lpc s t = AcqP" "P t (lsem s) = Done (False, q)"
  shows "lk_inv (goto t AcqSleep (s\<lparr>lsem := q\<rparr>))"
proof -
  have q: "s_count (lsem s) = 0" "q = (lsem s)\<lparr>s_sleepers := s_sleepers (lsem s) @ [t]\<rparr>"
    using assms(3) by (simp_all add: P_Done)
  have h: "h \<noteq> None" using lk_coreD(7) [OF assms(1)] q(1) by (auto split: if_splits)
  have "t \<notin> set (s_sleepers (lsem s))" using lk_coreD(5) [OF assms(1), of t] assms(2) by simp
  then have "lk_core h c (goto t AcqSleep (s\<lparr>lsem := q\<rparr>))"
    by (intro lk_core_move [OF assms(1), where t = t and p = AcqSleep])
      (use assms(2) q h not_queued [OF assms(1), of t] lk_coreD(7-11) [OF assms(1)] in auto)
  then show ?thesis using h by (auto simp: lk_inv_def lk_wake_def)
qed

lemma step_P_pass:
  assumes "lk_core h c s" "lpc s t = AcqP" "P t (lsem s) = Done (True, q)"
  shows "lk_inv (goto t AcqOwn (s\<lparr>lsem := q\<rparr>))"
proof -
  have q: "s_count (lsem s) \<noteq> 0" "q = (lsem s)\<lparr>s_count := s_count (lsem s) - 1\<rparr>"
    using assms(3) by (simp_all add: P_Done)
  have h: "h = None" "s_count (lsem s) = 1" using lk_coreD(7) [OF assms(1)] q(1) by (auto split: if_splits)
  have "lk_core (Some t) c (goto t AcqOwn (s\<lparr>lsem := q\<rparr>))"
    by (rule lk_core_move [OF assms(1), where t = t and p = AcqOwn])
      (use assms(2) q h not_queued [OF assms(1), of t] lk_coreD(7-11) [OF assms(1)] in simp_all)
  then show ?thesis by (auto simp: lk_inv_def lk_wake_def)
qed

lemma step_own:
  assumes "lk_core h c s" "lpc s t = AcqOwn"
  shows "lk_inv (panic_unless (owner s = None) (goto t Held (s\<lparr>owner := Some t\<rparr>)))"
proof -
  have h: "h = Some t" using lk_coreD(1) [OF assms(1), of t] assms(2) by simp
  have o: "owner s = None"
  proof (rule ccontr)
    assume "owner s \<noteq> None"
    then obtain u where u: "owner s = Some u" by auto
    then have "owning (lpc s u)" using lk_coreD(3) [OF assms(1), of u] by simp
    then have "has_unit (lpc s u)" by (cases "lpc s u") (auto simp: owning_def)
    then have "u = t" using lk_coreD(1) [OF assms(1), of u] h by simp
    then show False using u lk_coreD(3) [OF assms(1), of t] assms(2) by simp
  qed
  have "lk_core h c (goto t Held (s\<lparr>owner := Some t\<rparr>))"
    by (rule lk_core_move [OF assms(1), where t = t and p = Held])
      (use assms(2) o h not_queued [OF assms(1), of t] lk_coreD(7-11) [OF assms(1)] in simp_all)
  then show ?thesis using o h by (auto simp: lk_inv_def lk_wake_def)
qed

lemma step_release:
  assumes "lk_core h c s" "lpc s t = Held"
  shows "lk_inv (panic_unless (lock_do_i_hold t s) (goto t (Rel1 False) s))"
proof -
  have h: "h = Some t" "owner s = Some t" using lk_coreD(1,3) [OF assms(1), of t] assms(2) by simp_all
  have "lk_core h c (goto t (Rel1 False) s)"
    by (rule lk_core_move [OF assms(1), where t = t and p = "Rel1 False"])
      (use assms(2) h not_queued [OF assms(1), of t] lk_coreD(7-11) [OF assms(1)] in simp_all)
  then show ?thesis using h by (auto simp: lk_inv_def lk_wake_def lock_do_i_hold_def)
qed

lemma step_wait:
  assumes "lk_core h c s" "lpc s t = Held" "cvspin s = None"
  shows "lk_inv (panic_unless (lock_do_i_hold t s) (goto t (Rel1 True) (s\<lparr>cvspin := Some t\<rparr>)))"
proof -
  have h: "h = Some t" "owner s = Some t" using lk_coreD(1,3) [OF assms(1), of t] assms(2) by simp_all
  have c: "c = None" using lk_coreD(8) [OF assms(1)] assms(3) by simp
  have "lk_core h (Some t) (goto t (Rel1 True) (s\<lparr>cvspin := Some t\<rparr>))"
    by (rule lk_core_move [OF assms(1), where t = t and p = "Rel1 True"])
      (use assms(2) h c not_queued [OF assms(1), of t] lk_coreD(7-11) [OF assms(1)] in simp_all)
  then show ?thesis using h by (auto simp: lk_inv_def lk_wake_def lock_do_i_hold_def)
qed

lemma step_disown:
  assumes "lk_core h c s" "lpc s t = Rel1 w" "lkspin s = None"
  shows "lk_inv (goto t (Rel2 w) (s\<lparr>lkspin := Some t, owner := None\<rparr>))"
proof -
  have h: "h = Some t" "owner s = Some t" using lk_coreD(1,3) [OF assms(1), of t] assms(2) by simp_all
  have "c = None \<or> c = Some t" if w using lk_coreD(2) [OF assms(1), of t] assms(2) that by simp
  moreover have "c \<noteq> Some t" if "\<not> w" using lk_coreD(2) [OF assms(1), of t] assms(2) that by simp
  ultimately have "lk_core h c (goto t (Rel2 w) (s\<lparr>lkspin := Some t, owner := None\<rparr>))"
    by (intro lk_core_move [OF assms(1), where t = t and p = "Rel2 w"])
      (use assms(2,3) h not_queued [OF assms(1), of t] lk_coreD(2) [OF assms(1), of t] lk_coreD(7-11) [OF assms(1)]
       in \<open>auto simp: moved_def\<close>)
  then show ?thesis using h by (auto simp: lk_inv_def lk_wake_def)
qed

text \<open>\<open>V\<close> by the releasing thread: first the thread moves with its unit, then the sleeper that was
  woken, if any.\<close>

lemma V_ok: "s_count sm = 0 \<Longrightarrow> V sm = Done (case s_sleepers sm of
    [] \<Rightarrow> (None, sm\<lparr>s_count := 1\<rparr>) | t # ts \<Rightarrow> (Some t, sm\<lparr>s_count := 1, s_sleepers := ts\<rparr>))"
  by (simp add: V_def Let_def)

lemma give_core:
  assumes "lk_core h c s" "lpc s t = Rel2 w"
  shows "lk_core None c (goto t (if w then CvGo else Idle) (s\<lparr>lsem := (lsem s)\<lparr>s_count := 1\<rparr>, lkspin := None\<rparr>))"
proof -
  have h: "h = Some t" "lkspin s = Some t" using lk_coreD(1,4) [OF assms(1), of t] assms(2) by simp_all
  have w: "w = (c = Some t)" using lk_coreD(2) [OF assms(1), of t] assms(2) by simp
  show ?thesis
    by (rule lk_core_move [OF assms(1), where t = t and p = "if w then CvGo else Idle"])
      (use assms(2) h w not_queued [OF assms(1), of t] lk_coreD(7-11) [OF assms(1)] in \<open>simp_all split: if_splits\<close>)
qed

lemma wake_core:
  assumes "lk_core None c s" "s_sleepers (lsem s) = v # rest" "lsem s' = (lsem s)\<lparr>s_sleepers := rest\<rparr>"
    "s' = goto v AcqP (s\<lparr>lsem := (lsem s)\<lparr>s_sleepers := rest\<rparr>\<rparr>)"
  shows "lk_core None c s'"
proof -
  have v: "lpc s v = AcqSleep" using lk_coreD(5) [OF assms(1), of v] assms(2) by simp
  show ?thesis
    by (rule lk_core_move [OF assms(1), where t = v and p = AcqP])
      (use v assms(2,4) not_queued [OF assms(1), of v] lk_coreD(7-11) [OF assms(1)] in auto)
qed

lemma step_give:
  assumes "lk_core h c s" "lpc s t = Rel2 w" "V (lsem s) = Done (u, q)"
  shows "lk_inv (goto t (if w then CvGo else Idle)
      (case u of None \<Rightarrow> s\<lparr>lsem := q, lkspin := None\<rparr> | Some v \<Rightarrow> goto v AcqP (s\<lparr>lsem := q, lkspin := None\<rparr>)))"
proof -
  have "h = Some t" using lk_coreD(1) [OF assms(1), of t] assms(2) by simp
  then have c0: "s_count (lsem s) = 0" using lk_coreD(7) [OF assms(1)] by simp
  let ?p = "if w then CvGo else Idle"
  let ?s1 = "goto t ?p (s\<lparr>lsem := (lsem s)\<lparr>s_count := 1\<rparr>, lkspin := None\<rparr>)"
  note g = give_core [OF assms(1,2)]
  show ?thesis
  proof (cases "s_sleepers (lsem s)")
    case Nil
    then have "u = None" "q = (lsem s)\<lparr>s_count := 1\<rparr>" using assms(3) V_ok [OF c0] by simp_all
    then show ?thesis using g Nil unfolding lk_inv_def by (intro exI [of _ None] exI [of _ c]) (simp add: lk_wake_def)
  next
    case (Cons v rest)
    then have u: "u = Some v" "q = (lsem s)\<lparr>s_count := 1, s_sleepers := rest\<rparr>" using assms(3) V_ok [OF c0] by simp_all
    have ne: "v \<noteq> t" using lk_coreD(5) [OF assms(1), of v] assms(2) Cons by auto
    let ?s2 = "goto v AcqP (?s1\<lparr>lsem := (lsem ?s1)\<lparr>s_sleepers := rest\<rparr>\<rparr>)"
    have "lk_core None c ?s2" by (rule wake_core [OF g]) (use Cons in simp_all)
    moreover have "lk_wake None ?s2" by (rule lk_wake_AcqP [of _ v]) simp
    moreover have "?s2 = goto t ?p (goto v AcqP (s\<lparr>lsem := q, lkspin := None\<rparr>))"
      using ne by (simp add: goto_def u(2) fun_upd_twist)
    ultimately have "lk_inv (goto t ?p (goto v AcqP (s\<lparr>lsem := q, lkspin := None\<rparr>)))"
      unfolding lk_inv_def by metis
    then show ?thesis using u(1) by simp
  qed
qed

lemma lk_wake_mono:
  "lk_wake h s \<Longrightarrow> lsem s' = lsem s \<Longrightarrow> (\<And>t. lpc s t = AcqP \<Longrightarrow> lpc s' t = AcqP) \<Longrightarrow> lk_wake h s'"
  by (auto simp: lk_wake_def)

lemma step_join:
  assumes "lk_core h c s" "lk_wake h s" "lpc s t = CvGo"
  shows "lk_inv (goto t CvSleep (s\<lparr>cvq := cvq s @ [t], cvspin := None\<rparr>))"
proof -
  have c: "c = Some t" using lk_coreD(2) [OF assms(1), of t] assms(3) by simp
  have n: "t \<notin> set (cvq s)" using lk_coreD(6) [OF assms(1), of t] assms(3) by simp
  have "lk_core h None (goto t CvSleep (s\<lparr>cvq := cvq s @ [t], cvspin := None\<rparr>))"
    by (rule lk_core_move [OF assms(1), where t = t and p = CvSleep])
      (use assms(3) c n not_queued [OF assms(1), of t] lk_coreD(7-11) [OF assms(1)] in simp_all)
  moreover have "lk_wake h (goto t CvSleep (s\<lparr>cvq := cvq s @ [t], cvspin := None\<rparr>))"
    by (rule lk_wake_mono [OF assms(2)]) (use assms(3) in \<open>auto simp: fun_upd_apply\<close>)
  ultimately show ?thesis unfolding lk_inv_def by blast
qed

lemma step_retake:
  assumes "lk_core h c s" "lpc s t = CvWoken"
  shows "lk_inv (goto t AcqP s)"
proof -
  have "lk_core h c (goto t AcqP s)"
    by (rule lk_core_move [OF assms(1), where t = t and p = AcqP])
      (use assms(2) not_queued [OF assms(1), of t] lk_coreD(7-11) [OF assms(1)] in simp_all)
  moreover have "lk_wake h (goto t AcqP s)" by (rule lk_wake_AcqP [of _ t]) simp
  ultimately show ?thesis unfolding lk_inv_def by blast
qed

lemma step_signal:
  assumes "lk_core h c s" "lpc s t = Held" "cvq s = u # us"
  shows "lk_inv (panic_unless (lock_do_i_hold t s) (goto u CvWoken (s\<lparr>cvq := us\<rparr>)))"
proof -
  have h: "h = Some t" "owner s = Some t" using lk_coreD(1,3) [OF assms(1), of t] assms(2) by simp_all
  have u: "lpc s u = CvSleep" using lk_coreD(6) [OF assms(1), of u] assms(3) by simp
  have "lk_core h c (goto u CvWoken (s\<lparr>cvq := us\<rparr>))"
    by (rule lk_core_move [OF assms(1), where t = u and p = CvWoken])
      (use assms(3) u not_queued [OF assms(1), of u] lk_coreD(7-11) [OF assms(1)] in auto)
  then show ?thesis using h unfolding lk_inv_def by (auto simp: lk_wake_def lock_do_i_hold_def)
qed

lemma step_broadcast:
  assumes "lk_core h c s" "lpc s t = Held"
  shows "lk_inv (panic_unless (lock_do_i_hold t s)
      (s\<lparr>cvq := [], lpc := (\<lambda>u. if u \<in> set (cvq s) then CvWoken else lpc s u)\<rparr>))"
proof -
  have h: "h = Some t" "owner s = Some t" using lk_coreD(1,3) [OF assms(1), of t] assms(2) by simp_all
  let ?s = "s\<lparr>cvq := [], lpc := (\<lambda>u. if u \<in> set (cvq s) then CvWoken else lpc s u)\<rparr>"
  have p: "has_unit (lpc ?s u) = has_unit (lpc s u)" "in_wait (lpc ?s u) = in_wait (lpc s u)"
    "owning (lpc ?s u) = owning (lpc s u)" "disowned (lpc ?s u) = disowned (lpc s u)"
    "(lpc ?s u = AcqSleep) = (lpc s u = AcqSleep)" "lpc ?s u \<noteq> CvSleep" for u
    using lk_coreD(6) [OF assms(1), of u] by (cases "u \<in> set (cvq s)"; simp)+
  have "lk_core h c ?s"
    using assms(1) unfolding lk_core_def p by simp
  then show ?thesis using h unfolding lk_inv_def by (auto simp: lk_wake_def lock_do_i_hold_def)
qed

lemma lk_inv_step:
  assumes "lk_step t s s'" "lk_inv s"
  shows "lk_inv s'"
proof -
  obtain h c where i: "lk_core h c s" "lk_wake h s" using assms(2) by (auto simp: lk_inv_def)
  show ?thesis using assms(1)
  proof cases
    case (give_panic w r)
    then have "h = Some t" using lk_coreD(1) [OF i(1), of t] by simp
    then have "s_count (lsem s) = 0" using lk_coreD(7) [OF i(1)] by simp
    then show ?thesis using give_panic V_ok by simp
  next
    case signal_none
    then have "owner s = Some t" using lk_coreD(3) [OF i(1), of t] by simp
    then show ?thesis using signal_none assms(2) by (simp add: lock_do_i_hold_def)
  next
    case acquire
    then show ?thesis using step_acquire [OF i(1)] by simp
  next
    case (P_sleep q)
    then show ?thesis using step_P_sleep [OF i(1)] by simp
  next
    case (P_pass q)
    then show ?thesis using step_P_pass [OF i(1)] by simp
  next
    case own
    then show ?thesis using step_own [OF i(1)] by simp
  next
    case release
    then show ?thesis using step_release [OF i(1)] by simp
  next
    case wait
    then show ?thesis using step_wait [OF i(1)] by simp
  next
    case (disown w)
    then show ?thesis using step_disown [OF i(1)] by simp
  next
    case (give w u q)
    then show ?thesis using step_give [OF i(1)] by simp
  next
    case join
    then show ?thesis using step_join [OF i] by simp
  next
    case retake
    then show ?thesis using step_retake [OF i(1)] by simp
  next
    case (signal u us)
    then show ?thesis using step_signal [OF i(1)] by simp
  next
    case broadcast
    then show ?thesis using step_broadcast [OF i(1)] by simp
  qed
qed

lemma lk_reach_inv: "lk_reach s \<Longrightarrow> lk_inv s"
proof (induction rule: lk_reach.induct)
  case lk_start
  have "lk_core None None lk_init" by (simp add: lk_core_def lk_init_def)
  then show ?case unfolding lk_inv_def by (intro exI [of _ None]) (simp add: lk_wake_def lk_init_def)
qed (rule lk_inv_step)

section \<open>Properties\<close>

lemma lk_reachE:
  assumes "lk_reach s"
  obtains h c where "lk_core h c s" "lk_wake h s"
  using lk_reach_inv [OF assms] by (auto simp: lk_inv_def)

lemma unit_steps:
  assumes "lk_core (Some u) c s"
  shows "\<exists>s'. lk_step u s s'"
proof -
  have hu: "has_unit (lpc s u)" using lk_coreD(1) [OF assms, of u] by simp
  have free: "lkspin s = None" if "\<not> disowned (lpc s u)"
  proof (rule ccontr)
    assume "lkspin s \<noteq> None"
    then obtain x where x: "lkspin s = Some x" by auto
    then have "disowned (lpc s x)" using lk_coreD(4) [OF assms, of x] by simp
    moreover from this have "x = u" using lk_coreD(1) [OF assms, of x] by (auto simp: disowned_def has_unit_def)
    ultimately show False using that by simp
  qed
  have c0: "s_count (lsem s) = 0" using lk_coreD(7) [OF assms] by simp
  consider "lpc s u = AcqOwn" | "lpc s u = Held" | w where "lpc s u = Rel1 w" | w where "lpc s u = Rel2 w"
    using hu by (auto simp: has_unit_def)
  then show ?thesis
  proof cases
    case 1
    then show ?thesis using free lk_step.own [of s u] by (auto simp: disowned_def)
  next
    case 2
    then show ?thesis using free lk_step.release [of s u] by (auto simp: disowned_def)
  next
    case (3 w)
    then show ?thesis using free lk_step.disown [of s u w] by (auto simp: disowned_def)
  next
    case (4 w)
    obtain v q where "V (lsem s) = Done (v, q)" using V_ok [OF c0] by (cases "s_sleepers (lsem s)") auto
    then show ?thesis using lk_step.give [OF 4] by blast
  qed
qed

lemma AcqP_steps:
  assumes "lpc s t = AcqP"
  shows "\<exists>s'. lk_step t s s'"
proof (cases "s_count (lsem s) = 0")
  case True
  then have "P t (lsem s) = Done (False, (lsem s)\<lparr>s_sleepers := s_sleepers (lsem s) @ [t]\<rparr>)" by (simp add: P_Done)
  then show ?thesis using lk_step.P_sleep [OF assms] by blast
next
  case False
  then have "P t (lsem s) = Done (True, (lsem s)\<lparr>s_count := s_count (lsem s) - 1\<rparr>)" by (simp add: P_Done)
  then show ?thesis using lk_step.P_pass [OF assms] by blast
qed

definition demo_held :: lk_sys where
  "demo_held = \<lparr>lsem = \<lparr>s_count = 0, s_sleepers = []\<rparr>, owner = Some 0, lkspin = None, cvq = [], cvspin = None,
     lpc = (\<lambda>_. Idle)(0 := Held), panicked = False\<rparr>"

lemma demo_held_reach: "lk_reach demo_held"
proof -
  let ?s1 = "goto 0 AcqP lk_init"
  let ?s2 = "goto 0 AcqOwn (?s1\<lparr>lsem := \<lparr>s_count = 0, s_sleepers = []\<rparr>\<rparr>)"
  have "lk_step 0 lk_init ?s1"
    using lk_step.acquire [of lk_init 0] by (simp add: lk_init_def panic_unless_def lock_do_i_hold_def)
  then have 1: "lk_reach ?s1" using lk_start lk_next by blast
  have "lk_step 0 ?s1 ?s2" by (rule lk_step.P_pass) (simp_all add: lk_init_def goto_def P_def)
  then have 2: "lk_reach ?s2" using 1 lk_next by blast
  have "lk_step 0 ?s2 (goto 0 Held (?s2\<lparr>owner := Some 0\<rparr>))"
    using lk_step.own [of ?s2 0] by (simp add: lk_init_def goto_def panic_unless_def)
  moreover have "goto 0 Held (?s2\<lparr>owner := Some 0\<rparr>) = demo_held"
    by (simp add: demo_held_def lk_init_def goto_def)
  ultimately show ?thesis using 2 lk_next by metis
qed

definition demo_asleep :: lk_sys where
  "demo_asleep = demo_held\<lparr>lsem := \<lparr>s_count = 0, s_sleepers = [1]\<rparr>, lpc := (\<lambda>_. Idle)(0 := Held, 1 := AcqSleep)\<rparr>"

lemma demo_asleep_reach: "lk_reach demo_asleep"
proof -
  let ?s1 = "goto 1 AcqP demo_held"
  have "lk_step 1 demo_held ?s1"
    using lk_step.acquire [of demo_held 1] by (simp add: demo_held_def panic_unless_def lock_do_i_hold_def)
  then have 1: "lk_reach ?s1" using demo_held_reach lk_next by blast
  have "lk_step 1 ?s1 (goto 1 AcqSleep (?s1\<lparr>lsem := \<lparr>s_count = 0, s_sleepers = [1]\<rparr>\<rparr>))"
    by (rule lk_step.P_sleep) (simp_all add: demo_held_def goto_def P_def)
  moreover have "goto 1 AcqSleep (?s1\<lparr>lsem := \<lparr>s_count = 0, s_sleepers = [1]\<rparr>\<rparr>) = demo_asleep"
    by (simp add: demo_asleep_def demo_held_def goto_def)
  ultimately show ?thesis using 1 lk_next by metis
qed

text \<open>C1.  In every interleaving of \<^verbatim>\<open>lock_acquire\<close>, \<^verbatim>\<open>lock_release\<close>, \<^verbatim>\<open>cv_wait\<close>, \<^verbatim>\<open>cv_signal\<close> and
  \<^verbatim>\<open>cv_broadcast\<close> by any number of threads, at most one thread is between acquiring and
  releasing the lock, \<^verbatim>\<open>lk_owner\<close> names exactly that thread, and no assertion of the routines
  fails.\<close>

theorem lock_mutual_exclusion:
  assumes "lk_reach s"
  shows "\<not> panicked s \<and> (\<forall>t. owner s = Some t \<longleftrightarrow> owning (lpc s t)) \<and>
    (\<forall>t u. has_unit (lpc s t) \<and> has_unit (lpc s u) \<longrightarrow> t = u)"
proof -
  obtain h c where i: "lk_core h c s" using lk_reachE [OF assms] by blast
  then show ?thesis using lk_coreD(1,3,11) [OF i] by auto
qed

theorem lock_mutual_exclusion_witness:
  "lk_reach demo_held \<and> owner demo_held = Some 0 \<and> \<not> panicked demo_held \<and>
   {u. has_unit (lpc demo_held u)} = {0}"
proof -
  have "has_unit (lpc demo_held 0)" "owner demo_held = Some 0" by (simp_all add: demo_held_def has_unit_def)
  then show ?thesis using lock_mutual_exclusion [OF demo_held_reach] demo_held_reach by blast
qed

text \<open>C2.  No wakeup is lost: whenever some thread is inside \<^verbatim>\<open>lock_acquire\<close>, \<^verbatim>\<open>lock_release\<close> or
  the retaking part of \<^verbatim>\<open>cv_wait\<close>, asleep or not, a thread that is neither idle nor asleep can
  take a step; so a sleeping acquirer is never left behind by a system that stands still.\<close>

theorem lock_no_deadlock:
  assumes "lk_reach s" "lpc s t \<notin> {Idle, CvSleep}"
  shows "\<exists>u s'. lpc s u \<notin> {Idle, AcqSleep, CvSleep} \<and> lk_step u s s'"
proof -
  obtain h c where i: "lk_core h c s" "lk_wake h s" using lk_reachE [OF assms(1)] by blast
  have holder: ?thesis if "h = Some u" for u
    by (rule exI [of _ u])
      (use unit_steps [of u c s] that i(1) lk_coreD(1) [OF i(1), of u] in \<open>auto simp: has_unit_def\<close>)
  have acq: ?thesis if "lpc s u = AcqP" for u by (rule exI [of _ u]) (use AcqP_steps [OF that] that in auto)
  show ?thesis
  proof (cases h)
    case None
    then have no: "\<not> has_unit (lpc s u)" for u using lk_coreD(1) [OF i(1), of u] by simp
    consider "lpc s t = AcqSleep" | "lpc s t = AcqP" | "lpc s t = CvGo" | "lpc s t = CvWoken"
      using assms(2) no [of t] by (cases "lpc s t") (auto simp: has_unit_def)
    then show ?thesis
    proof cases
      case 1
      then have "s_sleepers (lsem s) \<noteq> []" using lk_coreD(5) [OF i(1), of t] by auto
      then show ?thesis using i(2) None acq by (auto simp: lk_wake_def)
    next
      case 2
      then show ?thesis using acq by blast
    next
      case 3
      then show ?thesis using lk_step.join [of s t] by (intro exI [of _ t]) auto
    next
      case 4
      show ?thesis
      proof (cases c)
        case None
        then show ?thesis using 4 lk_step.retake [of s t] lk_coreD(8) [OF i(1)] by (intro exI [of _ t]) auto
      next
        case (Some u)
        then have "lpc s u = CvGo" using lk_coreD(2) [OF i(1), of u] no [of u] by (auto simp: in_wait_def has_unit_def)
        then show ?thesis using lk_step.join [of s u] by (intro exI [of _ u]) auto
      qed
    qed
  qed (use holder in blast)
qed

theorem lock_no_deadlock_witness:
  "lk_reach demo_asleep \<and> lpc demo_asleep 1 = AcqSleep \<and>
   (\<exists>u s'. lpc demo_asleep u \<notin> {Idle, AcqSleep, CvSleep} \<and> lk_step u demo_asleep s')"
proof -
  have "lpc demo_asleep 1 = AcqSleep" by (simp add: demo_asleep_def)
  then show ?thesis using lock_no_deadlock [OF demo_asleep_reach, of 1] demo_asleep_reach by simp
qed

text \<open>C3.  \<^verbatim>\<open>cv_signal\<close> and \<^verbatim>\<open>cv_broadcast\<close> miss no waiter: when a thread that holds the lock has
  the spinlock of the condition variable to itself, every thread that entered \<^verbatim>\<open>cv_wait\<close> and
  was not yet woken is on the wait channel, and only such threads are.\<close>

theorem cv_signal_sees_waiters:
  assumes "lk_reach s" "lpc s t = Held" "cvspin s = None"
  shows "{u. in_wait (lpc s u) \<or> lpc s u = CvSleep} = set (cvq s)"
proof -
  obtain h c where i: "lk_core h c s" using lk_reachE [OF assms(1)] by blast
  then have "c = None" using lk_coreD(8) [OF i] assms(3) by simp
  then show ?thesis using lk_coreD(2,6) [OF i] by auto
qed

theorem cv_signal_sees_waiters_witness:
  "lk_reach demo_asleep \<and> {u. in_wait (lpc demo_asleep u) \<or> lpc demo_asleep u = CvSleep} = set (cvq demo_asleep)"
  using cv_signal_sees_waiters [OF demo_asleep_reach, of 0] demo_asleep_reach
  by (simp add: demo_asleep_def demo_held_def)

text \<open>C4.  Semaphores neither create nor lose units: in every interleaving of \<open>P\<close> and \<open>V\<close> the
  initial count plus the completed \<open>V\<close> calls is the completed \<open>P\<close> calls plus the current
  count; and while threads sleep, every unit of the count is matched by a thread that was
  woken and is about to take it, so a sleeper never waits next to a spare unit.\<close>

theorem sem_units_conserved:
  assumes "sem_reach n s"
  shows "unat n + vs s = passed s + unat (s_count (sem s)) \<and>
    (s_sleepers (sem s) \<noteq> [] \<longrightarrow> unat (s_count (sem s)) \<le> card {t. at s t = Woken}) \<and>
    distinct (s_sleepers (sem s)) \<and> set (s_sleepers (sem s)) = {t. at s t = Asleep}"
  using sem_reach_inv [OF assms] by (auto simp: sem_inv_def)

theorem sem_units_conserved_witness:
  "\<exists>s. sem_reach 0 s \<and> s_sleepers (sem s) = [7] \<and> vs s = passed s + unat (s_count (sem s))"
proof -
  let ?s0 = "\<lparr>sem = \<lparr>s_count = 0, s_sleepers = []\<rparr>, at = (\<lambda>_. Out), passed = 0, vs = 0\<rparr>"
  let ?s1 = "?s0\<lparr>at := (at ?s0)(7 := Trying)\<rparr>"
  let ?s2 = "?s1\<lparr>sem := \<lparr>s_count = 0, s_sleepers = [7]\<rparr>, at := (at ?s1)(7 := Asleep)\<rparr>"
  have "sem_step ?s0 ?s1" by (rule sem_step.begin_P) simp
  moreover have "sem_step ?s1 ?s2" by (rule sem_step.sleep) (simp_all add: P_def)
  ultimately have r: "sem_reach 0 ?s2" using sem_init sem_next by blast
  then show ?thesis using sem_units_conserved [OF r] by (intro exI [of _ ?s2]) simp
qed

text \<open>Creating a semaphore, a lock or a condition variable either fails with nothing left
  allocated, however far it got, or returns an object whose blocks the destructor all gives
  back.\<close>

theorem synch_create_no_leak:
  assumes "kheap_ok h"
  shows "(\<exists>sm h'. sem_create n h = Done (sm, h') \<and> (case sm of
        None \<Rightarrow> kh_live h' = kh_live h
      | Some x \<Rightarrow> sem_count x = n \<and> length (kh_live h') = length (kh_live h) + 3 \<and>
          (\<exists>h''. sem_destroy (Some x) h' = Done h'' \<and> kh_live h'' = kh_live h))) \<and>
    (\<exists>l h'. lock_create h = Done (l, h') \<and> (case l of
        None \<Rightarrow> kh_live h' = kh_live h
      | Some x \<Rightarrow> lk_owner x = None \<and> sem_count (lk_sem x) = 1 \<and> length (kh_live h') = length (kh_live h) + 5 \<and>
          (\<exists>h''. lock_destroy (Some x) h' = Done h'' \<and> kh_live h'' = kh_live h))) \<and>
    (\<exists>v h'. cv_create h = Done (v, h') \<and> (case v of
        None \<Rightarrow> kh_live h' = kh_live h
      | Some x \<Rightarrow> cv_waiters x = [] \<and> length (kh_live h') = length (kh_live h) + 3 \<and>
          (\<exists>h''. cv_destroy (Some x) h' = Done h'' \<and> kh_live h'' = kh_live h)))"
  using sem_create_spec [OF assms, of n] lock_create_spec [OF assms] cv_create_spec [OF assms] by auto

theorem synch_create_no_leak_witness:
  "\<exists>l h'. lock_create \<lparr>kh_next = 0, kh_live = [], kh_avail = (\<lambda>n. n < 4)\<rparr> = Done (l, h') \<and>
     l = None \<and> kh_live h' = []"
proof -
  let ?h = "\<lparr>kh_next = 0, kh_live = [], kh_avail = (\<lambda>n. n < 4)\<rparr>"
  have "kheap_ok ?h" by (simp add: kheap_ok_def)
  moreover have "\<exists>h'. lock_create ?h = Done (None, h')"
    by (simp add: lock_create_def sem_create_def kmalloc_def kfree_def)
  ultimately show ?thesis using synch_create_no_leak [of ?h] by auto
qed

end
