(* ===== verification/DumbVM.thy ===== *)
theory DumbVM
  imports KHeap
begin

text \<open>
  Physical memory and address spaces (\<^verbatim>\<open>kern/arch/mips/vm/ram.c\<close> and the part of
  \<^verbatim>\<open>kern/arch/mips/vm/dumbvm.c\<close> that is built, the one that gives frames back).

  Physical memory is a byte function, frames are numbered from physical address 0.  The
  frame table, the boundary of the memory that was never handed out and the TLB of the
  processor are part of one state.  The sections under \<^verbatim>\<open>freemem_lock\<close> and \<^verbatim>\<open>stealmem_lock\<close> are
  atomic; addresses and sizes are 32 bit words and wrap as in the source.
\<close>

definition PAGE_SIZE :: u32 where "PAGE_SIZE = 4096"
definition PAGE_FRAME :: u32 where "PAGE_FRAME = 0xfffff000"
definition MIPS_KSEG0 :: u32 where "MIPS_KSEG0 = 0x80000000"
definition USERSTACK :: u32 where "USERSTACK = 0x80000000"
definition DUMBVM_STACKPAGES :: u32 where "DUMBVM_STACKPAGES = 18"
definition NUM_TLB :: nat where "NUM_TLB = 64"
definition TLBLO_DIRTY :: u32 where "TLBLO_DIRTY = 0x400"
definition TLBLO_VALID :: u32 where "TLBLO_VALID = 0x200"

definition TLBHI_INVALID :: "nat \<Rightarrow> u32" where
  "TLBHI_INVALID entryno = push_bit 12 (0x80000 + of_nat entryno)"

definition TLBLO_INVALID :: u32 where "TLBLO_INVALID = 0"

definition PADDR_TO_KVADDR :: "u32 \<Rightarrow> u32" where
  "PADDR_TO_KVADDR paddr = paddr + MIPS_KSEG0"

record vm =
  firstpaddr :: u32
  lastpaddr :: u32
  freeRamFrames :: "bool list"
  allocSize :: "u32 list"
  nRamFrames :: nat
  allocTableActive :: bool
  pmem :: "u32 \<Rightarrow> u8"
  tlb :: "(u32 \<times> u32) list"
  vheap :: kheap
  curcpu_exists :: bool
  spinlocks_held :: nat
  in_interrupt :: bool

section \<open>The memory that was never handed out\<close>

definition ram_bootstrap :: "u32 \<Rightarrow> u32 \<Rightarrow> vm \<Rightarrow> vm" where
  "ram_bootstrap ramsize firstfree s =
     s\<lparr>lastpaddr := (if ramsize > 512 * 1024 * 1024 then 512 * 1024 * 1024 else ramsize),
       firstpaddr := firstfree - MIPS_KSEG0\<rparr>"

definition ram_stealmem :: "u32 \<Rightarrow> vm \<Rightarrow> u32 \<times> vm" where
  "ram_stealmem npages s =
     (let sz = npages * PAGE_SIZE in
      if firstpaddr s + sz > lastpaddr s then (0, s)
      else (firstpaddr s, s\<lparr>firstpaddr := firstpaddr s + sz\<rparr>))"

definition ram_getsize :: "vm \<Rightarrow> u32" where
  "ram_getsize s = lastpaddr s"

definition ram_getfirstfree :: "vm \<Rightarrow> u32 \<times> vm" where
  "ram_getfirstfree s = (firstpaddr s, s\<lparr>firstpaddr := 0, lastpaddr := 0\<rparr>)"

section \<open>The frame table\<close>

definition isTableActive :: "vm \<Rightarrow> bool" where
  "isTableActive s = allocTableActive s"

text \<open>\<open>km\<close> is the kernel allocator: it may take frames for the table from the memory that was
  never handed out.\<close>

definition vm_bootstrap :: "(nat \<Rightarrow> vm \<Rightarrow> bool \<times> vm) \<Rightarrow> vm \<Rightarrow> vm" where
  "vm_bootstrap km s =
     (let s = s\<lparr>nRamFrames := unat (ram_getsize s) div 4096\<rparr> in
      case km (nRamFrames s) s of
        (False, s) \<Rightarrow> s
      | (True, s) \<Rightarrow>
          (case km (4 * nRamFrames s) s of
             (False, s) \<Rightarrow> s\<lparr>freeRamFrames := []\<rparr>
           | (True, s) \<Rightarrow> s\<lparr>freeRamFrames := replicate (nRamFrames s) False,
                            allocSize := replicate (nRamFrames s) 0,
                            allocTableActive := True\<rparr>))"

definition dumbvm_can_sleep :: "vm \<Rightarrow> unit outcome" where
  "dumbvm_can_sleep s =
     (if curcpu_exists s
      then obind (kassert (spinlocks_held s = 0)) (\<lambda>_. kassert (\<not> in_interrupt s))
      else Done ())"

text \<open>The search of \<open>getfreeppages\<close>: \<open>first\<close> is the start of the current run of free frames;
  the result is \<open>-1\<close> when no run is long enough.\<close>

function find_free :: "bool list \<Rightarrow> nat \<Rightarrow> int \<Rightarrow> nat \<Rightarrow> int \<Rightarrow> int" where
  "find_free fr n np i first =
     (if i < n then
        if fr ! i then
          let first = (if i = 0 \<or> \<not> fr ! (i - 1) then int i else first) in
          if int i - first + 1 \<ge> np then first else find_free fr n np (Suc i) first
        else find_free fr n np (Suc i) first
      else -1)"
  by pat_completeness auto
termination by (relation "measure (\<lambda>(fr, n, np, i, first). n - i)") auto

declare find_free.simps [simp del]

text \<open>The loops that clear and set entries of the table from \<open>first\<close> on.\<close>

definition set_frames :: "bool \<Rightarrow> nat \<Rightarrow> nat \<Rightarrow> bool list \<Rightarrow> bool list outcome" where
  "set_frames v first np fr =
     (if first + np \<le> length fr then Done (take first fr @ replicate np v @ drop (first + np) fr)
      else if np = 0 then Done fr else Stop Fault)"

definition getfreeppages :: "u32 \<Rightarrow> vm \<Rightarrow> (u32 \<times> vm) outcome" where
  "getfreeppages npages s =
     (let np = sint npages in
      if \<not> isTableActive s then Done (0, s)
      else
        let found = find_free (freeRamFrames s) (nRamFrames s) np 0 (-1) in
        if found \<ge> 0 then
          obind (set_frames False (nat found) (nat np) (freeRamFrames s)) (\<lambda>fr.
          obind (upd_or_fault (allocSize s) (nat found) npages) (\<lambda>sizes.
          Done (of_int found * PAGE_SIZE, s\<lparr>freeRamFrames := fr, allocSize := sizes\<rparr>)))
        else Done (0, s))"

definition getppages :: "u32 \<Rightarrow> vm \<Rightarrow> (u32 \<times> vm) outcome" where
  "getppages npages s =
     obind (getfreeppages npages s) (\<lambda>(addr, s).
     let (addr, s) = (if addr = 0 then ram_stealmem npages s else (addr, s)) in
     if addr \<noteq> 0 \<and> isTableActive s then
       obind (upd_or_fault (allocSize s) (unat (addr div PAGE_SIZE)) npages) (\<lambda>sizes.
       Done (addr, s\<lparr>allocSize := sizes\<rparr>))
     else Done (addr, s))"

definition freeppages :: "u32 \<Rightarrow> u32 \<Rightarrow> vm \<Rightarrow> (bool \<times> vm) outcome" where
  "freeppages addr npages s =
     (if \<not> isTableActive s then Done (False, s)
      else
        let first = unat (addr div PAGE_SIZE) in
        obind (kassert (nRamFrames s > first)) (\<lambda>_.
        obind (set_frames True first (nat (sint npages)) (freeRamFrames s)) (\<lambda>fr.
        Done (True, s\<lparr>freeRamFrames := fr\<rparr>))))"

definition alloc_kpages :: "u32 \<Rightarrow> vm \<Rightarrow> (u32 \<times> vm) outcome" where
  "alloc_kpages npages s =
     obind (dumbvm_can_sleep s) (\<lambda>_.
     obind (getppages npages s) (\<lambda>(pa, s).
     if pa = 0 then Done (0, s) else Done (PADDR_TO_KVADDR pa, s)))"

definition free_kpages :: "u32 \<Rightarrow> vm \<Rightarrow> vm outcome" where
  "free_kpages addr s =
     (if isTableActive s then
        let paddr = addr - MIPS_KSEG0; first = unat (paddr div PAGE_SIZE) in
        obind (kassert (nRamFrames s > first)) (\<lambda>_.
        obind (nth_or_fault (allocSize s) first) (\<lambda>n.
        obind (freeppages paddr n s) (\<lambda>(_, s). Done s)))
      else Done s)"

section \<open>Address spaces\<close>

record addrspace =
  as_self :: nat
  as_vbase1 :: u32
  as_pbase1 :: u32
  as_npages1 :: u32
  as_vbase2 :: u32
  as_pbase2 :: u32
  as_npages2 :: u32
  as_stackpbase :: u32

definition VM_FAULT_READ :: int where "VM_FAULT_READ = 0"
definition VM_FAULT_WRITE :: int where "VM_FAULT_WRITE = 1"
definition VM_FAULT_READONLY :: int where "VM_FAULT_READONLY = 2"

text \<open>The first TLB slot without the valid bit, from \<open>i\<close> on.\<close>

fun tlb_slot :: "(u32 \<times> u32) list \<Rightarrow> nat \<Rightarrow> nat option" where
  "tlb_slot [] i = None"
| "tlb_slot ((ehi, elo) # es) i = (if elo AND TLBLO_VALID \<noteq> 0 then tlb_slot es (Suc i) else Some i)"

definition vm_fault :: "int \<Rightarrow> u32 \<Rightarrow> addrspace option option \<Rightarrow> vm \<Rightarrow> (errno option \<times> vm) outcome" where
  "vm_fault faulttype faultaddr curproc s =
     (let faultaddress = faultaddr AND PAGE_FRAME in
      if faulttype = VM_FAULT_READONLY then Stop Panic
      else if faulttype \<noteq> VM_FAULT_READ \<and> faulttype \<noteq> VM_FAULT_WRITE then Done (Some EINVAL, s)
      else case curproc of None \<Rightarrow> Done (Some EFAULT, s) | Some getas \<Rightarrow>
      (case getas of None \<Rightarrow> Done (Some EFAULT, s) | Some as \<Rightarrow>
        obind (kassert (as_vbase1 as \<noteq> 0 \<and> as_pbase1 as \<noteq> 0 \<and> as_npages1 as \<noteq> 0 \<and>
                        as_vbase2 as \<noteq> 0 \<and> as_pbase2 as \<noteq> 0 \<and> as_npages2 as \<noteq> 0 \<and> as_stackpbase as \<noteq> 0)) (\<lambda>_.
        obind (kassert (as_vbase1 as AND PAGE_FRAME = as_vbase1 as \<and> as_pbase1 as AND PAGE_FRAME = as_pbase1 as \<and>
                        as_vbase2 as AND PAGE_FRAME = as_vbase2 as \<and> as_pbase2 as AND PAGE_FRAME = as_pbase2 as \<and>
                        as_stackpbase as AND PAGE_FRAME = as_stackpbase as)) (\<lambda>_.
        let vbase1 = as_vbase1 as; vtop1 = vbase1 + as_npages1 as * PAGE_SIZE;
            vbase2 = as_vbase2 as; vtop2 = vbase2 + as_npages2 as * PAGE_SIZE;
            stackbase = USERSTACK - DUMBVM_STACKPAGES * PAGE_SIZE; stacktop = USERSTACK;
            install = (\<lambda>paddr.
              obind (kassert (paddr AND PAGE_FRAME = paddr)) (\<lambda>_.
              case tlb_slot (tlb s) 0 of
                Some i \<Rightarrow> Done (None, s\<lparr>tlb := (tlb s)[i := (faultaddress, paddr OR TLBLO_DIRTY OR TLBLO_VALID)]\<rparr>)
              | None \<Rightarrow> Done (Some EFAULT, s)))
        in
        if faultaddress \<ge> vbase1 \<and> faultaddress < vtop1 then install (faultaddress - vbase1 + as_pbase1 as)
        else if faultaddress \<ge> vbase2 \<and> faultaddress < vtop2 then install (faultaddress - vbase2 + as_pbase2 as)
        else if faultaddress \<ge> stackbase \<and> faultaddress < stacktop
          then install (faultaddress - stackbase + as_stackpbase as)
        else Done (Some EFAULT, s)))))"

definition as_create :: "vm \<Rightarrow> addrspace option \<times> vm" where
  "as_create s =
     (case kmalloc (vheap s) of
        (None, h) \<Rightarrow> (None, s\<lparr>vheap := h\<rparr>)
      | (Some as, h) \<Rightarrow>
          (Some \<lparr>as_self = as, as_vbase1 = 0, as_pbase1 = 0, as_npages1 = 0, as_vbase2 = 0, as_pbase2 = 0,
                 as_npages2 = 0, as_stackpbase = 0\<rparr>, s\<lparr>vheap := h\<rparr>))"

definition as_destroy :: "addrspace \<Rightarrow> vm \<Rightarrow> vm outcome" where
  "as_destroy as s =
     obind (dumbvm_can_sleep s) (\<lambda>_.
     obind (freeppages (as_pbase1 as) (as_npages1 as) s) (\<lambda>(_, s).
     obind (freeppages (as_pbase2 as) (as_npages2 as) s) (\<lambda>(_, s).
     obind (freeppages (as_stackpbase as) DUMBVM_STACKPAGES s) (\<lambda>(_, s).
     obind (kfree (Some (as_self as)) (vheap s)) (\<lambda>h.
     Done (s\<lparr>vheap := h\<rparr>))))))"

definition as_activate :: "addrspace option \<Rightarrow> vm \<Rightarrow> vm" where
  "as_activate getas s =
     (case getas of None \<Rightarrow> s
      | Some as \<Rightarrow> s\<lparr>tlb := map (\<lambda>i. (TLBHI_INVALID i, TLBLO_INVALID)) [0..<NUM_TLB]\<rparr>)"

definition as_deactivate :: "vm \<Rightarrow> vm" where
  "as_deactivate s = s"

definition as_define_region :: "addrspace \<Rightarrow> u32 \<Rightarrow> u32 \<Rightarrow> vm \<Rightarrow> (errno option \<times> addrspace) outcome" where
  "as_define_region as vaddr sz s =
     obind (dumbvm_can_sleep s) (\<lambda>_.
     let sz = sz + (vaddr AND NOT PAGE_FRAME);
         vaddr = vaddr AND PAGE_FRAME;
         sz = (sz + PAGE_SIZE - 1) AND PAGE_FRAME;
         npages = sz div PAGE_SIZE in
     Done (if as_vbase1 as = 0 then (None, as\<lparr>as_vbase1 := vaddr, as_npages1 := npages\<rparr>)
           else if as_vbase2 as = 0 then (None, as\<lparr>as_vbase2 := vaddr, as_npages2 := npages\<rparr>)
           else (Some ENOSYS, as)))"

text \<open>\<^verbatim>\<open>bzero\<close> and \<^verbatim>\<open>memmove\<close> on physical memory, through the direct mapping of the kernel.\<close>

definition phys_zero :: "u32 \<Rightarrow> u32 \<Rightarrow> (u32 \<Rightarrow> u8) \<Rightarrow> (u32 \<Rightarrow> u8)" where
  "phys_zero pa len m = (\<lambda>a. if a - pa < len then 0 else m a)"

definition phys_move :: "u32 \<Rightarrow> u32 \<Rightarrow> u32 \<Rightarrow> (u32 \<Rightarrow> u8) \<Rightarrow> (u32 \<Rightarrow> u8)" where
  "phys_move dst src len m = (\<lambda>a. if a - dst < len then m (a - dst + src) else m a)"

definition as_zero_region :: "u32 \<Rightarrow> u32 \<Rightarrow> vm \<Rightarrow> vm" where
  "as_zero_region paddr npages s = s\<lparr>pmem := phys_zero paddr (npages * PAGE_SIZE) (pmem s)\<rparr>"

definition as_prepare_load :: "addrspace \<Rightarrow> vm \<Rightarrow> (errno option \<times> addrspace \<times> vm) outcome" where
  "as_prepare_load as s =
     obind (kassert (as_pbase1 as = 0 \<and> as_pbase2 as = 0 \<and> as_stackpbase as = 0)) (\<lambda>_.
     obind (dumbvm_can_sleep s) (\<lambda>_.
     obind (getppages (as_npages1 as) s) (\<lambda>(pbase1, s).
     let as = as\<lparr>as_pbase1 := pbase1\<rparr> in
     if pbase1 = 0 then Done (Some ENOMEM, as, s) else
     obind (getppages (as_npages2 as) s) (\<lambda>(pbase2, s).
     let as = as\<lparr>as_pbase2 := pbase2\<rparr> in
     if pbase2 = 0 then Done (Some ENOMEM, as, s) else
     obind (getppages DUMBVM_STACKPAGES s) (\<lambda>(stackpbase, s).
     let as = as\<lparr>as_stackpbase := stackpbase\<rparr> in
     if stackpbase = 0 then Done (Some ENOMEM, as, s) else
     let s = as_zero_region (as_pbase1 as) (as_npages1 as) s;
         s = as_zero_region (as_pbase2 as) (as_npages2 as) s;
         s = as_zero_region (as_stackpbase as) DUMBVM_STACKPAGES s in
     Done (None, as, s))))))"

definition as_complete_load :: "addrspace \<Rightarrow> vm \<Rightarrow> errno option outcome" where
  "as_complete_load as s = obind (dumbvm_can_sleep s) (\<lambda>_. Done None)"

definition as_define_stack :: "addrspace \<Rightarrow> (errno option \<times> u32) outcome" where
  "as_define_stack as = obind (kassert (as_stackpbase as \<noteq> 0)) (\<lambda>_. Done (None, USERSTACK))"

definition as_copy :: "addrspace \<Rightarrow> vm \<Rightarrow> ((errno + addrspace) \<times> vm) outcome" where
  "as_copy old s =
     obind (dumbvm_can_sleep s) (\<lambda>_.
     case as_create s of
       (None, s) \<Rightarrow> Done (Inl ENOMEM, s)
     | (Some new, s) \<Rightarrow>
         let new = new\<lparr>as_vbase1 := as_vbase1 old, as_npages1 := as_npages1 old,
                       as_vbase2 := as_vbase2 old, as_npages2 := as_npages2 old\<rparr> in
         obind (as_prepare_load new s) (\<lambda>(r, new, s).
         if r \<noteq> None then obind (as_destroy new s) (\<lambda>s. Done (Inl ENOMEM, s))
         else
           obind (kassert (as_pbase1 new \<noteq> 0 \<and> as_pbase2 new \<noteq> 0 \<and> as_stackpbase new \<noteq> 0)) (\<lambda>_.
           let m = phys_move (as_pbase1 new) (as_pbase1 old) (as_npages1 old * PAGE_SIZE) (pmem s);
               m = phys_move (as_pbase2 new) (as_pbase2 old) (as_npages2 old * PAGE_SIZE) m;
               m = phys_move (as_stackpbase new) (as_stackpbase old) (DUMBVM_STACKPAGES * PAGE_SIZE) m in
           Done (Inr new, s\<lparr>pmem := m\<rparr>))))"

section \<open>Pages\<close>

lemma PAGE_FRAME_mask: "PAGE_FRAME = NOT (mask 12)"
  by (simp add: PAGE_FRAME_def mask_eq_exp_minus_1)

lemma unat_frame: "unat (x AND PAGE_FRAME) = unat x div 4096 * 4096"
proof -
  have "x AND PAGE_FRAME = push_bit 12 (drop_bit 12 x)"
    unfolding PAGE_FRAME_mask by (rule bit_word_eqI) (auto simp: bit_simps)
  then have "x AND PAGE_FRAME = x - take_bit 12 x"
    using bits_ident [of 12 x] by (metis add_diff_cancel_right')
  moreover have "unat (take_bit 12 x) = unat x mod 4096"
    by (simp add: unsigned_take_bit_eq take_bit_nat_def)
  moreover from this have "take_bit 12 x \<le> x" by (simp add: word_le_nat_alt)
  ultimately have "unat (x AND PAGE_FRAME) = unat x - unat x mod 4096" by (simp add: unat_sub)
  then show ?thesis by (metis minus_mod_eq_div_mult)
qed

lemma page_aligned_iff: "x AND PAGE_FRAME = x \<longleftrightarrow> 4096 dvd unat x"
proof -
  have "x AND PAGE_FRAME = x \<longleftrightarrow> unat x div 4096 * 4096 = unat x"
    by (metis word_unat_eq_iff unat_frame)
  then show ?thesis by (metis dvd_div_mult_self dvd_triv_right)
qed

lemma unat_div_page: "unat (x div PAGE_SIZE) = unat x div 4096"
  by (simp add: PAGE_SIZE_def unat_div_distrib)

lemma unat_pages: "unat n < 2 ^ 20 \<Longrightarrow> unat (n * PAGE_SIZE) = unat n * 4096"
  by (simp add: PAGE_SIZE_def unat_word_ariths)

section \<open>The search for free frames\<close>

definition free_run :: "bool list \<Rightarrow> nat \<Rightarrow> nat \<Rightarrow> nat \<Rightarrow> bool" where
  "free_run fr n np f \<longleftrightarrow> f + np \<le> n \<and> (\<forall>k. f \<le> k \<longrightarrow> k < f + np \<longrightarrow> fr ! k)"

text \<open>The state of the search at frame \<open>i\<close>: no run of \<open>np\<close> frames ends before \<open>i\<close>; if the frame
  before \<open>i\<close> is free, \<open>first\<close> is the start of the run it belongs to.\<close>

definition searching :: "bool list \<Rightarrow> nat \<Rightarrow> nat \<Rightarrow> int \<Rightarrow> bool" where
  "searching fr np i first \<longleftrightarrow> (\<forall>f. \<not> free_run fr i np f) \<and>
     (i > 0 \<and> fr ! (i - 1) \<longrightarrow> 0 \<le> first \<and> nat first < i \<and> (\<forall>k. nat first \<le> k \<longrightarrow> k < i \<longrightarrow> fr ! k) \<and>
        (first = 0 \<or> \<not> fr ! (nat first - 1)))"

lemma free_run_Suc:
  "free_run fr (Suc i) np f \<longleftrightarrow> free_run fr i np f \<or>
     f + np = Suc i \<and> (\<forall>k. f \<le> k \<longrightarrow> k < f + np \<longrightarrow> fr ! k)"
  by (auto simp: free_run_def)

lemma free_run_mono: "free_run fr i np f \<Longrightarrow> i \<le> n \<Longrightarrow> free_run fr n np f"
  by (simp add: free_run_def)

lemma searching_skip:
  assumes "searching fr np i first" "\<not> fr ! i" "0 < np"
  shows "searching fr np (Suc i) first"
proof -
  have "\<not> free_run fr (Suc i) np f" for f
  proof
    assume "free_run fr (Suc i) np f"
    then have "f + np = Suc i" "\<forall>k. f \<le> k \<longrightarrow> k < f + np \<longrightarrow> fr ! k"
      using assms(1) by (auto simp: free_run_Suc searching_def)
    then have "fr ! i" using assms(3) by auto
    then show False using assms(2) by simp
  qed
  then show ?thesis using assms(2) by (simp add: searching_def)
qed

lemma searching_run:
  assumes "searching fr np i first" "fr ! i"
  defines "fs \<equiv> if i = 0 \<or> \<not> fr ! (i - 1) then int i else first"
  shows "0 \<le> fs" "nat fs \<le> i" "\<forall>k. nat fs \<le> k \<longrightarrow> k < Suc i \<longrightarrow> fr ! k" "fs = 0 \<or> \<not> fr ! (nat fs - 1)"
  using assms(1,2) by (auto simp: fs_def searching_def less_Suc_eq)

lemma searching_extend:
  assumes "searching fr np i first" "fr ! i"
  defines "fs \<equiv> if i = 0 \<or> \<not> fr ! (i - 1) then int i else first"
  assumes "int i - fs + 1 < int np"
  shows "searching fr np (Suc i) fs"
proof -
  note r = searching_run [OF assms(1,2), folded fs_def]
  have "\<not> free_run fr (Suc i) np f" for f
  proof
    assume "free_run fr (Suc i) np f"
    then have f: "f + np = Suc i" "\<forall>k. f \<le> k \<longrightarrow> k < f + np \<longrightarrow> fr ! k"
      using assms(1) by (auto simp: free_run_Suc searching_def)
    then have "f < nat fs" using assms(4) r(1) by linarith
    then have "fr ! (nat fs - 1)" "fs \<noteq> 0" using f r(2) by auto
    then show False using r(4) by simp
  qed
  then show ?thesis using r by (auto simp: searching_def)
qed

lemma searching_hit:
  assumes "searching fr np i first" "fr ! i" "i < n"
  defines "fs \<equiv> if i = 0 \<or> \<not> fr ! (i - 1) then int i else first"
  assumes "int i - fs + 1 \<ge> int np" "0 < np"
  shows "free_run fr n np (nat fs)" "g < nat fs \<Longrightarrow> \<not> free_run fr n np g"
proof -
  note r = searching_run [OF assms(1,2), folded fs_def]
  show "free_run fr n np (nat fs)" using r assms(3,5) by (auto simp: free_run_def)
  show "\<not> free_run fr n np g" if "g < nat fs"
  proof
    assume g: "free_run fr n np g"
    have "\<not> fr ! (nat fs - 1)" using r(1,4) that by auto
    then have "\<not> (g \<le> nat fs - 1 \<and> nat fs - 1 < g + np)" using g by (auto simp: free_run_def)
    then have "g + np \<le> nat fs - 1" using that by linarith
    then have "free_run fr i np g" using g r(2) by (auto simp: free_run_def)
    then show False using assms(1) by (simp add: searching_def)
  qed
qed

lemma find_free_spec:
  assumes "searching fr np i first" "i \<le> n" "0 < np"
  shows "find_free fr n (int np) i first = -1 \<and> (\<forall>f. \<not> free_run fr n np f) \<or>
    (\<exists>f. find_free fr n (int np) i first = int f \<and> free_run fr n np f \<and> (\<forall>g<f. \<not> free_run fr n np g))"
  using assms
proof (induction "n - i" arbitrary: i first)
  case 0
  then show ?case by (simp add: find_free.simps searching_def)
next
  case (Suc d)
  have i: "i < n" "d = n - Suc i" using Suc.hyps(2) by auto
  define fs where "fs = (if i = 0 \<or> \<not> fr ! (i - 1) then int i else first)"
  consider (skip) "\<not> fr ! i" | (hit) "fr ! i" "int i - fs + 1 \<ge> int np" | (run) "fr ! i" "int i - fs + 1 < int np"
    by linarith
  then show ?case
  proof cases
    case skip
    then have "find_free fr n (int np) i first = find_free fr n (int np) (Suc i) first"
      using i by (subst find_free.simps) simp
    then show ?thesis using Suc.hyps(1) [OF i(2) searching_skip] Suc.prems skip i(1) by simp
  next
    case hit
    note h = searching_hit [OF Suc.prems(1) hit(1) i(1), folded fs_def, OF hit(2) Suc.prems(3)]
    have "find_free fr n (int np) i first = fs"
      using i hit by (subst find_free.simps) (simp add: fs_def Let_def)
    moreover have "0 \<le> fs" using searching_run(1) [OF Suc.prems(1) hit(1)] by (simp add: fs_def)
    ultimately show ?thesis using h by (intro disjI2 exI [of _ "nat fs"]) simp
  next
    case run
    have "find_free fr n (int np) i first = find_free fr n (int np) (Suc i) fs"
      using i run by (subst find_free.simps) (simp add: fs_def Let_def)
    moreover have "searching fr np (Suc i) fs"
      using searching_extend [OF Suc.prems(1) run(1), folded fs_def, OF run(2)] .
    ultimately show ?thesis using Suc.hyps(1) [OF i(2)] Suc.prems i(1) by simp
  qed
qed

lemma find_free_start: "0 < np \<Longrightarrow> searching fr np 0 (-1)"
  by (simp add: searching_def free_run_def)

section \<open>The allocator of frames\<close>

text \<open>\<open>K\<close> is the first frame behind the kernel image.  Once the table is active, every free frame
  lies between \<open>K\<close> and the boundary of the memory never handed out; the frames in that
  range that are not free are in use.\<close>

definition frames :: "u32 \<Rightarrow> u32 \<Rightarrow> nat set" where
  "frames a n = {unat a div 4096 ..< unat a div 4096 + unat n}"

definition vm_inv :: "nat \<Rightarrow> vm \<Rightarrow> bool" where
  "vm_inv K s \<longleftrightarrow> allocTableActive s \<and> length (freeRamFrames s) = nRamFrames s \<and>
     length (allocSize s) = nRamFrames s \<and> nRamFrames s = unat (lastpaddr s) div 4096 \<and>
     unat (lastpaddr s) \<le> 2 ^ 29 \<and> 4096 dvd unat (firstpaddr s) \<and> firstpaddr s \<le> lastpaddr s \<and>
     0 < K \<and> K \<le> unat (firstpaddr s) div 4096 \<and>
     (\<forall>i<nRamFrames s. freeRamFrames s ! i \<longrightarrow> K \<le> i \<and> i < unat (firstpaddr s) div 4096)"

definition used :: "nat \<Rightarrow> vm \<Rightarrow> nat set" where
  "used K s = {i. K \<le> i \<and> i < unat (firstpaddr s) div 4096 \<and> \<not> freeRamFrames s ! i}"

lemma vm_invD:
  assumes "vm_inv K s"
  shows "isTableActive s" "length (freeRamFrames s) = nRamFrames s" "length (allocSize s) = nRamFrames s"
    "nRamFrames s = unat (lastpaddr s) div 4096" "unat (lastpaddr s) \<le> 2 ^ 29" "nRamFrames s \<le> 2 ^ 17"
    "4096 dvd unat (firstpaddr s)" "unat (firstpaddr s) \<le> unat (lastpaddr s)"
    "unat (firstpaddr s) div 4096 \<le> nRamFrames s" "0 < K" "K \<le> unat (firstpaddr s) div 4096"
    "i < nRamFrames s \<Longrightarrow> freeRamFrames s ! i \<Longrightarrow> K \<le> i \<and> i < unat (firstpaddr s) div 4096"
  using assms by (auto simp: vm_inv_def isTableActive_def word_le_nat_alt div_le_mono)

lemma set_frames_nth:
  assumes "set_frames v f np fr = Done fr'" "0 < np"
  shows "length fr' = length fr" "f + np \<le> length fr"
    "i < length fr \<Longrightarrow> fr' ! i = (if f \<le> i \<and> i < f + np then v else fr ! i)"
  using assms by (auto simp: set_frames_def nth_append split: if_splits)

lemma sint_small:
  assumes "unat (n :: u32) < 2 ^ 31"
  shows "sint n = int (unat n)"
proof -
  have "int (unat n) < int (2 ^ 31)" using assms by (simp only: of_nat_less_iff)
  then have "uint n < 2 ^ 31" by simp
  moreover have "- (2 ^ 31) \<le> uint n" by (rule order_trans [of _ 0]) simp_all
  ultimately have "sint n = uint n" using signed_take_bit_int_eq_self [of 31 "uint n"] by (simp add: sint_uint)
  then show ?thesis by (simp only: uint_nat)
qed

text \<open>What an allocation leaves alone: the contents of memory, the kernel heap, the interrupt
  context, and the recorded sizes of blocks in use.\<close>

definition same_rest :: "nat \<Rightarrow> u32 \<Rightarrow> vm \<Rightarrow> vm \<Rightarrow> bool" where
  "same_rest K n s s' \<longleftrightarrow> pmem s' = pmem s \<and> vheap s' = vheap s \<and> nRamFrames s' = nRamFrames s \<and>
     lastpaddr s' = lastpaddr s \<and> curcpu_exists s' = curcpu_exists s \<and>
     spinlocks_held s' = spinlocks_held s \<and> in_interrupt s' = in_interrupt s \<and> tlb s' = tlb s \<and>
     (\<forall>i\<in>used K s. allocSize s' ! i = allocSize s ! i)"

lemma getfreeppages_spec:
  assumes "vm_inv K s" "0 < unat n" "unat n < 2 ^ 19"
  shows "getfreeppages n s = Done (0, s) \<or>
    (\<exists>a s'. getfreeppages n s = Done (a, s') \<and> a \<noteq> 0 \<and> 4096 dvd unat a \<and> vm_inv K s' \<and>
       frames a n \<subseteq> {K..<unat (firstpaddr s) div 4096} \<and> frames a n \<inter> used K s = {} \<and>
       used K s' = used K s \<union> frames a n \<and> same_rest K n s s')"
proof -
  note d = vm_invD [OF assms(1)]
  let ?fr = "freeRamFrames s" and ?F = "unat (firstpaddr s) div 4096"
  have sn: "sint n = int (unat n)" using assms(3) by (intro sint_small) simp
  consider "find_free ?fr (nRamFrames s) (int (unat n)) 0 (-1) = -1"
    | f where "find_free ?fr (nRamFrames s) (int (unat n)) 0 (-1) = int f" "free_run ?fr (nRamFrames s) (unat n) f"
    using find_free_spec [OF find_free_start [OF assms(2), of ?fr], of "nRamFrames s"] assms(2) by auto
  then show ?thesis
  proof cases
    case 1
    then show ?thesis using d(1) sn by (simp add: getfreeppages_def Let_def)
  next
    case (2 f)
    have r: "f + unat n \<le> nRamFrames s" "\<And>k. f \<le> k \<Longrightarrow> k < f + unat n \<Longrightarrow> ?fr ! k"
      using 2(2) by (auto simp: free_run_def)
    have rng: "K \<le> k \<and> k < ?F" if "f \<le> k" "k < f + unat n" for k using d(12) [of k] r that by auto
    obtain fr' where fr': "set_frames False f (unat n) ?fr = Done fr'" using r(1) d(2) by (simp add: set_frames_def)
    note sf = set_frames_nth [OF fr' assms(2)]
    have f: "f < 2 ^ 17" using r(1) d(6) assms(2) by linarith
    define a where "a = of_int (int f) * PAGE_SIZE"
    have ua: "unat a = f * 4096"
      using f by (simp add: a_def PAGE_SIZE_def unat_word_ariths unat_of_nat)
    define s' where "s' = s\<lparr>freeRamFrames := fr', allocSize := (allocSize s)[f := n]\<rparr>"
    have "getfreeppages n s = Done (a, s')"
      using d(1,3) sn 2(1) fr' r(1) assms(2) by (simp add: getfreeppages_def Let_def a_def s'_def)
    moreover have "a \<noteq> 0" using ua rng [of f] d(10) assms(2) by auto
    moreover have fa: "frames a n = {f..<f + unat n}" by (simp add: frames_def ua)
    moreover have "vm_inv K s'"
      using assms(1) d sf(1,3) by (auto simp: vm_inv_def s'_def)
    moreover have "used K s' = used K s \<union> frames a n"
    proof (rule set_eqI)
      fix i
      show "i \<in> used K s' \<longleftrightarrow> i \<in> used K s \<union> frames a n"
      proof (cases "f \<le> i \<and> i < f + unat n")
        case True
        then show ?thesis unfolding fa using sf(3) [of i] d(2) rng [of i] r(1) by (simp add: used_def s'_def)
      next
        case False
        then show ?thesis unfolding fa using sf(3) [of i] d(2,9) by (auto simp: used_def s'_def)
      qed
    qed
    moreover have "frames a n \<inter> used K s = {}" unfolding fa using r(2) by (auto simp: used_def)
    moreover have "frames a n \<subseteq> {K..<?F}" unfolding fa by (rule subsetI) (use rng in simp)
    moreover have "\<forall>i\<in>used K s. (allocSize s)[f := n] ! i = allocSize s ! i"
      using r(2) [of f] assms(2) by (auto simp: used_def intro!: nth_list_update_neq)
    ultimately show ?thesis using ua
      by (intro disjI2 exI [of _ a] exI [of _ s']) (simp add: s'_def same_rest_def)
  qed
qed

lemma ram_stealmem_spec:
  assumes "vm_inv K s" "0 < unat n" "unat n < 2 ^ 19"
  shows "if unat (firstpaddr s) + unat n * 4096 \<le> unat (lastpaddr s)
    then \<exists>s'. ram_stealmem n s = (firstpaddr s, s') \<and> vm_inv K s' \<and> firstpaddr s \<noteq> 0 \<and>
       frames (firstpaddr s) n \<inter> used K s = {} \<and> used K s' = used K s \<union> frames (firstpaddr s) n \<and>
       frames (firstpaddr s) n \<subseteq> {K..<nRamFrames s} \<and> same_rest K n s s'
    else ram_stealmem n s = (0, s)"
proof -
  note d = vm_invD [OF assms(1)]
  let ?F = "unat (firstpaddr s) div 4096"
  have sz: "unat (n * PAGE_SIZE) = unat n * 4096" using assms(3) by (intro unat_pages) simp
  have sum: "unat (firstpaddr s + n * PAGE_SIZE) = unat (firstpaddr s) + unat n * 4096"
    using sz d(5,8) assms(3) by (simp add: unat_word_ariths)
  show ?thesis
  proof (cases "unat (firstpaddr s) + unat n * 4096 \<le> unat (lastpaddr s)")
    case True
    define s' where "s' = s\<lparr>firstpaddr := firstpaddr s + n * PAGE_SIZE\<rparr>"
    have F': "unat (firstpaddr s') div 4096 = ?F + unat n" using sum by (simp add: s'_def)
    have le: "?F + unat n \<le> nRamFrames s" using F' sum True d(4) by (simp add: s'_def div_le_mono)
    have "vm_inv K s'"
      using assms(1) sum True F' d(12) unfolding vm_inv_def
      by (simp add: s'_def word_le_nat_alt trans_le_add1 trans_less_add1)
    moreover have "ram_stealmem n s = (firstpaddr s, s')"
      using True sum by (simp add: ram_stealmem_def s'_def Let_def word_less_nat_alt)
    moreover have "firstpaddr s \<noteq> 0" using d(10,11) by auto
    moreover have "\<not> freeRamFrames s ! i" if "?F \<le> i" "i < ?F + unat n" for i using d(12) [of i] that le by auto
    then have "used K s' = used K s \<union> frames (firstpaddr s) n"
      using F' d(11) by (auto simp: used_def frames_def) (auto simp: s'_def)
    moreover have "frames (firstpaddr s) n \<inter> used K s = {}" by (auto simp: used_def frames_def)
    moreover have "frames (firstpaddr s) n \<subseteq> {K..<nRamFrames s}" using le d(11) by (auto simp: frames_def)
    ultimately show ?thesis using True by (auto simp: s'_def same_rest_def)
  next
    case False
    then show ?thesis using sum by (simp add: ram_stealmem_def Let_def word_less_nat_alt)
  qed
qed

text \<open>Recording a size does not change which frames are in use.\<close>

definition note_size :: "nat \<Rightarrow> u32 \<Rightarrow> vm \<Rightarrow> vm" where
  "note_size i n s = s\<lparr>allocSize := (allocSize s)[i := n]\<rparr>"

lemma note_size_simps [simp]:
  "vm_inv K (note_size i n s) = vm_inv K s" "used K (note_size i n s) = used K s"
  "pmem (note_size i n s) = pmem s" "vheap (note_size i n s) = vheap s"
  "nRamFrames (note_size i n s) = nRamFrames s"
  by (simp_all add: note_size_def vm_inv_def used_def)

lemma frames_head: "0 < unat n \<Longrightarrow> unat a div 4096 \<in> frames a n"
  by (simp add: frames_def)

lemma same_rest_note:
  assumes "same_rest K n s s'" "i \<notin> used K s"
  shows "same_rest K n s (note_size i n s')"
proof -
  have "(allocSize s')[i := n] ! j = allocSize s' ! j" if "j \<in> used K s" for j
    using that assms(2) by (intro nth_list_update_neq) auto
  then show ?thesis using assms(1) by (simp add: same_rest_def note_size_def)
qed

lemma getppages_spec:
  assumes "vm_inv K s" "0 < unat n" "unat n < 2 ^ 19"
  shows "\<exists>a s'. getppages n s = Done (a, s') \<and> vm_inv K s' \<and> 4096 dvd unat a \<and> same_rest K n s s' \<and>
    (a = 0 \<longrightarrow> used K s' = used K s) \<and>
    (a \<noteq> 0 \<longrightarrow> frames a n \<inter> used K s = {} \<and> used K s' = used K s \<union> frames a n \<and>
      frames a n \<subseteq> {K..<nRamFrames s} \<and> allocSize s' ! (unat a div 4096) = n)"
proof -
  have got: ?thesis if "vm_inv K s'" "a \<noteq> 0" "4096 dvd unat a" "frames a n \<inter> used K s = {}"
    "used K s' = used K s \<union> frames a n" "frames a n \<subseteq> {K..<nRamFrames s}" "same_rest K n s s'"
    "getppages n s = obind (upd_or_fault (allocSize s') (unat (a div PAGE_SIZE)) n) (\<lambda>sizes. Done (a, s'\<lparr>allocSize := sizes\<rparr>))"
    for a s'
  proof -
    let ?i = "unat a div 4096"
    have i: "?i \<in> frames a n" using frames_head [OF assms(2)] .
    then have len: "?i < length (allocSize s')"
      using that(6,7) vm_invD(3) [OF that(1)] by (auto simp: same_rest_def)
    then have "getppages n s = Done (a, note_size ?i n s')" using that(8) by (simp add: note_size_def unat_div_page)
    moreover have "allocSize (note_size ?i n s') ! ?i = n" using len by (simp add: note_size_def)
    moreover have "?i \<notin> used K s" using i that(4) by auto
    ultimately show ?thesis using that same_rest_note [OF that(7)] by auto
  qed
  show ?thesis
  proof (cases "getfreeppages n s = Done (0, s)")
    case True
    note d = vm_invD [OF assms(1)] and st = ram_stealmem_spec [OF assms]
    show ?thesis
    proof (cases "unat (firstpaddr s) + unat n * 4096 \<le> unat (lastpaddr s)")
      case steal: True
      then obtain s' where s': "ram_stealmem n s = (firstpaddr s, s')" "vm_inv K s'" "firstpaddr s \<noteq> 0"
        "frames (firstpaddr s) n \<inter> used K s = {}" "used K s' = used K s \<union> frames (firstpaddr s) n"
        "frames (firstpaddr s) n \<subseteq> {K..<nRamFrames s}" "same_rest K n s s'"
        using st by auto
      show ?thesis
        by (rule got [OF s'(2,3) d(7) s'(4-7)])
          (use True s'(1,3) vm_invD(1) [OF s'(2)] in \<open>simp add: getppages_def\<close>)
    next
      case False
      then have "getppages n s = Done (0, s)" using st True by (simp add: getppages_def)
      then show ?thesis using assms(1) by (auto simp: same_rest_def)
    qed
  next
    case False
    then obtain a s' where s': "getfreeppages n s = Done (a, s')" "a \<noteq> 0" "4096 dvd unat a" "vm_inv K s'"
      "frames a n \<subseteq> {K..<unat (firstpaddr s) div 4096}" "frames a n \<inter> used K s = {}"
      "used K s' = used K s \<union> frames a n" "same_rest K n s s'"
      using getfreeppages_spec [OF assms] by blast
    have sub: "frames a n \<subseteq> {K..<nRamFrames s}" using s'(5) vm_invD(9) [OF assms(1)] by force
    show ?thesis
      by (rule got [OF s'(4,2,3,6,7) sub s'(8)])
        (use s'(1,2) vm_invD(1) [OF s'(4)] in \<open>simp add: getppages_def\<close>)
  qed
qed

lemma freeppages_spec:
  assumes "vm_inv K s" "0 < unat n" "frames a n \<subseteq> used K s"
  shows "\<exists>s'. freeppages a n s = Done (True, s') \<and> vm_inv K s' \<and> used K s' = used K s - frames a n \<and>
    same_rest K n s s' \<and> allocSize s' = allocSize s"
proof -
  note d = vm_invD [OF assms(1)]
  let ?f = "unat a div 4096" and ?F = "unat (firstpaddr s) div 4096"
  have in_used: "K \<le> i \<and> i < ?F" if "?f \<le> i" "i < ?f + unat n" for i
    using assms(3) that by (auto simp: frames_def used_def subset_iff)
  have top: "?f + unat n \<le> ?F" using in_used [of "?f + unat n - 1"] assms(2) by linarith
  then have n: "unat n < 2 ^ 31" using d(6,9) by simp
  obtain fr' where fr': "set_frames True ?f (unat n) (freeRamFrames s) = Done fr'"
    using top d(2,9) by (simp add: set_frames_def)
  note sf = set_frames_nth [OF fr' assms(2)]
  define s' where "s' = s\<lparr>freeRamFrames := fr'\<rparr>"
  have "freeppages a n s = Done (True, s')"
    using d(1,9) top assms(2) fr' sint_small [OF n] by (simp add: freeppages_def Let_def unat_div_page s'_def)
  moreover have "vm_inv K s'"
  proof -
    have "K \<le> i \<and> i < ?F" if "i < nRamFrames s" "fr' ! i" for i
      using d(12) [of i] in_used [of i] sf(3) [of i] that d(2) by (simp split: if_splits)
    then show ?thesis using assms(1) sf(1) by (simp add: vm_inv_def s'_def)
  qed
  moreover have "used K s' = used K s - frames a n"
  proof (rule set_eqI)
    fix i
    show "i \<in> used K s' \<longleftrightarrow> i \<in> used K s - frames a n"
      using sf(3) [of i] d(2,9) by (auto simp: used_def s'_def frames_def split: if_splits)
  qed
  ultimately show ?thesis by (auto simp: s'_def same_rest_def)
qed

section \<open>What a client of the allocator may rely on\<close>

locale page_allocator =
  fixes inv :: "'s \<Rightarrow> bool"
    and in_use :: "'s \<Rightarrow> nat set"
    and get :: "u32 \<Rightarrow> 's \<Rightarrow> (u32 \<times> 's) outcome"
    and put :: "u32 \<Rightarrow> u32 \<Rightarrow> 's \<Rightarrow> (bool \<times> 's) outcome"
  assumes get_law: "inv s \<Longrightarrow> 0 < unat n \<Longrightarrow> unat n < 2 ^ 19 \<Longrightarrow>
      \<exists>a s'. get n s = Done (a, s') \<and> inv s' \<and> (a = 0 \<longrightarrow> in_use s' = in_use s) \<and>
        (a \<noteq> 0 \<longrightarrow> frames a n \<inter> in_use s = {} \<and> in_use s' = in_use s \<union> frames a n)"
    and put_law: "inv s \<Longrightarrow> 0 < unat n \<Longrightarrow> frames a n \<subseteq> in_use s \<Longrightarrow>
      \<exists>s'. put a n s = Done (True, s') \<and> inv s' \<and> in_use s' = in_use s - frames a n"
begin

lemma get_put:
  assumes "inv s" "0 < unat n" "unat n < 2 ^ 19" "get n s = Done (a, s')" "a \<noteq> 0"
  shows "\<exists>s''. put a n s' = Done (True, s'') \<and> inv s'' \<and> in_use s'' = in_use s"
proof -
  have g: "inv s'" "frames a n \<inter> in_use s = {}" "in_use s' = in_use s \<union> frames a n"
    using get_law [OF assms(1-3)] assms(4,5) by auto
  then show ?thesis using put_law [OF g(1) assms(2), of a] by auto
qed

text \<open>A block keeps its frames while other blocks come and go.\<close>

lemma get_get_disjoint:
  assumes "inv s" "0 < unat n" "unat n < 2 ^ 19" "0 < unat m" "unat m < 2 ^ 19"
    "get n s = Done (a, s1)" "a \<noteq> 0" "get m s1 = Done (b, s2)" "b \<noteq> 0"
  shows "frames a n \<inter> frames b m = {} \<and> inv s2 \<and> in_use s2 = in_use s \<union> frames a n \<union> frames b m"
proof -
  have 1: "inv s1" "in_use s1 = in_use s \<union> frames a n" using get_law [OF assms(1-3)] assms(6,7) by auto
  then show ?thesis using get_law [OF 1(1) assms(4,5)] assms(8,9) by auto
qed

lemma put_keeps_others:
  assumes "inv s" "0 < unat n" "frames a n \<subseteq> in_use s" "X \<subseteq> in_use s" "X \<inter> frames a n = {}"
    "put a n s = Done (r, s')"
  shows "X \<subseteq> in_use s' \<and> inv s'"
  using put_law [OF assms(1-3)] assms(4-6) by auto

end

interpretation pages: page_allocator "vm_inv K" "used K" getppages freeppages for K
proof
  fix s n assume "vm_inv K s" "0 < unat (n :: u32)" "unat n < 2 ^ 19"
  then show "\<exists>a s'. getppages n s = Done (a, s') \<and> vm_inv K s' \<and> (a = 0 \<longrightarrow> used K s' = used K s) \<and>
      (a \<noteq> 0 \<longrightarrow> frames a n \<inter> used K s = {} \<and> used K s' = used K s \<union> frames a n)"
    using getppages_spec [of K s n] by blast
next
  fix s n a assume "vm_inv K s" "0 < unat (n :: u32)" "frames a n \<subseteq> used K s"
  then show "\<exists>s'. freeppages a n s = Done (True, s') \<and> vm_inv K s' \<and> used K s' = used K s - frames a n"
    using freeppages_spec [of K s n a] by blast
qed

section \<open>Address spaces: frames and contents\<close>

definition as_frames :: "addrspace \<Rightarrow> nat set" where
  "as_frames as = frames (as_pbase1 as) (as_npages1 as) \<union> frames (as_pbase2 as) (as_npages2 as) \<union>
     frames (as_stackpbase as) DUMBVM_STACKPAGES"

text \<open>The sizes that segments of a program may have.\<close>

definition as_sized :: "addrspace \<Rightarrow> bool" where
  "as_sized as \<longleftrightarrow> 0 < unat (as_npages1 as) \<and> unat (as_npages1 as) < 2 ^ 19 \<and>
     0 < unat (as_npages2 as) \<and> unat (as_npages2 as) < 2 ^ 19"

definition as_loaded :: "addrspace \<Rightarrow> bool" where
  "as_loaded as \<longleftrightarrow> as_pbase1 as \<noteq> 0 \<and> as_pbase2 as \<noteq> 0 \<and> as_stackpbase as \<noteq> 0 \<and>
     4096 dvd unat (as_pbase1 as) \<and> 4096 dvd unat (as_pbase2 as) \<and> 4096 dvd unat (as_stackpbase as) \<and>
     frames (as_pbase1 as) (as_npages1 as) \<inter> frames (as_pbase2 as) (as_npages2 as) = {} \<and>
     frames (as_pbase1 as) (as_npages1 as) \<inter> frames (as_stackpbase as) DUMBVM_STACKPAGES = {} \<and>
     frames (as_pbase2 as) (as_npages2 as) \<inter> frames (as_stackpbase as) DUMBVM_STACKPAGES = {}"

definition sleepable :: "vm \<Rightarrow> bool" where
  "sleepable s \<longleftrightarrow> dumbvm_can_sleep s = Done ()"

lemma sleepable_rest: "same_rest K n s s' \<Longrightarrow> sleepable s' = sleepable s"
  by (simp add: same_rest_def sleepable_def dumbvm_can_sleep_def)

lemma stackpages: "unat DUMBVM_STACKPAGES = 18"
  by (simp add: DUMBVM_STACKPAGES_def)

lemma in_region:
  assumes "4096 dvd unat p" "unat p + unat n * 4096 \<le> 2 ^ 32" "unat n < 2 ^ 20"
  shows "x - p < n * PAGE_SIZE \<longleftrightarrow> unat x div 4096 \<in> frames p n"
proof -
  obtain k where k: "unat p = 4096 * k" using assms(1) by blast
  have n: "unat (n * PAGE_SIZE) = unat n * 4096" using assms(3) by (rule unat_pages)
  show ?thesis
  proof (cases "p \<le> x")
    case True
    then have "unat (x - p) = unat x - unat p" by (simp add: unat_sub)
    then have "x - p < n * PAGE_SIZE \<longleftrightarrow> unat x - 4096 * k < unat n * 4096" using n k by (simp add: word_less_nat_alt)
    moreover have "4096 * k \<le> unat x" using True k by (simp add: word_le_nat_alt)
    ultimately show ?thesis using k by (auto simp: frames_def less_mult_imp_div_less)
  next
    case False
    then have lt: "unat x < unat p" by (simp add: word_le_nat_alt)
    have "unat (x - p) = unat x + 2 ^ 32 - unat p" using lt by (simp add: unat_sub_if')
    then have "\<not> x - p < n * PAGE_SIZE" using n assms(2) lt by (simp add: word_less_nat_alt)
    then show ?thesis using lt k by (auto simp: frames_def)
  qed
qed

lemma phys_zero_frames:
  assumes "4096 dvd unat p" "unat p + unat n * 4096 \<le> 2 ^ 32" "unat n < 2 ^ 20"
  shows "phys_zero p (n * PAGE_SIZE) m x = (if unat x div 4096 \<in> frames p n then 0 else m x)"
  using in_region [OF assms] by (simp add: phys_zero_def)

lemma phys_move_frames:
  assumes "4096 dvd unat p" "unat p + unat n * 4096 \<le> 2 ^ 32" "unat n < 2 ^ 20"
  shows "phys_move p q (n * PAGE_SIZE) m x = (if unat x div 4096 \<in> frames p n then m (x - p + q) else m x)"
  using in_region [OF assms] by (simp add: phys_move_def)

end
