(* ===== verification/AddrSpace.thy ===== *)
theory AddrSpace
  imports DumbVM
begin

text \<open>
  What the address space operations of \<open>DumbVM\<close> do: which frames they take and give back,
  what memory holds afterwards, and which translations a page fault installs.
\<close>

section \<open>Loading and destroying\<close>

lemma frames_top:
  assumes "frames p n \<subseteq> {..<N}" "0 < unat n"
  shows "unat p div 4096 + unat n \<le> N"
proof -
  have "unat p div 4096 + unat n - 1 \<in> frames p n" using assms(2) by (auto simp: frames_def)
  then show ?thesis using assms by auto
qed

lemma frames_nowrap:
  assumes "frames p n \<subseteq> {K..<N}" "N \<le> 2 ^ 17" "0 < unat n" "4096 dvd unat p"
  shows "unat p + unat n * 4096 \<le> 2 ^ 32" "unat n < 2 ^ 20"
proof -
  have "frames p n \<subseteq> {..<2 ^ 17}" using assms(1,2) by force
  then have "unat p div 4096 + unat n \<le> 2 ^ 17" using assms(3) by (rule frames_top)
  then show "unat p + unat n * 4096 \<le> 2 ^ 32" "unat n < 2 ^ 20" using assms(4) by auto
qed

lemma phys_zero_in:
  assumes "frames p n \<subseteq> {K..<N}" "N \<le> 2 ^ 17" "0 < unat n" "4096 dvd unat p"
  shows "phys_zero p (n * PAGE_SIZE) m x = (if unat x div 4096 \<in> frames p n then 0 else m x)"
  by (rule phys_zero_frames [OF assms(4) frames_nowrap [OF assms]])

lemma phys_move_in:
  assumes "frames p n \<subseteq> {K..<N}" "N \<le> 2 ^ 17" "0 < unat n" "4096 dvd unat p"
  shows "phys_move p q (n * PAGE_SIZE) m x = (if unat x div 4096 \<in> frames p n then m (x - p + q) else m x)"
  by (rule phys_move_frames [OF assms(4) frames_nowrap [OF assms]])

lemma same_rest_trans:
  "same_rest K n s s1 \<Longrightarrow> same_rest K m s1 s2 \<Longrightarrow> used K s \<subseteq> used K s1 \<Longrightarrow> same_rest K m s s2"
  by (auto simp: same_rest_def)

definition same_shape :: "addrspace \<Rightarrow> addrspace \<Rightarrow> bool" where
  "same_shape as as' \<longleftrightarrow> as_self as' = as_self as \<and> as_vbase1 as' = as_vbase1 as \<and> as_npages1 as' = as_npages1 as \<and>
     as_vbase2 as' = as_vbase2 as \<and> as_npages2 as' = as_npages2 as"

text \<open>The three allocations of \<open>as_prepare_load\<close>.\<close>

definition take_three :: "addrspace \<Rightarrow> vm \<Rightarrow> (u32 \<times> u32 \<times> u32 \<times> vm) outcome" where
  "take_three as s =
     obind (getppages (as_npages1 as) s) (\<lambda>(a, s). if a = 0 then Done (0, 0, 0, s) else
     obind (getppages (as_npages2 as) s) (\<lambda>(b, s). if b = 0 then Done (a, 0, 0, s) else
     obind (getppages DUMBVM_STACKPAGES s) (\<lambda>(c, s). Done (a, b, c, s))))"

lemma prepare_take_three:
  assumes "sleepable s" "as_pbase1 as = 0" "as_pbase2 as = 0" "as_stackpbase as = 0"
    "take_three as s = Done (a, b, c, s1)"
  shows "as_prepare_load as s = Done
    (if c = 0 then (Some ENOMEM, as\<lparr>as_pbase1 := a, as_pbase2 := b\<rparr>, s1)
     else (None, as\<lparr>as_pbase1 := a, as_pbase2 := b, as_stackpbase := c\<rparr>,
       as_zero_region c DUMBVM_STACKPAGES (as_zero_region b (as_npages2 as) (as_zero_region a (as_npages1 as) s1))))"
proof -
  have id: "as\<lparr>as_pbase1 := 0, as_pbase2 := 0\<rparr> = as" "as\<lparr>as_pbase1 := 0\<rparr> = as"
    "as\<lparr>as_pbase1 := a, as_pbase2 := 0\<rparr> = as\<lparr>as_pbase1 := a\<rparr>"
    "as\<lparr>as_pbase1 := a, as_pbase2 := b, as_stackpbase := 0\<rparr> = as\<lparr>as_pbase1 := a, as_pbase2 := b\<rparr>"
    using assms(2-4) by (cases as; simp)+
  have r: "as_prepare_load as s = (
     obind (getppages (as_npages1 as) s) (\<lambda>(pbase1, s).
     let as = as\<lparr>as_pbase1 := pbase1\<rparr> in
     if pbase1 = 0 then Done (Some ENOMEM, as, s) else
     obind (getppages (as_npages2 as) s) (\<lambda>(pbase2, s).
     let as = as\<lparr>as_pbase2 := pbase2\<rparr> in
     if pbase2 = 0 then Done (Some ENOMEM, as, s) else
     obind (getppages DUMBVM_STACKPAGES s) (\<lambda>(stackpbase, s).
     let as = as\<lparr>as_stackpbase := stackpbase\<rparr> in
     if stackpbase = 0 then Done (Some ENOMEM, as, s) else
     let s = as_zero_region (as_pbase1 as) (as_npages1 as) s;
         s = as_zero_region (as_pbase2 as) (as_npages2 as) s;
         s = as_zero_region (as_stackpbase as) DUMBVM_STACKPAGES s in
     Done (None, as, s)))))"
    using assms(1-4) by (simp add: as_prepare_load_def sleepable_def)
  obtain a' s' where g1: "getppages (as_npages1 as) s = Done (a', s')"
    using assms(5) by (auto simp: take_three_def obind_Done_iff)
  show ?thesis
  proof (cases "a' = 0")
    case True
    then show ?thesis using assms(5) g1 r id by (auto simp: take_three_def)
  next
    case a': False
    then obtain b' s'' where g2: "getppages (as_npages2 as) s' = Done (b', s'')"
      using assms(5) g1 by (auto simp: take_three_def obind_Done_iff)
    show ?thesis
    proof (cases "b' = 0")
      case True
      then show ?thesis using assms(5) g1 g2 r id a' by (auto simp: take_three_def)
    next
      case False
      then obtain c' s3 where "getppages DUMBVM_STACKPAGES s'' = Done (c', s3)"
        using assms(5) g1 g2 a' by (auto simp: take_three_def obind_Done_iff)
      then show ?thesis using assms(5) g1 g2 r id a' False by (auto simp: take_three_def Let_def)
    qed
  qed
qed

definition held_block :: "u32 \<Rightarrow> u32 \<Rightarrow> nat set" where
  "held_block a n = (if a = 0 then {} else frames a n)"

lemma get_block:
  assumes "vm_inv K s" "0 < unat n" "unat n < 2 ^ 19"
  shows "\<exists>a s'. getppages n s = Done (a, s') \<and> vm_inv K s' \<and> same_rest K n s s' \<and> 4096 dvd unat a \<and>
    held_block a n \<inter> used K s = {} \<and> used K s' = used K s \<union> held_block a n \<and>
    held_block a n \<subseteq> {K..<nRamFrames s}"
  using getppages_spec [OF assms] by (fastforce simp: held_block_def)

lemma held_block_0 [simp]: "held_block 0 n = {}"
  by (simp add: held_block_def)

lemma three_sets:
  "A \<inter> U = {} \<Longrightarrow> U1 = U \<union> A \<Longrightarrow> B \<inter> U1 = {} \<Longrightarrow> U2 = U1 \<union> B \<Longrightarrow> C \<inter> U2 = {} \<Longrightarrow> U3 = U2 \<union> C \<Longrightarrow>
   A \<inter> U = {} \<and> B \<inter> U = {} \<and> C \<inter> U = {} \<and> A \<inter> B = {} \<and> A \<inter> C = {} \<and> B \<inter> C = {} \<and> U3 = U \<union> A \<union> B \<union> C"
  by blast

lemma take_three_spec:
  assumes "vm_inv K s" "as_sized as"
  shows "\<exists>a b c s'. take_three as s = Done (a, b, c, s') \<and> vm_inv K s' \<and> same_rest K DUMBVM_STACKPAGES s s' \<and>
    4096 dvd unat a \<and> 4096 dvd unat b \<and> 4096 dvd unat c \<and> (c \<noteq> 0 \<longrightarrow> a \<noteq> 0 \<and> b \<noteq> 0) \<and>
    held_block a (as_npages1 as) \<inter> used K s = {} \<and> held_block b (as_npages2 as) \<inter> used K s = {} \<and>
    held_block c DUMBVM_STACKPAGES \<inter> used K s = {} \<and>
    held_block a (as_npages1 as) \<inter> held_block b (as_npages2 as) = {} \<and>
    held_block a (as_npages1 as) \<inter> held_block c DUMBVM_STACKPAGES = {} \<and>
    held_block b (as_npages2 as) \<inter> held_block c DUMBVM_STACKPAGES = {} \<and>
    used K s' = used K s \<union> held_block a (as_npages1 as) \<union> held_block b (as_npages2 as) \<union> held_block c DUMBVM_STACKPAGES \<and>
    held_block a (as_npages1 as) \<union> held_block b (as_npages2 as) \<union> held_block c DUMBVM_STACKPAGES \<subseteq> {K..<nRamFrames s}"
proof -
  have n: "0 < unat (as_npages1 as)" "unat (as_npages1 as) < 2 ^ 19" "0 < unat (as_npages2 as)"
    "unat (as_npages2 as) < 2 ^ 19" "0 < unat DUMBVM_STACKPAGES" "unat DUMBVM_STACKPAGES < 2 ^ 19"
    using assms(2) by (simp_all add: as_sized_def stackpages)
  obtain a s1 where 1: "getppages (as_npages1 as) s = Done (a, s1)" "vm_inv K s1" "same_rest K (as_npages1 as) s s1"
    "4096 dvd unat a" "held_block a (as_npages1 as) \<inter> used K s = {}"
    "used K s1 = used K s \<union> held_block a (as_npages1 as)" "held_block a (as_npages1 as) \<subseteq> {K..<nRamFrames s}"
    using get_block [OF assms(1) n(1,2)] by blast
  show ?thesis
  proof (cases "a = 0")
    case True
    then show ?thesis using 1 by (intro exI [of _ 0] exI [of _ s1]) (simp add: take_three_def same_rest_def)
  next
    case a: False
    obtain b s2 where 2: "getppages (as_npages2 as) s1 = Done (b, s2)" "vm_inv K s2" "same_rest K (as_npages2 as) s1 s2"
      "4096 dvd unat b" "held_block b (as_npages2 as) \<inter> used K s1 = {}"
      "used K s2 = used K s1 \<union> held_block b (as_npages2 as)" "held_block b (as_npages2 as) \<subseteq> {K..<nRamFrames s1}"
      using get_block [OF 1(2) n(3,4)] by blast
    have r2: "same_rest K (as_npages2 as) s s2" using same_rest_trans [OF 1(3) 2(3)] 1(6) by blast
    have N: "nRamFrames s1 = nRamFrames s" "nRamFrames s2 = nRamFrames s" using 1(3) r2 by (simp_all add: same_rest_def)
    show ?thesis
    proof (cases "b = 0")
      case True
      then show ?thesis using 1 2(1,2,6) a r2
        by (intro exI [of _ a] exI [of _ 0] exI [of _ s2]) (simp add: take_three_def same_rest_def)
    next
      case b: False
      obtain c s3 where 3: "getppages DUMBVM_STACKPAGES s2 = Done (c, s3)" "vm_inv K s3"
        "same_rest K DUMBVM_STACKPAGES s2 s3" "4096 dvd unat c" "held_block c DUMBVM_STACKPAGES \<inter> used K s2 = {}"
        "used K s3 = used K s2 \<union> held_block c DUMBVM_STACKPAGES" "held_block c DUMBVM_STACKPAGES \<subseteq> {K..<nRamFrames s2}"
        using get_block [OF 2(2) n(5,6)] by blast
      have r3: "same_rest K DUMBVM_STACKPAGES s s3" using same_rest_trans [OF r2 3(3)] 1(6) 2(6) by blast
      have "take_three as s = Done (a, b, c, s3)" using 1(1) 2(1) 3(1) a b by (simp add: take_three_def)
      then show ?thesis using 1(4,7) 2(4,7) 3(2,4,7) a b r3 N three_sets [OF 1(5,6) 2(5,6) 3(5,6)]
        by (intro exI [of _ a] exI [of _ b] exI [of _ c] exI [of _ s3]) simp
    qed
  qed
qed

text \<open>A successful load takes three new disjoint blocks, empties them and touches no other byte.\<close>

lemma as_prepare_load_spec:
  assumes "vm_inv K s" "as_sized as" "sleepable s" "as_pbase1 as = 0" "as_pbase2 as = 0" "as_stackpbase as = 0"
  shows "\<exists>r as' s'. as_prepare_load as s = Done (r, as', s') \<and> vm_inv K s' \<and> sleepable s' \<and> vheap s' = vheap s \<and>
    nRamFrames s' = nRamFrames s \<and> same_shape as as' \<and>
    (r \<noteq> None \<longrightarrow> r = Some ENOMEM \<and> as_stackpbase as' = 0 \<and> pmem s' = pmem s) \<and>
    (r = None \<longrightarrow> as_loaded as' \<and> as_frames as' \<inter> used K s = {} \<and> used K s' = used K s \<union> as_frames as' \<and>
      as_frames as' \<subseteq> {K..<nRamFrames s} \<and>
      (\<forall>x. pmem s' x = (if unat x div 4096 \<in> as_frames as' then 0 else pmem s x)))"
proof -
  obtain a b c s1 where t: "take_three as s = Done (a, b, c, s1)" "vm_inv K s1" "same_rest K DUMBVM_STACKPAGES s s1"
    and al: "4096 dvd unat a" "4096 dvd unat b" "4096 dvd unat c" and nz: "c \<noteq> 0 \<longrightarrow> a \<noteq> 0 \<and> b \<noteq> 0"
    and new: "held_block a (as_npages1 as) \<inter> used K s = {}" "held_block b (as_npages2 as) \<inter> used K s = {}"
      "held_block c DUMBVM_STACKPAGES \<inter> used K s = {}"
    and dj: "held_block a (as_npages1 as) \<inter> held_block b (as_npages2 as) = {}"
      "held_block a (as_npages1 as) \<inter> held_block c DUMBVM_STACKPAGES = {}"
      "held_block b (as_npages2 as) \<inter> held_block c DUMBVM_STACKPAGES = {}"
    and us: "used K s1 = used K s \<union> held_block a (as_npages1 as) \<union> held_block b (as_npages2 as) \<union> held_block c DUMBVM_STACKPAGES"
    and sub: "held_block a (as_npages1 as) \<union> held_block b (as_npages2 as) \<union> held_block c DUMBVM_STACKPAGES \<subseteq> {K..<nRamFrames s}"
    using take_three_spec [OF assms(1,2)] by blast
  note p = prepare_take_three [OF assms(3-6) t(1)]
  have rest: "vheap s1 = vheap s" "nRamFrames s1 = nRamFrames s" "pmem s1 = pmem s" "sleepable s1"
    using t(3) assms(3) sleepable_rest [OF t(3)] by (simp_all add: same_rest_def)
  show ?thesis
  proof (cases "c = 0")
    case True
    then show ?thesis using p t(2) rest assms(6) by (simp add: same_shape_def)
  next
    case False
    then have hb: "held_block a (as_npages1 as) = frames a (as_npages1 as)"
      "held_block b (as_npages2 as) = frames b (as_npages2 as)"
      "held_block c DUMBVM_STACKPAGES = frames c DUMBVM_STACKPAGES" and n0: "a \<noteq> 0" "b \<noteq> 0"
      using nz by (simp_all add: held_block_def)
    define as' where "as' = as\<lparr>as_pbase1 := a, as_pbase2 := b, as_stackpbase := c\<rparr>"
    define s' where "s' = as_zero_region c DUMBVM_STACKPAGES
      (as_zero_region b (as_npages2 as) (as_zero_region a (as_npages1 as) s1))"
    have fr: "as_frames as' = frames a (as_npages1 as) \<union> frames b (as_npages2 as) \<union> frames c DUMBVM_STACKPAGES"
      by (simp add: as_frames_def as'_def)
    have N: "nRamFrames s \<le> 2 ^ 17" using vm_invD(6) [OF assms(1)] .
    have sz: "0 < unat (as_npages1 as)" "0 < unat (as_npages2 as)" "0 < unat DUMBVM_STACKPAGES"
      using assms(2) by (simp_all add: as_sized_def stackpages)
    have sub': "frames a (as_npages1 as) \<subseteq> {K..<nRamFrames s}" "frames b (as_npages2 as) \<subseteq> {K..<nRamFrames s}"
      "frames c DUMBVM_STACKPAGES \<subseteq> {K..<nRamFrames s}" using sub hb by auto
    have "pmem s' x = (if unat x div 4096 \<in> as_frames as' then 0 else pmem s x)" for x
      by (simp add: s'_def as_zero_region_def fr rest(3) phys_zero_in [OF sub'(1) N sz(1) al(1)]
          phys_zero_in [OF sub'(2) N sz(2) al(2)] phys_zero_in [OF sub'(3) N sz(3) al(3)])
    moreover have "as_prepare_load as s = Done (None, as', s')" using p False by (simp add: as'_def s'_def)
    moreover have "as_loaded as'" using False n0 al dj hb by (simp add: as_loaded_def as'_def)
    moreover have "vm_inv K s'" "used K s' = used K s1" "vheap s' = vheap s1" "nRamFrames s' = nRamFrames s1"
      "sleepable s' = sleepable s1"
      using t(2) by (simp_all add: s'_def as_zero_region_def vm_inv_def used_def sleepable_def dumbvm_can_sleep_def)
    moreover have "as_frames as' \<inter> used K s = {}" using new hb fr by auto
    moreover have "used K s1 = used K s \<union> as_frames as'" using us hb fr by auto
    ultimately show ?thesis using rest sub' fr
      by (intro exI [of _ None] exI [of _ as'] exI [of _ s']) (simp add: same_shape_def as'_def)
  qed
qed

lemma as_destroy_spec:
  assumes "vm_inv K s" "as_sized as" "sleepable s" "as_loaded as" "as_frames as \<subseteq> used K s"
    "as_self as \<in> set (kh_live (vheap s))"
  shows "\<exists>s'. as_destroy as s = Done s' \<and> vm_inv K s' \<and> used K s' = used K s - as_frames as \<and>
    kh_live (vheap s') = remove1 (as_self as) (kh_live (vheap s)) \<and> pmem s' = pmem s"
proof -
  have n: "0 < unat (as_npages1 as)" "0 < unat (as_npages2 as)" "0 < unat DUMBVM_STACKPAGES"
    using assms(2) by (simp_all add: as_sized_def stackpages)
  obtain s1 where 1: "freeppages (as_pbase1 as) (as_npages1 as) s = Done (True, s1)" "vm_inv K s1"
    "used K s1 = used K s - frames (as_pbase1 as) (as_npages1 as)" "same_rest K (as_npages1 as) s s1"
    using freeppages_spec [OF assms(1) n(1), of "as_pbase1 as"] assms(5) by (auto simp: as_frames_def)
  have "frames (as_pbase2 as) (as_npages2 as) \<subseteq> used K s1"
    using assms(4,5) 1(3) by (auto simp: as_frames_def as_loaded_def)
  then obtain s2 where 2: "freeppages (as_pbase2 as) (as_npages2 as) s1 = Done (True, s2)" "vm_inv K s2"
    "used K s2 = used K s1 - frames (as_pbase2 as) (as_npages2 as)" "same_rest K (as_npages2 as) s1 s2"
    using freeppages_spec [OF 1(2) n(2)] by blast
  have "frames (as_stackpbase as) DUMBVM_STACKPAGES \<subseteq> used K s2"
    using assms(4,5) 1(3) 2(3) by (auto simp: as_frames_def as_loaded_def)
  then obtain s3 where 3: "freeppages (as_stackpbase as) DUMBVM_STACKPAGES s2 = Done (True, s3)" "vm_inv K s3"
    "used K s3 = used K s2 - frames (as_stackpbase as) DUMBVM_STACKPAGES" "same_rest K DUMBVM_STACKPAGES s2 s3"
    using freeppages_spec [OF 2(2) n(3)] by blast
  have h: "vheap s3 = vheap s" "pmem s3 = pmem s" using 1(4) 2(4) 3(4) by (simp_all add: same_rest_def)
  define s' where "s' = s3\<lparr>vheap := (vheap s)\<lparr>kh_live := remove1 (as_self as) (kh_live (vheap s))\<rparr>\<rparr>"
  have "as_destroy as s = Done s'"
    using assms(3,6) 1(1) 2(1) 3(1) h by (simp add: as_destroy_def sleepable_def kfree_def s'_def)
  moreover have "vm_inv K s'" "used K s' = used K s3" using 3(2) by (simp_all add: s'_def vm_inv_def used_def)
  moreover have "used K s3 = used K s - as_frames as" using 1(3) 2(3) 3(3) by (auto simp: as_frames_def)
  ultimately show ?thesis using h by (simp add: s'_def)
qed

section \<open>Translation\<close>

text \<open>The physical address that the tables of an address space give to a user address.\<close>

definition as_translate :: "addrspace \<Rightarrow> u32 \<Rightarrow> u32 option" where
  "as_translate as va =
     (if as_vbase1 as \<le> va \<and> va < as_vbase1 as + as_npages1 as * PAGE_SIZE
      then Some (va - as_vbase1 as + as_pbase1 as)
      else if as_vbase2 as \<le> va \<and> va < as_vbase2 as + as_npages2 as * PAGE_SIZE
      then Some (va - as_vbase2 as + as_pbase2 as)
      else if USERSTACK - DUMBVM_STACKPAGES * PAGE_SIZE \<le> va \<and> va < USERSTACK
      then Some (va - (USERSTACK - DUMBVM_STACKPAGES * PAGE_SIZE) + as_stackpbase as)
      else None)"

definition region_ok :: "u32 \<Rightarrow> u32 \<Rightarrow> u32 \<Rightarrow> bool" where
  "region_ok vb pb n \<longleftrightarrow> vb \<noteq> 0 \<and> pb \<noteq> 0 \<and> 0 < unat n \<and> unat n < 2 ^ 19 \<and> 4096 dvd unat vb \<and> 4096 dvd unat pb \<and>
     unat vb + unat n * 4096 \<le> 2 ^ 31 \<and> frames pb n \<subseteq> {..<2 ^ 17}"

definition as_ok :: "addrspace \<Rightarrow> bool" where
  "as_ok as \<longleftrightarrow> region_ok (as_vbase1 as) (as_pbase1 as) (as_npages1 as) \<and>
     region_ok (as_vbase2 as) (as_pbase2 as) (as_npages2 as) \<and>
     region_ok (USERSTACK - DUMBVM_STACKPAGES * PAGE_SIZE) (as_stackpbase as) DUMBVM_STACKPAGES"

lemma stackbase: "unat (USERSTACK - DUMBVM_STACKPAGES * PAGE_SIZE) = 2 ^ 31 - 18 * 4096"
  by (simp add: USERSTACK_def DUMBVM_STACKPAGES_def PAGE_SIZE_def)

lemma stacktop: "USERSTACK - DUMBVM_STACKPAGES * PAGE_SIZE + DUMBVM_STACKPAGES * PAGE_SIZE = USERSTACK"
  by simp

lemma region_ok_phys:
  assumes "region_ok vb pb n"
  shows "unat pb + unat n * 4096 \<le> 2 ^ 29"
proof -
  have "unat pb div 4096 + unat n \<le> 2 ^ 17" using assms by (intro frames_top) (simp_all add: region_ok_def)
  then show ?thesis using assms by (auto simp: region_ok_def)
qed

lemma region_translate:
  assumes "region_ok vb pb n" "vb \<le> va" "va < vb + n * PAGE_SIZE"
  shows "unat (va - vb + pb) = unat va - unat vb + unat pb" "unat vb \<le> unat va"
    "unat va < unat vb + unat n * 4096" "unat (va - vb + pb) div 4096 \<in> frames pb n"
    "4096 dvd unat va \<Longrightarrow> 4096 dvd unat (va - vb + pb)"
proof -
  have n: "unat (n * PAGE_SIZE) = unat n * 4096" using assms(1) by (intro unat_pages) (simp add: region_ok_def)
  have top: "unat (vb + n * PAGE_SIZE) = unat vb + unat n * 4096"
    using assms(1) n by (simp add: region_ok_def unat_word_ariths)
  show le: "unat vb \<le> unat va" using assms(2) by (simp add: word_le_nat_alt)
  show lt: "unat va < unat vb + unat n * 4096" using assms(3) top by (simp add: word_less_nat_alt)
  have ph: "unat pb + unat n * 4096 \<le> 2 ^ 29" using region_ok_phys [OF assms(1)] .
  have "unat (va - vb) = unat va - unat vb" using assms(2) by (simp add: unat_sub)
  then show eq: "unat (va - vb + pb) = unat va - unat vb + unat pb"
    using ph lt le by (simp add: unat_word_ariths)
  obtain k where k: "unat pb = 4096 * k" using assms(1) by (auto simp: region_ok_def)
  have "(unat va - unat vb) div 4096 < unat n" using lt le by (simp add: less_mult_imp_div_less)
  then show "unat (va - vb + pb) div 4096 \<in> frames pb n" unfolding eq using k by (simp add: frames_def)
  show "4096 dvd unat (va - vb + pb)" if "4096 dvd unat va"
    unfolding eq using that assms(1) by (simp add: region_ok_def dvd_diff_nat)
qed

lemma as_translate_frames:
  assumes "as_ok as" "as_translate as va = Some pa"
  shows "unat pa div 4096 \<in> as_frames as" "4096 dvd unat va \<Longrightarrow> 4096 dvd unat pa"
  using assms region_translate [of "as_vbase1 as" "as_pbase1 as" "as_npages1 as" va]
    region_translate [of "as_vbase2 as" "as_pbase2 as" "as_npages2 as" va]
    region_translate [of "USERSTACK - DUMBVM_STACKPAGES * PAGE_SIZE" "as_stackpbase as" DUMBVM_STACKPAGES va]
  unfolding as_ok_def as_translate_def as_frames_def stacktop by (auto split: if_splits)

lemma frame_dvd: "4096 dvd unat (x AND PAGE_FRAME)"
  by (simp add: unat_frame)

lemma vm_fault_eq:
  assumes "as_ok as" "ft = VM_FAULT_READ \<or> ft = VM_FAULT_WRITE"
  shows "vm_fault ft va (Some (Some as)) s =
    (case as_translate as (va AND PAGE_FRAME) of
       None \<Rightarrow> Done (Some EFAULT, s)
     | Some pa \<Rightarrow>
         (case tlb_slot (tlb s) 0 of
            None \<Rightarrow> Done (Some EFAULT, s)
          | Some i \<Rightarrow> Done (None, s\<lparr>tlb := (tlb s)[i := (va AND PAGE_FRAME, pa OR TLBLO_DIRTY OR TLBLO_VALID)]\<rparr>)))"
proof -
  have al: "pa AND PAGE_FRAME = pa" if "as_translate as (va AND PAGE_FRAME) = Some pa" for pa
    using as_translate_frames(2) [OF assms(1) that frame_dvd] by (simp add: page_aligned_iff)
  have nz: "as_npages1 as \<noteq> 0" "as_npages2 as \<noteq> 0" using assms(1) by (auto simp: as_ok_def region_ok_def)
  have ne: "ft \<noteq> VM_FAULT_READONLY" using assms(2) by (auto simp: VM_FAULT_READ_def VM_FAULT_WRITE_def VM_FAULT_READONLY_def)
  show ?thesis
    using assms al nz ne unfolding vm_fault_def as_translate_def as_ok_def region_ok_def
    by (auto simp: Let_def page_aligned_iff split: option.splits)
qed

section \<open>The TLB of a running process\<close>

lemma tlb_slot_spec:
  "tlb_slot es k = Some i \<Longrightarrow> k \<le> i \<and> i < k + length es \<and> snd (es ! (i - k)) AND TLBLO_VALID = 0"
  "tlb_slot es k = None \<Longrightarrow> e \<in> set es \<Longrightarrow> snd e AND TLBLO_VALID \<noteq> 0"
proof (induction es arbitrary: k)
  case (Cons x es)
  case 1
  then show ?case using Cons(1) [of "Suc k"] by (cases x) (auto simp: nth_Cons' split: if_splits)
next
  case (Cons x es)
  case 2
  then show ?case using Cons(2) [of "Suc k"] by (cases x) (auto split: if_splits)
qed auto

text \<open>The states a processor goes through while it runs one process: its address space is
  activated, then pages fault in.\<close>

inductive runs_process :: "addrspace \<Rightarrow> vm \<Rightarrow> bool" for as where
  activated: "runs_process as (as_activate (Some as) s)"
| faulted: "runs_process as s \<Longrightarrow> vm_fault ft va (Some (Some as)) s = Done (r, s') \<Longrightarrow> runs_process as s'"

definition tlb_ok :: "addrspace \<Rightarrow> (u32 \<times> u32) list \<Rightarrow> bool" where
  "tlb_ok as es \<longleftrightarrow> (\<forall>(ehi, elo)\<in>set es. elo AND TLBLO_VALID \<noteq> 0 \<longrightarrow>
     (\<exists>pa. as_translate as ehi = Some pa \<and> 4096 dvd unat pa \<and> elo = pa OR TLBLO_DIRTY OR TLBLO_VALID))"

lemma vm_fault_other:
  "ft \<noteq> VM_FAULT_READ \<Longrightarrow> ft \<noteq> VM_FAULT_WRITE \<Longrightarrow> vm_fault ft va p s = Done (r, s') \<Longrightarrow> s' = s"
  by (auto simp: vm_fault_def Let_def split: if_splits)

lemma runs_process_tlb:
  assumes "runs_process as s" "as_ok as"
  shows "tlb_ok as (tlb s)"
  using assms
proof (induction rule: runs_process.induct)
  case (activated s)
  then show ?case by (auto simp: tlb_ok_def as_activate_def TLBLO_INVALID_def)
next
  case (faulted s ft va r s')
  show ?case
  proof (cases "ft = VM_FAULT_READ \<or> ft = VM_FAULT_WRITE")
    case True
    note eq = vm_fault_eq [OF faulted.prems True, of va s]
    show ?thesis
    proof (cases "tlb s' = tlb s")
      case False
      then obtain pa i where pa: "as_translate as (va AND PAGE_FRAME) = Some pa"
        "tlb s' = (tlb s)[i := (va AND PAGE_FRAME, pa OR TLBLO_DIRTY OR TLBLO_VALID)]"
        using eq faulted.hyps(2) by (auto split: option.splits)
      moreover have "4096 dvd unat pa" using as_translate_frames(2) [OF faulted.prems pa(1) frame_dvd] .
      ultimately show ?thesis using faulted.IH [OF faulted.prems]
        by (auto simp: tlb_ok_def dest!: set_update_subset_insert [THEN subsetD])
    qed (use faulted in simp)
  next
    case False
    then show ?thesis using vm_fault_other faulted by blast
  qed
qed

lemma frame_of_entry: "unat (pa OR TLBLO_DIRTY OR TLBLO_VALID) div 4096 = unat pa div 4096"
proof -
  have u: "unat x div 4096 = unat (drop_bit 12 x)" for x :: u32
    by (simp add: drop_bit_eq_div unat_div_distrib)
  have "drop_bit 12 TLBLO_DIRTY = 0" "drop_bit 12 TLBLO_VALID = 0"
    by (simp_all add: TLBLO_DIRTY_def TLBLO_VALID_def drop_bit_eq_div)
  then have "drop_bit 12 (pa OR TLBLO_DIRTY OR TLBLO_VALID) = drop_bit 12 pa" by (simp only: drop_bit_or) simp
  then show ?thesis unfolding u by simp
qed

section \<open>Copying an address space\<close>

lemma as_create_vm:
  assumes "as_create s = (r, s')"
  shows "vm_inv K s' = vm_inv K s" "used K s' = used K s" "pmem s' = pmem s" "sleepable s' = sleepable s"
    "nRamFrames s' = nRamFrames s"
    "r = Some as \<Longrightarrow> as_pbase1 as = 0 \<and> as_pbase2 as = 0 \<and> as_stackpbase as = 0"
  using assms by (auto simp: as_create_def vm_inv_def used_def sleepable_def dumbvm_can_sleep_def
      split: prod.splits option.splits)

text \<open>One of the three moves of the copy, read at an address of the new address space and at an
  address outside it.\<close>

lemma copied_region:
  assumes "region_ok vb po n" "region_ok vb pn n" "vb \<le> va" "va < vb + n * PAGE_SIZE"
  shows "phys_move pn po (n * PAGE_SIZE) m (va - vb + pn) = m (va - vb + po)"
  using region_translate(4) [OF assms(2-4)] assms(2)
    phys_move_in [of pn n 0 "2 ^ 17" po m "va - vb + pn"] by (simp add: region_ok_def atLeast0LessThan)

lemma uncopied_region:
  assumes "region_ok vb pn n" "unat x div 4096 \<notin> frames pn n"
  shows "phys_move pn po (n * PAGE_SIZE) m x = m x"
  using assms phys_move_in [of pn n 0 "2 ^ 17" po m x] by (simp add: region_ok_def atLeast0LessThan)

lemma as_copy_steps:
  assumes "vm_inv K s" "sleepable s" "as_ok old" "as_copy old s = Done (Inr new, s')"
  shows "\<exists>s1. as_ok new \<and> as_loaded new \<and> same_shape (old\<lparr>as_self := as_self new\<rparr>) new \<and> vm_inv K s1 \<and>
    as_frames new \<inter> used K s = {} \<and> used K s1 = used K s \<union> as_frames new \<and>
    (\<forall>x. unat x div 4096 \<notin> as_frames new \<longrightarrow> pmem s1 x = pmem s x) \<and>
    s' = s1\<lparr>pmem := phys_move (as_stackpbase new) (as_stackpbase old) (DUMBVM_STACKPAGES * PAGE_SIZE)
      (phys_move (as_pbase2 new) (as_pbase2 old) (as_npages2 old * PAGE_SIZE)
      (phys_move (as_pbase1 new) (as_pbase1 old) (as_npages1 old * PAGE_SIZE) (pmem s1)))\<rparr>"
proof -
  obtain new0 s0 where c: "as_create s = (Some new0, s0)"
    using assms(2,4) by (cases "as_create s") (auto simp: as_copy_def sleepable_def split: option.splits)
  define new1 where "new1 = new0\<lparr>as_vbase1 := as_vbase1 old, as_npages1 := as_npages1 old,
    as_vbase2 := as_vbase2 old, as_npages2 := as_npages2 old\<rparr>"
  note v = as_create_vm [OF c]
  have sz: "as_sized new1" using assms(3) by (simp add: as_sized_def new1_def as_ok_def region_ok_def)
  have pb: "as_pbase1 new1 = 0" "as_pbase2 new1 = 0" "as_stackpbase new1 = 0" using v(6) by (simp_all add: new1_def)
  obtain r new2 s1 where l: "as_prepare_load new1 s0 = Done (r, new2, s1)" "vm_inv K s1" "same_shape new1 new2"
    "r = None \<longrightarrow> as_loaded new2 \<and> as_frames new2 \<inter> used K s0 = {} \<and> used K s1 = used K s0 \<union> as_frames new2 \<and>
      as_frames new2 \<subseteq> {K..<nRamFrames s0} \<and>
      (\<forall>x. pmem s1 x = (if unat x div 4096 \<in> as_frames new2 then 0 else pmem s0 x))"
    using as_prepare_load_spec [of K s0 new1] v assms(1,2) sz pb by blast
  have r: "r = None" "new = new2" and s': "s' = s1\<lparr>pmem := phys_move (as_stackpbase new) (as_stackpbase old) (DUMBVM_STACKPAGES * PAGE_SIZE)
      (phys_move (as_pbase2 new) (as_pbase2 old) (as_npages2 old * PAGE_SIZE)
      (phys_move (as_pbase1 new) (as_pbase1 old) (as_npages1 old * PAGE_SIZE) (pmem s1)))\<rparr>"
    using assms(2,4) c l(1) unfolding as_copy_def sleepable_def new1_def
    by (auto simp: Let_def obind_Done_iff split: if_splits)
  have sh: "same_shape (old\<lparr>as_self := as_self new\<rparr>) new" using l(3) r by (simp add: same_shape_def new1_def)
  have sub: "as_frames new \<subseteq> {..<2 ^ 17}" using l(4) r vm_invD(6) [OF assms(1)] v(5) by fastforce
  have "as_ok new" using assms(3) sh l(4) r sub
    by (simp add: as_ok_def region_ok_def same_shape_def as_loaded_def as_frames_def)
  then show ?thesis using l(2,4) r s' sh v by (intro exI [of _ s1]) simp
qed

end
