(* ===== verification/VmCorrect.thy ===== *)
theory VmCorrect
  imports AddrSpace
begin

text \<open>
  The properties of the virtual memory system: exclusive frames, confined translations, exact
  copies of address spaces, and the two ways in which the allocator can hand out memory of
  the kernel.
\<close>

lemma as_copy_spec:
  assumes "vm_inv K s" "sleepable s" "as_ok old" "as_frames old \<subseteq> used K s" "as_copy old s = Done (Inr new, s')"
  shows "as_ok new \<and> as_loaded new \<and> vm_inv K s' \<and> as_frames new \<inter> used K s = {} \<and>
    used K s' = used K s \<union> as_frames new \<and>
    (\<forall>x. unat x div 4096 \<notin> as_frames new \<longrightarrow> pmem s' x = pmem s x) \<and>
    (\<forall>va pa. as_translate old va = Some pa \<longrightarrow>
      (\<exists>pa'. as_translate new va = Some pa' \<and> pmem s' pa' = pmem s pa))"
proof -
  obtain s1 where n: "as_ok new" "as_loaded new" "same_shape (old\<lparr>as_self := as_self new\<rparr>) new" "vm_inv K s1"
    and f: "as_frames new \<inter> used K s = {}" "used K s1 = used K s \<union> as_frames new"
    and m1: "\<And>x. unat x div 4096 \<notin> as_frames new \<Longrightarrow> pmem s1 x = pmem s x"
    and s': "s' = s1\<lparr>pmem := phys_move (as_stackpbase new) (as_stackpbase old) (DUMBVM_STACKPAGES * PAGE_SIZE)
      (phys_move (as_pbase2 new) (as_pbase2 old) (as_npages2 old * PAGE_SIZE)
      (phys_move (as_pbase1 new) (as_pbase1 old) (as_npages1 old * PAGE_SIZE) (pmem s1)))\<rparr>"
    using as_copy_steps [OF assms(1-3,5)] by blast
  have ok: "region_ok (as_vbase1 old) (as_pbase1 old) (as_npages1 old)"
      "region_ok (as_vbase2 old) (as_pbase2 old) (as_npages2 old)"
      "region_ok (USERSTACK - DUMBVM_STACKPAGES * PAGE_SIZE) (as_stackpbase old) DUMBVM_STACKPAGES"
      "region_ok (as_vbase1 old) (as_pbase1 new) (as_npages1 old)"
      "region_ok (as_vbase2 old) (as_pbase2 new) (as_npages2 old)"
      "region_ok (USERSTACK - DUMBVM_STACKPAGES * PAGE_SIZE) (as_stackpbase new) DUMBVM_STACKPAGES"
    and sh: "as_vbase1 new = as_vbase1 old" "as_npages1 new = as_npages1 old" "as_vbase2 new = as_vbase2 old"
      "as_npages2 new = as_npages2 old"
    using assms(3) n(1,3) by (simp_all add: as_ok_def same_shape_def)
  let ?A = "frames (as_pbase1 new) (as_npages1 old)" and ?B = "frames (as_pbase2 new) (as_npages2 old)"
    and ?C = "frames (as_stackpbase new) DUMBVM_STACKPAGES"
  have fr: "as_frames new = ?A \<union> ?B \<union> ?C" using sh by (simp add: as_frames_def)
  have dj: "?A \<inter> ?B = {}" "?A \<inter> ?C = {}" "?B \<inter> ?C = {}" using n(2) sh by (simp_all add: as_loaded_def)
  have un: "pmem s' x = pmem s x" if "unat x div 4096 \<notin> as_frames new" for x
    using that m1 [OF that] by (simp add: s' fr uncopied_region [OF ok(4)] uncopied_region [OF ok(5)] uncopied_region [OF ok(6)])
  have old: "unat pa div 4096 \<notin> as_frames new" if "as_translate old va = Some pa" for va pa
    using as_translate_frames(1) [OF assms(3) that] assms(4) f(1) by auto
  have "\<exists>pa'. as_translate new va = Some pa' \<and> pmem s' pa' = pmem s pa" if t: "as_translate old va = Some pa" for va pa
  proof -
    have o: "unat pa div 4096 \<notin> ?A" "unat pa div 4096 \<notin> ?B" "unat pa div 4096 \<notin> ?C" "pmem s1 pa = pmem s pa"
      using old [OF t] fr m1 by auto
    consider (one) "as_vbase1 old \<le> va" "va < as_vbase1 old + as_npages1 old * PAGE_SIZE"
        "pa = va - as_vbase1 old + as_pbase1 old" "as_translate new va = Some (va - as_vbase1 old + as_pbase1 new)"
      | (two) "as_vbase2 old \<le> va" "va < as_vbase2 old + as_npages2 old * PAGE_SIZE"
        "pa = va - as_vbase2 old + as_pbase2 old" "as_translate new va = Some (va - as_vbase2 old + as_pbase2 new)"
      | (stack) "USERSTACK - DUMBVM_STACKPAGES * PAGE_SIZE \<le> va"
        "va < USERSTACK - DUMBVM_STACKPAGES * PAGE_SIZE + DUMBVM_STACKPAGES * PAGE_SIZE"
        "pa = va - (USERSTACK - DUMBVM_STACKPAGES * PAGE_SIZE) + as_stackpbase old"
        "as_translate new va = Some (va - (USERSTACK - DUMBVM_STACKPAGES * PAGE_SIZE) + as_stackpbase new)"
      using t unfolding as_translate_def sh stacktop by (auto split: if_splits)
    then show ?thesis
    proof cases
      case one
      have "unat (va - as_vbase1 old + as_pbase1 new) div 4096 \<in> ?A" using region_translate(4) [OF ok(4) one(1,2)] .
      then have "unat (va - as_vbase1 old + as_pbase1 new) div 4096 \<notin> ?B" 
        "unat (va - as_vbase1 old + as_pbase1 new) div 4096 \<notin> ?C" using dj by auto
      then show ?thesis using one o copied_region [OF ok(1,4) one(1,2)]
        by (simp add: s' uncopied_region [OF ok(5)] uncopied_region [OF ok(6)])
    next
      case two
      have "unat (va - as_vbase2 old + as_pbase2 new) div 4096 \<in> ?B" using region_translate(4) [OF ok(5) two(1,2)] .
      then have "unat (va - as_vbase2 old + as_pbase2 new) div 4096 \<notin> ?C" using dj by auto
      then show ?thesis using two o copied_region [OF ok(2,5) two(1,2)]
        by (simp add: s' uncopied_region [OF ok(4)] uncopied_region [OF ok(6)])
    next
      case stack
      then show ?thesis using o copied_region [OF ok(3,6) stack(1,2)]
        by (simp add: s' uncopied_region [OF ok(4)] uncopied_region [OF ok(5)] del: add_diff_eq diff_add_eq diff_diff_eq2)
    qed
  qed
  moreover have "vm_inv K s'" "used K s' = used K s1" using n(4) by (simp_all add: s' vm_inv_def used_def)
  ultimately show ?thesis using n f un by simp
qed

section \<open>A small machine\<close>

text \<open>128 frames, 32 of them under the kernel image, nothing handed out yet.\<close>

definition demo_vm :: vm where
  "demo_vm = \<lparr>firstpaddr = 0x20000, lastpaddr = 0x80000, freeRamFrames = replicate 128 False,
     allocSize = replicate 128 0, nRamFrames = 128, allocTableActive = True, pmem = (\<lambda>_. 7), tlb = [],
     vheap = \<lparr>kh_next = 1, kh_live = [0], kh_avail = (\<lambda>_. True)\<rparr>, curcpu_exists = False, spinlocks_held = 0,
     in_interrupt = False\<rparr>"

definition demo_as :: addrspace where
  "demo_as = \<lparr>as_self = 0, as_vbase1 = 0x400000, as_pbase1 = 0, as_npages1 = 2, as_vbase2 = 0x10000000, as_pbase2 = 0,
     as_npages2 = 3, as_stackpbase = 0\<rparr>"

lemma demo_vm_inv: "vm_inv 32 demo_vm"
  by (simp add: vm_inv_def demo_vm_def)

lemma demo_vm_sleepable: "sleepable demo_vm"
  by (simp add: sleepable_def dumbvm_can_sleep_def demo_vm_def)

lemma demo_vm_used: "used 32 demo_vm = {}"
  by (auto simp: used_def demo_vm_def)

lemma find_free_none: "find_free (replicate n False) n np i f = -1"
proof (induction "n - i" arbitrary: i)
  case 0
  then show ?case by (simp add: find_free.simps)
next
  case (Suc d)
  then have "i < n" "d = n - Suc i" by auto
  then show ?case using Suc.hyps(1) by (subst find_free.simps) simp
qed

text \<open>On a machine where nothing was freed yet, a block is cut off the untouched memory.\<close>

definition untouched :: "vm \<Rightarrow> bool" where
  "untouched s \<longleftrightarrow> allocTableActive s \<and> freeRamFrames s = replicate (nRamFrames s) False"

definition cut :: "u32 \<Rightarrow> vm \<Rightarrow> vm" where
  "cut n s = s\<lparr>firstpaddr := firstpaddr s + n * PAGE_SIZE, allocSize := (allocSize s)[unat (firstpaddr s) div 4096 := n]\<rparr>"

lemma cut_simps [simp]:
  "untouched (cut n s) = untouched s" "firstpaddr (cut n s) = firstpaddr s + n * PAGE_SIZE"
  "lastpaddr (cut n s) = lastpaddr s" "length (allocSize (cut n s)) = length (allocSize s)"
  by (simp_all add: cut_def untouched_def)

lemma getppages_fresh:
  assumes "untouched s" "firstpaddr s \<noteq> 0" "\<not> firstpaddr s + n * PAGE_SIZE > lastpaddr s"
    "unat (firstpaddr s) div 4096 < length (allocSize s)"
  shows "getppages n s = Done (firstpaddr s, cut n s)"
  using assms by (simp add: getppages_def getfreeppages_def isTableActive_def ram_stealmem_def find_free_none
      unat_div_page untouched_def cut_def)

lemma demo_vm_simps:
  "untouched demo_vm" "firstpaddr demo_vm = 0x20000" "lastpaddr demo_vm = 0x80000" "length (allocSize demo_vm) = 128"
  by (simp_all add: demo_vm_def untouched_def)

section \<open>Properties\<close>

text \<open>C6.  The frame allocator gives out every frame at most once: a block comes from memory behind
  the kernel that nobody uses, a later block shares no frame with it, and freeing it takes
  back exactly its frames, leaving the later block in use.\<close>

theorem page_blocks_exclusive:
  assumes "vm_inv K s" "0 < unat n" "unat n < 2 ^ 19" "0 < unat m" "unat m < 2 ^ 19"
    "getppages n s = Done (a, s1)" "a \<noteq> 0" "getppages m s1 = Done (b, s2)" "b \<noteq> 0"
  shows "frames a n \<inter> used K s = {} \<and> frames a n \<subseteq> {K..<nRamFrames s} \<and> frames a n \<inter> frames b m = {} \<and>
    (\<exists>s3. freeppages a n s2 = Done (True, s3) \<and> vm_inv K s3 \<and> used K s3 = used K s \<union> frames b m)"
proof -
  have 1: "frames a n \<inter> used K s = {}" "frames a n \<subseteq> {K..<nRamFrames s}" "vm_inv K s1" "used K s1 = used K s \<union> frames a n"
    using getppages_spec [OF assms(1-3)] assms(6,7) by auto
  note dj = pages.get_get_disjoint [OF assms]
  have "frames b m \<inter> used K s1 = {}" using getppages_spec [OF 1(3) assms(4,5)] assms(8,9) by auto
  then have "used K s2 - frames a n = used K s \<union> frames b m" using 1 dj by auto
  then show ?thesis using 1 dj freeppages_spec [of K s2 n a] assms(2) by auto
qed

theorem page_blocks_exclusive_witness:
  "\<exists>s1. getppages 4 demo_vm = Done (0x20000, s1) \<and> frames 0x20000 4 \<subseteq> {32..<128}"
proof -
  obtain s1 where s1: "getppages 4 demo_vm = Done (0x20000, s1)" by (simp add: demo_vm_simps getppages_fresh PAGE_SIZE_def)
  obtain b s2 where s2: "getppages 1 s1 = Done (b, s2)" "b \<noteq> 0"
    using s1 by (auto simp: demo_vm_simps getppages_fresh PAGE_SIZE_def)
  have "nRamFrames demo_vm = 128" by (simp add: demo_vm_def)
  then show ?thesis using page_blocks_exclusive [OF demo_vm_inv _ _ _ _ s1 _ s2] s1 by simp
qed

text \<open>C23.  \<^verbatim>\<open>free_kpages\<close> undoes \<^verbatim>\<open>alloc_kpages\<close>: given the address back, it finds the size of the block
  in the table and frees the frames of the block and no others.\<close>

theorem kpages_roundtrip:
  assumes "vm_inv K s" "sleepable s" "0 < unat n" "unat n < 2 ^ 19" "alloc_kpages n s = Done (va, s1)" "va \<noteq> 0"
  shows "\<exists>s2. free_kpages va s1 = Done s2 \<and> vm_inv K s2 \<and> used K s2 = used K s"
proof -
  obtain a s' where g: "getppages n s = Done (a, s')" "vm_inv K s'" "a \<noteq> 0 \<longrightarrow> frames a n \<inter> used K s = {} \<and>
      used K s' = used K s \<union> frames a n \<and> frames a n \<subseteq> {K..<nRamFrames s} \<and> allocSize s' ! (unat a div 4096) = n"
    "same_rest K n s s'"
    using getppages_spec [OF assms(1,3,4)] by blast
  then have a: "a \<noteq> 0" "va = PADDR_TO_KVADDR a" "s1 = s'"
    using assms(2,5,6) by (auto simp: alloc_kpages_def sleepable_def split: if_splits)
  have pa: "va - MIPS_KSEG0 = a" by (simp add: a(2) PADDR_TO_KVADDR_def)
  have i: "unat a div 4096 < nRamFrames s'"
    using frames_head [OF assms(3), of a] g a(1) by (auto simp: same_rest_def)
  have "frames a n \<subseteq> used K s'" using g a by auto
  then obtain s2 where "freeppages a n s' = Done (True, s2)" "vm_inv K s2" "used K s2 = used K s' - frames a n"
    using freeppages_spec [OF g(2) assms(3)] by blast
  moreover have "used K s' - frames a n = used K s" using g a by auto
  moreover have "allocSize s' ! (unat a div 4096) = n" using g a by simp
  ultimately show ?thesis using pa i a vm_invD(1,3) [OF g(2)]
    by (simp add: free_kpages_def Let_def unat_div_page)
qed

theorem kpages_roundtrip_witness:
  "\<exists>s1 s2. alloc_kpages 4 demo_vm = Done (0x80020000, s1) \<and> free_kpages 0x80020000 s1 = Done s2 \<and> used 32 s2 = {}"
proof -
  obtain s1 where s1: "alloc_kpages 4 demo_vm = Done (0x80020000, s1)"
    using demo_vm_sleepable by (simp add: alloc_kpages_def sleepable_def demo_vm_simps getppages_fresh
        PADDR_TO_KVADDR_def MIPS_KSEG0_def PAGE_SIZE_def)
  then show ?thesis
    using kpages_roundtrip [OF demo_vm_inv demo_vm_sleepable _ _ s1] by (auto simp: demo_vm_used)
qed

text \<open>C5.  Processes are isolated: while a processor runs a process, from the activation of its
  address space through any sequence of page faults, every valid TLB entry is the translation
  of a page of that address space, into one of its frames; so two processes whose address
  spaces own disjoint frames never reach the same frame.\<close>

theorem tlb_isolation:
  assumes "as_ok as" "as_ok as'" "as_frames as \<inter> as_frames as' = {}" "runs_process as s" "runs_process as' s'"
    "(ehi, elo) \<in> set (tlb s)" "elo AND TLBLO_VALID \<noteq> 0" "(ehi', elo') \<in> set (tlb s')" "elo' AND TLBLO_VALID \<noteq> 0"
  shows "unat elo div 4096 \<in> as_frames as \<and> (\<exists>pa. as_translate as ehi = Some pa \<and> unat elo div 4096 = unat pa div 4096) \<and>
    unat elo div 4096 \<noteq> unat elo' div 4096"
proof -
  have entry: "\<exists>pa. as_translate a ehi = Some pa \<and> unat elo div 4096 = unat pa div 4096 \<and> unat elo div 4096 \<in> as_frames a"
    if h: "as_ok a" "runs_process a u" "(ehi, elo) \<in> set (tlb u)" "elo AND TLBLO_VALID \<noteq> 0" for a u ehi elo
  proof -
    obtain pa where "as_translate a ehi = Some pa" "elo = pa OR TLBLO_DIRTY OR TLBLO_VALID"
      using runs_process_tlb [OF h(2,1)] h(3,4) by (fastforce simp: tlb_ok_def)
    then show ?thesis using as_translate_frames(1) [OF h(1)] by (simp add: frame_of_entry)
  qed
  show ?thesis using entry [OF assms(1,4,6,7)] entry [OF assms(2,5,8,9)] assms(3) by auto
qed

definition demo_space :: "u32 \<Rightarrow> addrspace" where
  "demo_space p = \<lparr>as_self = 0, as_vbase1 = 0x400000, as_pbase1 = p, as_npages1 = 2, as_vbase2 = 0x10000000,
     as_pbase2 = p + 0x2000, as_npages2 = 3, as_stackpbase = p + 0x5000\<rparr>"

lemma demo_space_ok: "as_ok (demo_space 0x20000)" "as_ok (demo_space 0x40000)"
  by (auto simp: as_ok_def demo_space_def region_ok_def stackpages stackbase frames_def unat_word_ariths
      USERSTACK_def DUMBVM_STACKPAGES_def PAGE_SIZE_def)

lemma demo_fault:
  assumes "as_ok (demo_space p)"
  shows "\<exists>s e. runs_process (demo_space p) s \<and> (0x400000, e) \<in> set (tlb s) \<and> e AND TLBLO_VALID \<noteq> 0"
proof -
  let ?s = "as_activate (Some (demo_space p)) demo_vm"
  have tl: "tlb ?s = (TLBHI_INVALID 0, TLBLO_INVALID) # map (\<lambda>i. (TLBHI_INVALID i, TLBLO_INVALID)) [1..<NUM_TLB]"
    by (simp add: as_activate_def NUM_TLB_def upt_conv_Cons)
  have "as_translate (demo_space p) (0x400000 AND PAGE_FRAME) = Some p"
    by (simp add: as_translate_def demo_space_def PAGE_SIZE_def PAGE_FRAME_def)
  moreover have "tlb_slot (tlb ?s) 0 = Some 0" unfolding tl by (simp add: TLBLO_INVALID_def)
  ultimately have "vm_fault VM_FAULT_READ 0x400000 (Some (Some (demo_space p))) ?s =
      Done (None, ?s\<lparr>tlb := (tlb ?s)[0 := (0x400000 AND PAGE_FRAME, p OR TLBLO_DIRTY OR TLBLO_VALID)]\<rparr>)"
    using vm_fault_eq [OF assms, of VM_FAULT_READ "0x400000" ?s] by simp
  then have "runs_process (demo_space p) (?s\<lparr>tlb := (tlb ?s)[0 := (0x400000 AND PAGE_FRAME, p OR TLBLO_DIRTY OR TLBLO_VALID)]\<rparr>)"
    using runs_process.activated runs_process.faulted by blast
  moreover have "(p OR TLBLO_DIRTY OR TLBLO_VALID) AND TLBLO_VALID \<noteq> 0"
  proof -
    have "bit ((p OR TLBLO_DIRTY OR TLBLO_VALID) AND TLBLO_VALID) 9"
      by (simp add: bit_simps TLBLO_VALID_def)
    then show ?thesis by auto
  qed
  moreover have "0x400000 AND PAGE_FRAME = 0x400000" by (simp add: PAGE_FRAME_def)
  ultimately show ?thesis unfolding tl by fastforce
qed

theorem tlb_isolation_witness:
  "\<exists>(s :: vm) (s' :: vm) e e'. (0x400000, e) \<in> set (tlb s) \<and> (0x400000, e') \<in> set (tlb s') \<and>
     unat e div 4096 \<in> as_frames (demo_space 0x20000) \<and> unat e div 4096 \<noteq> unat e' div 4096"
proof -
  have ok: "as_ok (demo_space 0x20000)" "as_ok (demo_space 0x40000)" by (rule demo_space_ok)+
  have dj: "as_frames (demo_space 0x20000) \<inter> as_frames (demo_space 0x40000) = {}"
    by (auto simp: as_frames_def demo_space_def frames_def stackpages)
  obtain s e where s: "runs_process (demo_space 0x20000) s" "(0x400000, e) \<in> set (tlb s)" "e AND TLBLO_VALID \<noteq> 0"
    using demo_fault [OF ok(1)] by blast
  obtain s' e' where s': "runs_process (demo_space 0x40000) s'" "(0x400000, e') \<in> set (tlb s')" "e' AND TLBLO_VALID \<noteq> 0"
    using demo_fault [OF ok(2)] by blast
  show ?thesis using tlb_isolation [OF ok dj s(1) s'(1) s(2,3) s'(2,3)] s(2) s'(2)
    by (intro exI [of _ s] exI [of _ s'] exI [of _ e] exI [of _ e']) simp
qed

text \<open>C7.  \<^verbatim>\<open>as_copy\<close>, which \<^verbatim>\<open>fork\<close> uses, makes an exact private copy: the new address space owns
  frames that nobody used before, maps the same addresses, reads the same byte at every
  mapped address, and no other memory changes.\<close>

theorem as_copy_exact:
  assumes "vm_inv K s" "sleepable s" "as_ok old" "as_frames old \<subseteq> used K s" "as_copy old s = Done (Inr new, s')"
  shows "as_ok new \<and> vm_inv K s' \<and> as_frames new \<inter> used K s = {} \<and> used K s' = used K s \<union> as_frames new \<and>
    (\<forall>x. unat x div 4096 \<notin> as_frames new \<longrightarrow> pmem s' x = pmem s x) \<and>
    (\<forall>va pa. as_translate old va = Some pa \<longrightarrow>
      (\<exists>pa'. as_translate new va = Some pa' \<and> pmem s' pa' = pmem s pa))"
  using as_copy_spec [OF assms] by blast

definition demo_vm2 :: vm where
  "demo_vm2 = demo_vm\<lparr>firstpaddr := 0x37000\<rparr>"

lemma demo_vm2_inv: "vm_inv 32 demo_vm2" "sleepable demo_vm2"
  using demo_vm_inv demo_vm_sleepable
  by (auto simp: vm_inv_def demo_vm2_def demo_vm_def sleepable_def dumbvm_can_sleep_def)

lemma demo_copy: "\<exists>new s'. as_copy (demo_space 0x20000) demo_vm2 = Done (Inr new, s')"
proof -
  let ?s = "demo_vm2\<lparr>vheap := \<lparr>kh_next = 2, kh_live = [1, 0], kh_avail = (\<lambda>_. True)\<rparr>\<rparr>"
  let ?as = "\<lparr>as_self = 1, as_vbase1 = 0x400000, as_pbase1 = 0, as_npages1 = 2, as_vbase2 = 0x10000000, as_pbase2 = 0,
     as_npages2 = 3, as_stackpbase = 0\<rparr>"
  have d: "untouched ?s" "firstpaddr ?s = 0x37000" "lastpaddr ?s = 0x80000" "length (allocSize ?s) = 128"
    by (simp_all add: demo_vm2_def demo_vm_def untouched_def)
  have sl: "sleepable ?s" by (simp add: sleepable_def dumbvm_can_sleep_def demo_vm2_def demo_vm_def)
  have "\<exists>s1. take_three ?as ?s = Done (0x37000, 0x39000, 0x3c000, s1)"
    using d by (simp add: take_three_def getppages_fresh PAGE_SIZE_def DUMBVM_STACKPAGES_def)
  then obtain s1 where s1: "take_three ?as ?s = Done (0x37000, 0x39000, 0x3c000, s1)" by blast
  have "as_create demo_vm2 = (Some (?as\<lparr>as_vbase1 := 0, as_npages1 := 0, as_vbase2 := 0, as_npages2 := 0\<rparr>), ?s)"
    by (simp add: as_create_def kmalloc_def demo_vm2_def demo_vm_def)
  then show ?thesis using demo_vm2_inv(2) prepare_take_three [OF sl _ _ _ s1]
    by (simp add: as_copy_def sleepable_def demo_space_def Let_def)
qed

theorem as_copy_exact_witness:
  "\<exists>new s'. as_copy (demo_space 0x20000) demo_vm2 = Done (Inr new, s') \<and>
     (\<exists>pa'. as_translate new 0x400004 = Some pa' \<and> pmem s' pa' = 7)"
proof -
  obtain new s' where c: "as_copy (demo_space 0x20000) demo_vm2 = Done (Inr new, s')" using demo_copy by blast
  have f: "as_frames (demo_space 0x20000) \<subseteq> used 32 demo_vm2"
    by (auto simp: as_frames_def demo_space_def frames_def stackpages used_def demo_vm2_def demo_vm_def)
  have "as_translate (demo_space 0x20000) 0x400004 = Some 0x20004"
    by (simp add: as_translate_def demo_space_def PAGE_SIZE_def)
  then obtain pa' where "as_translate new 0x400004 = Some pa'" "pmem s' pa' = pmem demo_vm2 0x20004"
    using as_copy_exact [OF demo_vm2_inv demo_space_ok(1) f c] by blast
  moreover have "pmem demo_vm2 0x20004 = 7" by (simp add: demo_vm2_def demo_vm_def)
  ultimately show ?thesis using c by (intro exI [of _ new] exI [of _ s']) simp
qed



section \<open>Two ways to hand out memory of the kernel\<close>

definition only_frees :: "vm \<Rightarrow> vm \<Rightarrow> bool" where
  "only_frees s s' \<longleftrightarrow> firstpaddr s' = firstpaddr s \<and> lastpaddr s' = lastpaddr s \<and> allocSize s' = allocSize s \<and>
     nRamFrames s' = nRamFrames s \<and> allocTableActive s' = allocTableActive s \<and>
     length (freeRamFrames s') = length (freeRamFrames s)"

lemma set_frames_len: "set_frames v f n fr = Done fr' \<Longrightarrow> length fr' = length fr"
  by (auto simp: set_frames_def split: if_splits)

lemma freeppages_only: "freeppages a n s = Done (b, s') \<Longrightarrow> only_frees s s'"
  by (auto simp: freeppages_def Let_def obind_Done_iff only_frees_def set_frames_len split: if_splits)

lemma only_frees_trans: "only_frees s s1 \<Longrightarrow> only_frees s1 s2 \<Longrightarrow> only_frees s s2"
  by (simp add: only_frees_def)

lemma as_destroy_null_stack:
  assumes "as_destroy as s = Done s'" "as_stackpbase as = 0" "allocTableActive s"
  shows "only_frees s s' \<and> 18 \<le> length (freeRamFrames s) \<and> (\<forall>i<18. freeRamFrames s' ! i)"
proof -
  obtain b1 s1 b2 s2 b3 s3 h where d: "freeppages (as_pbase1 as) (as_npages1 as) s = Done (b1, s1)"
    "freeppages (as_pbase2 as) (as_npages2 as) s1 = Done (b2, s2)"
    "freeppages (as_stackpbase as) DUMBVM_STACKPAGES s2 = Done (b3, s3)" "s' = s3\<lparr>vheap := h\<rparr>"
    using assms(1) by (auto simp: as_destroy_def obind_Done_iff)
  have o: "only_frees s s2" using freeppages_only [OF d(1)] freeppages_only [OF d(2)] only_frees_trans by blast
  then have act: "isTableActive s2" "length (freeRamFrames s2) = length (freeRamFrames s)"
    using assms(3) by (auto simp: only_frees_def isTableActive_def)
  have n: "nat (sint DUMBVM_STACKPAGES) = 18" using sint_small [of DUMBVM_STACKPAGES] stackpages by simp
  obtain fr where fr: "set_frames True 0 18 (freeRamFrames s2) = Done fr" "freeRamFrames s3 = fr"
    using d(3) assms(2) act(1) n by (auto simp: freeppages_def Let_def obind_Done_iff split: if_splits)
  have "fr ! i" if "i < 18" for i using set_frames_nth [OF fr(1)] that act(2) by auto
  moreover have "18 \<le> length (freeRamFrames s)" using set_frames_nth(2) [OF fr(1)] act(2) by simp
  moreover have "only_frees s3 s'" by (auto simp: only_frees_def d(4))
  ultimately show ?thesis
    using only_frees_trans [OF o freeppages_only [OF d(3)]] only_frees_trans d(4) fr(2) by auto
qed


text \<open>C24.  \<^verbatim>\<open>as_destroy\<close> of an address space whose stack was never allocated, as after a failed
  \<^verbatim>\<open>load_elf\<close> or an \<^verbatim>\<open>as_copy\<close> that runs out of memory, marks the first eighteen frames of
  physical memory as free, which are those of the exception vectors and the kernel image:
  the second allocation of one page after it is frame 1.\<close>

theorem as_destroy_frees_kernel:
  assumes "vm_inv K s" "1 < K" "as_stackpbase as = 0" "as_destroy as s = Done s'"
  shows "take 18 (freeRamFrames s') = replicate 18 True \<and>
    (\<exists>a s1 s2. getppages 1 s' = Done (a, s1) \<and> getppages 1 s1 = Done (0x1000, s2) \<and>
      frames 0x1000 1 \<inter> {K..} = {})"
proof -
  note d = vm_invD [OF assms(1)]
  have o: "only_frees s s'" "18 \<le> length (freeRamFrames s)" "\<And>i. i < 18 \<Longrightarrow> freeRamFrames s' ! i"
    using as_destroy_null_stack [OF assms(4,3)] d(1) by (auto simp: isTableActive_def)
  define s0 where "s0 = s'\<lparr>freeRamFrames := (freeRamFrames s')[0 := False], allocSize := (allocSize s')[0 := 1]\<rparr>"
  have len: "length (freeRamFrames s') = nRamFrames s'" "18 \<le> nRamFrames s'" "length (allocSize s') = nRamFrames s'"
    "allocTableActive s'" using o(1,2) d(1-3) by (simp_all add: only_frees_def isTableActive_def)
  have "find_free (freeRamFrames s') (nRamFrames s') 1 0 (-1) = 0"
    using o(3) [of 0] len by (subst find_free.simps) simp
  then have g0: "getfreeppages 1 s' = Done (0, s0)"
    using len by (cases "freeRamFrames s'")
      (auto simp: getfreeppages_def isTableActive_def set_frames_def s0_def Let_def)
  have f: "firstpaddr s0 = firstpaddr s" "lastpaddr s0 = lastpaddr s" "nRamFrames s = nRamFrames s'"
    using o(1) by (simp_all add: s0_def only_frees_def)
  have sum: "unat (firstpaddr s + PAGE_SIZE) = unat (firstpaddr s) + 4096"
    using d(5,8) by (simp add: PAGE_SIZE_def unat_word_ariths)
  have in_ram: "unat (firstpaddr s) div 4096 < nRamFrames s'" if "unat (firstpaddr s) + 4096 \<le> unat (lastpaddr s)"
  proof -
    have "(unat (firstpaddr s) + 4096) div 4096 \<le> nRamFrames s" unfolding d(4) using that by (rule div_le_mono)
    then show ?thesis using f(3) by simp
  qed
  have "\<exists>a s1. getppages 1 s' = Done (a, s1) \<and> freeRamFrames s1 = freeRamFrames s0 \<and>
    nRamFrames s1 = nRamFrames s' \<and> allocTableActive s1 \<and> length (allocSize s1) = nRamFrames s'"
    using sum f len g0 in_ram
    by (cases "unat (firstpaddr s) + 4096 \<le> unat (lastpaddr s)"; cases "firstpaddr s = 0")
      (simp_all add: getppages_def ram_stealmem_def s0_def isTableActive_def unat_div_page word_less_nat_alt)
  then obtain a s1 where g1: "getppages 1 s' = Done (a, s1)" "freeRamFrames s1 = freeRamFrames s0"
    "nRamFrames s1 = nRamFrames s'" "allocTableActive s1" "length (allocSize s1) = nRamFrames s'" by blast
  have f1: "\<not> freeRamFrames s1 ! 0" "freeRamFrames s1 ! 1" "length (freeRamFrames s1) = nRamFrames s'"
    using g1(2) len o(3) [of 1] by (simp_all add: s0_def)
  have "find_free (freeRamFrames s1) (nRamFrames s1) 1 0 (-1) = 1"
    using f1 g1(3) len by (subst find_free.simps, simp, subst find_free.simps) simp
  then have "\<exists>s2. getppages 1 s1 = Done (0x1000, s2)"
    using f1 g1(3-5) len by (simp add: getppages_def getfreeppages_def isTableActive_def set_frames_def PAGE_SIZE_def)
  moreover have "take 18 (freeRamFrames s') = replicate 18 True"
    using o(3) len by (intro nth_equalityI) auto
  ultimately show ?thesis using g1(1) assms(2) by (auto simp: frames_def)
qed


theorem as_destroy_frees_kernel_witness:
  "\<exists>a s' s1 s2. as_destroy (demo_as\<lparr>as_npages1 := 0, as_npages2 := 0\<rparr>) demo_vm = Done s' \<and>
     getppages 1 s' = Done (a, s1) \<and> getppages 1 s1 = Done (0x1000, s2)"
proof -
  have "sint DUMBVM_STACKPAGES = 18" by (simp add: DUMBVM_STACKPAGES_def)
  then obtain s' where s': "as_destroy (demo_as\<lparr>as_npages1 := 0, as_npages2 := 0\<rparr>) demo_vm = Done s'"
    by (simp add: as_destroy_def dumbvm_can_sleep_def freeppages_def isTableActive_def set_frames_def kfree_def
        demo_vm_def demo_as_def)
  have "as_stackpbase (demo_as\<lparr>as_npages1 := 0, as_npages2 := 0\<rparr>) = 0" by (simp add: demo_as_def)
  then show ?thesis using as_destroy_frees_kernel [OF demo_vm_inv _ _ s'] s' by auto
qed

text \<open>C25.  The bounds check of \<^verbatim>\<open>ram_stealmem\<close> wraps: a request for \<open>0xfffff\<close> pages, the size of a
  region defined with length \<open>0xfffff000\<close>, passes it, moves the boundary of free memory down
  by one page, and the next request returns the page below the old boundary, which was
  handed out before or belongs to the kernel.\<close>

theorem ram_stealmem_wraps:
  assumes "PAGE_SIZE \<le> firstpaddr s" "firstpaddr s \<le> lastpaddr s" "sleepable s" "as_vbase1 as = 0"
  shows "\<exists>as' s1 s2. as_define_region as 0x400000 0xfffff000 s = Done (None, as') \<and> as_npages1 as' = 0xfffff \<and>
    ram_stealmem (as_npages1 as') s = (firstpaddr s, s1) \<and> ram_stealmem 1 s1 = (firstpaddr s - PAGE_SIZE, s2)"
proof -
  have m: "(0xfffff :: u32) * PAGE_SIZE = - PAGE_SIZE" by (simp add: PAGE_SIZE_def)
  have "firstpaddr s - PAGE_SIZE \<le> firstpaddr s" using assms(1) by (simp add: word_sub_le)
  then have le: "firstpaddr s - PAGE_SIZE \<le> lastpaddr s" using assms(2) by simp
  let ?s1 = "s\<lparr>firstpaddr := firstpaddr s - PAGE_SIZE\<rparr>"
  have "ram_stealmem 0xfffff s = (firstpaddr s, ?s1)"
    unfolding ram_stealmem_def Let_def m using le by (simp add: leD)
  moreover have "ram_stealmem 1 ?s1 = (firstpaddr s - PAGE_SIZE, ?s1\<lparr>firstpaddr := firstpaddr s\<rparr>)"
    using assms(2) by (simp add: ram_stealmem_def leD)
  moreover have "as_define_region as 0x400000 0xfffff000 s = Done (None, as\<lparr>as_vbase1 := 0x400000, as_npages1 := 0xfffff\<rparr>)"
    using assms(3,4) by (simp add: as_define_region_def sleepable_def PAGE_FRAME_def PAGE_SIZE_def Let_def)
  ultimately show ?thesis by auto
qed

theorem ram_stealmem_wraps_witness:
  "\<exists>s1 s2. ram_stealmem 0xfffff demo_vm = (0x20000, s1) \<and> ram_stealmem 1 s1 = (0x1f000, s2)"
proof -
  have "PAGE_SIZE \<le> firstpaddr demo_vm" "firstpaddr demo_vm \<le> lastpaddr demo_vm"
    "as_vbase1 (demo_as\<lparr>as_vbase1 := 0\<rparr>) = 0" by (simp_all add: demo_vm_simps PAGE_SIZE_def)
  then show ?thesis using ram_stealmem_wraps [OF _ _ demo_vm_sleepable, of "demo_as\<lparr>as_vbase1 := 0\<rparr>"]
    by (auto simp: demo_vm_simps PAGE_SIZE_def)
qed

end
