(* ===== verification/ExecArgs.thy ===== *)
theory ExecArgs
  imports UserMem KMisc Synch DumbVM
begin

text \<open>
  The argument buffer of \<^verbatim>\<open>execv\<close> (\<^verbatim>\<open>kern/syscall/exec.c\<close>): the argument strings are copied
  from the old program into one kernel buffer, back to back, and from there onto the stack
  of the new program, followed by the array of pointers to them.

  The block that \<^verbatim>\<open>kmalloc\<close> returns under number \<open>n\<close> is the kernel object \<open>Suc n\<close>; its first
  content is arbitrary (\<open>junk\<close>).  Object \<open>0\<close> is the local variable \<^verbatim>\<open>thisarg\<close>, whose address
  is passed to \<^verbatim>\<open>copyin\<close> and \<^verbatim>\<open>copyout\<close>; the machine is big-endian.
\<close>

unbundle bit_operations_syntax

section \<open>Pointers in memory\<close>

fun be_word :: "u8 list \<Rightarrow> u32" where
  "be_word [a, b, c, d] =
     push_bit 24 (ucast a) OR push_bit 16 (ucast b) OR push_bit 8 (ucast c) OR ucast d"
| "be_word _ = 0"

definition be_bytes :: "u32 \<Rightarrow> u8 list" where
  "be_bytes w = [byte_of 3 w, byte_of 2 w, byte_of 1 w, byte_of 0 w]"

lemma length_be_bytes [simp]: "length (be_bytes w) = 4"
  by (simp add: be_bytes_def)

lemma be_word_bytes [simp]: "be_word (be_bytes w) = w"
proof (rule bit_word_eqI)
  fix n assume "n < LENGTH(32)"
  then consider "n < 8" | "8 \<le> n" "n < 16" | "16 \<le> n" "n < 24" | "24 \<le> n" "n < 32" by fastforce
  then show "bit (be_word (be_bytes w)) n = bit w n"
    by cases (auto simp: be_bytes_def byte_of_def bit_simps dest: bit_imp_le_length)
qed

section \<open>The buffer\<close>

definition EXEC_BIGBUF_THROTTLE :: u32 where "EXEC_BIGBUF_THROTTLE = 1"
definition ARGMAX :: u32 where "ARGMAX = 64 * 1024"
definition thisarg_cell :: nat where "thisarg_cell = 0"

record argbuf =
  ab_data :: "nat option"
  ab_len :: u32
  ab_max :: u32
  ab_nargs :: int
  tooksem :: bool

definition argbuf_init :: argbuf where
  "argbuf_init = \<lparr>ab_data = None, ab_len = 0, ab_max = 0, ab_nargs = 0, tooksem = False\<rparr>"

lemma copystr_loop_bound:
  "copystr_loop dest src maxlen stoplen i s = Done (StrReturn (Inr n), s') \<Longrightarrow> i < n \<and> n \<le> maxlen"
proof (induction "maxlen - i" arbitrary: i s rule: less_induct)
  case less
  note loop = copystr_loop.simps [of dest src maxlen stoplen i s]
  have lt: "i < maxlen \<and> i < stoplen" using less.prems unfolding loop by (auto split: if_splits)
  obtain x where x: "load s (ptr_add src i) = Done (Some x)"
    using less.prems lt unfolding loop by (auto simp: obind_Done_iff split: option.splits)
  obtain u where u: "store s (ptr_add dest i) x = Done (Some u)"
    using less.prems lt x unfolding loop by (auto simp: obind_Done_iff split: option.splits)
  show ?case
  proof (cases "x = 0")
    case True
    then show ?thesis using less.prems lt x u unfolding loop by auto
  next
    case False
    then have "copystr_loop dest src maxlen stoplen (i + 1) u = Done (StrReturn (Inr n), s')"
      using less.prems lt x u unfolding loop by auto
    then have "i + 1 < n \<and> n \<le> maxlen" using lt by (intro less.hyps) auto
    then show ?thesis by simp
  qed
qed

lemma str_result_Inr: "str_result (r, s) = (Inr n, s') \<Longrightarrow> r = StrReturn (Inr n)"
  by (auto simp: str_result_def split: strcopy.splits)

lemma copyinstr_bound: "copyinstr a d len s = Done (Inr n, s') \<Longrightarrow> 0 < n \<and> n \<le> unat len"
  by (auto simp: copyinstr_def copystr_def obind_Done_iff split: prod.splits option.splits
      dest!: str_result_Inr copystr_loop_bound)

lemma copyoutstr_bound: "copyoutstr src a len s = Done (Inr n, s') \<Longrightarrow> 0 < n \<and> n \<le> unat len"
  by (auto simp: copyoutstr_def copystr_def obind_Done_iff split: prod.splits option.splits
      dest!: str_result_Inr copystr_loop_bound)

lemma unat_minus_of_nat:
  fixes x :: "'a::len word"
  assumes "n \<le> unat x"
  shows "unat (x - of_nat n) = unat x - n"
proof -
  have "n < 2 ^ LENGTH('a)" using assms unat_less_2p [of x] by linarith
  then have u: "unat (of_nat n :: 'a word) = n" by (rule unat_of_nat_small)
  then have "(of_nat n :: 'a word) \<le> x" using assms by (simp add: word_le_nat_alt)
  then show ?thesis using u by (simp add: unat_sub)
qed

lemma unat_add_nat:
  fixes a :: u32
  assumes "unat a + n < 2 ^ 32"
  shows "unat (a + of_nat n) = unat a + n"
proof -
  have "unat (of_nat n :: u32) = n" using assms by (intro unat_of_nat_small) simp
  then show ?thesis using assms by (simp add: unat_word_ariths)
qed

text \<open>The loop of \<^verbatim>\<open>argbuf_copyin\<close>: every turn stores at least one byte, so it ends.\<close>

definition read_cell :: "memory \<Rightarrow> u32 outcome" where
  "read_cell s = obind (deref (kobj s thisarg_cell)) (\<lambda>b. Done (be_word b))"

function argbuf_copyin :: "argbuf \<Rightarrow> u32 \<Rightarrow> memory \<Rightarrow> (errno option \<times> argbuf \<times> memory) outcome" where
  "argbuf_copyin buf uargv s =
     obind (copyin uargv (KPtr thisarg_cell 0) 4 s) (\<lambda>(result, s).
     case result of Some e \<Rightarrow> Done (Some e, buf, s) | None \<Rightarrow>
     obind (read_cell s) (\<lambda>thisarg.
     if thisarg = 0 then Done (None, buf, s) else
     obind (deref (ab_data buf)) (\<lambda>d.
     obind (copyinstr thisarg (KPtr (Suc d) (unat (ab_len buf))) (ab_max buf - ab_len buf) s) (\<lambda>(result, s).
     case result of
       Inl e \<Rightarrow> Done (Some (if e = ENAMETOOLONG then E2BIG else e), buf, s)
     | Inr thisarglen \<Rightarrow>
         argbuf_copyin (buf\<lparr>ab_len := ab_len buf + of_nat thisarglen, ab_nargs := ab_nargs buf + 1\<rparr>)
           (uargv + 4) s))))"
  by pat_completeness auto
termination
proof (relation "measure (\<lambda>(buf, _, _). unat (ab_max buf - ab_len buf))", goal_cases)
  case (2 buf uargv s x r s1 thisarg d y r2 s2 n)
  then have "0 < n \<and> n \<le> unat (ab_max buf - ab_len buf)" by (auto dest: copyinstr_bound)
  then have "unat (ab_max buf - ab_len buf - of_nat n) < unat (ab_max buf - ab_len buf)"
    by (simp add: unat_minus_of_nat)
  then show ?case by (simp add: algebra_simps)
qed simp

declare argbuf_copyin.simps [simp del]

definition write_cell :: "u32 \<Rightarrow> memory \<Rightarrow> memory" where
  "write_cell w s = s\<lparr>kobj := (kobj s)(thisarg_cell \<mapsto> be_bytes w)\<rparr>"

text \<open>The loop of \<^verbatim>\<open>argbuf_copyout\<close>, with the final \<^verbatim>\<open>pos\<close> and \<^verbatim>\<open>uargv_i\<close>.\<close>

function copyout_loop ::
  "argbuf \<Rightarrow> u32 \<Rightarrow> u32 \<Rightarrow> u32 \<Rightarrow> memory \<Rightarrow> (errno option \<times> u32 \<times> u32 \<times> memory) outcome" where
  "copyout_loop buf ustringbase pos uargv_i s =
     (if pos < ab_len buf then
        let thisarg = ustringbase + pos in
        obind (copyout (KPtr thisarg_cell 0) uargv_i 4 (write_cell thisarg s)) (\<lambda>(result, s).
        case result of Some e \<Rightarrow> Done (Some e, pos, uargv_i, s) | None \<Rightarrow>
        obind (deref (ab_data buf)) (\<lambda>d.
        obind (copyoutstr (KPtr (Suc d) (unat pos)) thisarg (ab_len buf - pos) s) (\<lambda>(result, s).
        case result of
          Inl e \<Rightarrow> Done (Some e, pos, uargv_i, s)
        | Inr thisarglen \<Rightarrow> copyout_loop buf ustringbase (pos + of_nat thisarglen) (uargv_i + 4) s)))
      else Done (None, pos, uargv_i, s))"
  by pat_completeness auto
termination
proof (relation "measure (\<lambda>(buf, _, pos, _, _). unat (ab_len buf - pos))", goal_cases)
  case (2 buf base pos uargv_i s thisarg x r s1 d y r2 s2 n)
  then have "0 < n \<and> n \<le> unat (ab_len buf - pos)" by (auto dest: copyoutstr_bound)
  then have "unat (ab_len buf - pos - of_nat n) < unat (ab_len buf - pos)"
    by (simp add: unat_minus_of_nat)
  then show ?case by (simp add: algebra_simps)
qed simp

declare copyout_loop.simps [simp del]

text \<open>The result, \<^verbatim>\<open>*ustackp\<close>, \<^verbatim>\<open>*argc_ret\<close> and \<^verbatim>\<open>*uargv_ret\<close>.\<close>

definition argbuf_copyout ::
  "argbuf \<Rightarrow> u32 \<Rightarrow> memory \<Rightarrow> ((errno + (u32 \<times> int \<times> u32)) \<times> memory) outcome" where
  "argbuf_copyout buf ustackp s =
     (let ustack = ustackp - ab_len buf;
          ustringbase = ustack - (ustack AND (4 - 1));
          uargvbase = ustringbase - of_int (ab_nargs buf + 1) * 4 in
      obind (copyout_loop buf ustringbase 0 uargvbase s) (\<lambda>(result, pos, uargv_i, s).
      case result of Some e \<Rightarrow> Done (Inl e, s) | None \<Rightarrow>
      obind (kassert (pos = ab_len buf)) (\<lambda>_.
      obind (copyout (KPtr thisarg_cell 0) uargv_i 4 (write_cell 0 s)) (\<lambda>(result, s).
      case result of Some e \<Rightarrow> Done (Inl e, s) | None \<Rightarrow>
      Done (Inr (uargvbase, ab_nargs buf, uargvbase), s)))))"

section \<open>Allocation and the throttle\<close>

record exec_state =
  em :: memory
  eheap :: kheap
  junk :: "nat \<Rightarrow> nat \<Rightarrow> u8"
  execthrottle :: sema

definition exec_bootstrap :: "exec_state \<Rightarrow> exec_state outcome" where
  "exec_bootstrap st =
     obind (sem_create EXEC_BIGBUF_THROTTLE (eheap st)) (\<lambda>(sem, h).
     case sem of None \<Rightarrow> Stop Panic
     | Some sm \<Rightarrow> Done (st\<lparr>eheap := h,
         execthrottle := \<lparr>s_count = sem_count sm, s_sleepers = sem_waiters sm\<rparr>\<rparr>))"

definition argbuf_allocate :: "argbuf \<Rightarrow> u32 \<Rightarrow> exec_state \<Rightarrow> errno option \<times> argbuf \<times> exec_state" where
  "argbuf_allocate buf sz st =
     (case kmalloc (eheap st) of
        (None, h) \<Rightarrow> (Some ENOMEM, buf\<lparr>ab_data := None\<rparr>, st\<lparr>eheap := h\<rparr>)
      | (Some n, h) \<Rightarrow>
          (None, buf\<lparr>ab_data := Some n, ab_max := sz\<rparr>,
           st\<lparr>eheap := h,
              em := (em st)\<lparr>kobj := (kobj (em st))(Suc n \<mapsto> map (junk st n) [0..<unat sz])\<rparr>\<rparr>))"

definition argbuf_cleanup :: "argbuf \<Rightarrow> exec_state \<Rightarrow> (argbuf \<times> exec_state) outcome" where
  "argbuf_cleanup buf st =
     obind (case ab_data buf of
              None \<Rightarrow> Done st
            | Some n \<Rightarrow> obind (kfree (Some n) (eheap st)) (\<lambda>h.
                Done (st\<lparr>eheap := h, em := (em st)\<lparr>kobj := (kobj (em st))(Suc n := None)\<rparr>\<rparr>))) (\<lambda>st.
     let buf = buf\<lparr>ab_data := None, ab_len := 0, ab_max := 0, ab_nargs := 0\<rparr> in
     if tooksem buf
     then obind (V (execthrottle st)) (\<lambda>(w, q). Done (buf\<lparr>tooksem := False\<rparr>, st\<lparr>execthrottle := q\<rparr>))
     else Done (buf, st))"

text \<open>\<open>me\<close> is the calling thread; when the throttle is taken it sleeps.\<close>

definition argbuf_fromuser ::
  "nat \<Rightarrow> argbuf \<Rightarrow> u32 \<Rightarrow> exec_state \<Rightarrow> (errno option \<times> argbuf \<times> exec_state) outcome" where
  "argbuf_fromuser me buf uargv st =
     (case argbuf_allocate buf PAGE_SIZE st of
        (Some e, buf, st) \<Rightarrow> Done (Some e, buf, st)
      | (None, buf, st) \<Rightarrow>
          obind (argbuf_copyin buf uargv (em st)) (\<lambda>(result, buf, s).
          let st = st\<lparr>em := s\<rparr> in
          if result = Some E2BIG then
            obind (argbuf_cleanup buf st) (\<lambda>(_, st).
            let buf = argbuf_init in
            obind (P me (execthrottle st)) (\<lambda>(through, q).
            let st = st\<lparr>execthrottle := q\<rparr> in
            if \<not> through then Stop Blocked else
            let buf = buf\<lparr>tooksem := True\<rparr> in
            case argbuf_allocate buf ARGMAX st of
              (Some e, buf, st) \<Rightarrow> Done (Some e, buf, st)
            | (None, buf, st) \<Rightarrow>
                obind (argbuf_copyin buf uargv (em st)) (\<lambda>(result, buf, s).
                Done (result, buf, st\<lparr>em := s\<rparr>))))
          else Done (result, buf, st)))"

section \<open>Argument vectors in user memory\<close>

definition user_word :: "(u32 \<rightharpoonup> u8) \<Rightarrow> u32 \<Rightarrow> u32 option" where
  "user_word m a =
     (let p = user_prefix m a 4 in
      if user_range a 4 \<and> length p = 4 then Some (be_word p) else None)"

definition user_str :: "(u32 \<rightharpoonup> u8) \<Rightarrow> u32 \<Rightarrow> u8 list \<Rightarrow> bool" where
  "user_str m p x \<longleftrightarrow>
     0 \<notin> set x \<and> unat p + length x + 1 \<le> 2 ^ 31 \<and> user_prefix m p (length x + 1) = x @ [0]"

fun user_args :: "(u32 \<rightharpoonup> u8) \<Rightarrow> u32 \<Rightarrow> u8 list list \<Rightarrow> bool" where
  "user_args m a [] \<longleftrightarrow> user_word m a = Some 0"
| "user_args m a (x # xs) \<longleftrightarrow>
     (case user_word m a of None \<Rightarrow> False
      | Some p \<Rightarrow> p \<noteq> 0 \<and> user_str m p x \<and> user_args m (a + 4) xs)"

text \<open>The strings back to back, each with its terminating zero.\<close>

definition packed :: "u8 list list \<Rightarrow> u8 list" where
  "packed xs = concat (map (\<lambda>x. x @ [0]) xs)"

lemma packed_simps [simp]: "packed [] = []" "packed (x # xs) = x @ 0 # packed xs"
  by (simp_all add: packed_def)

lemma length_packed: "length xs \<le> length (packed xs)"
  by (induction xs) auto

lemma user_prefix_cong:
  "(\<And>y. unat a \<le> unat y \<Longrightarrow> unat y < unat a + n \<Longrightarrow> m y = m' y) \<Longrightarrow> unat a + n \<le> 2 ^ 32 \<Longrightarrow>
   user_prefix m a n = user_prefix m' a n"
proof (induction n arbitrary: a)
  case (Suc n)
  have "m a = m' a" using Suc.prems(1) by simp
  moreover have "user_prefix m (a + 1) n = user_prefix m' (a + 1) n"
  proof (cases n)
    case (Suc k)
    then have "unat (a + 1) = unat a + 1" using Suc.prems(2) by (intro unat_Suc_lt) auto
    then show ?thesis using Suc.prems by (intro Suc.IH) auto
  qed simp
  ultimately show ?case by (simp split: option.splits)
qed simp

lemma user_prefix_full:
  "(\<And>y. unat a \<le> unat y \<Longrightarrow> unat y < unat a + n \<Longrightarrow> m y \<noteq> None) \<Longrightarrow> unat a + n \<le> 2 ^ 32 \<Longrightarrow>
   length (user_prefix m a n) = n"
proof (induction n arbitrary: a)
  case (Suc n)
  have "m a \<noteq> None" using Suc.prems(1) by simp
  moreover have "length (user_prefix m (a + 1) n) = n"
  proof (cases n)
    case (Suc k)
    then have "unat (a + 1) = unat a + 1" using Suc.prems(2) by (intro unat_Suc_lt) auto
    then show ?thesis using Suc.prems by (intro Suc.IH) auto
  qed simp
  ultimately show ?case by auto
qed simp

lemma user_prefix_append:
  "user_prefix m a (i + j) =
     (let p = user_prefix m a i in if length p = i then p @ user_prefix m (a + of_nat i) j else p)"
proof (induction i arbitrary: a)
  case (Suc i)
  show ?case
  proof (cases "m a")
    case (Some x)
    then show ?thesis using Suc.IH [of "a + 1"] by (simp add: Let_def ac_simps)
  qed simp
qed simp

lemma upto_nul_append: "0 \<notin> set x \<Longrightarrow> upto_nul (x @ 0 # r) = x @ [0]"
  by (induction x) auto

lemma copyinstr_user_str:
  assumes "user_str (vmem s) p x" "kobj s ob = Some b" "j + unat len \<le> length b" "\<not> tm_badfaultfunc s"
    "length x < unat len" "unat len \<le> 2 ^ 31"
  shows "copyinstr p (KPtr ob j) len s =
    Done (Inr (length x + 1), s\<lparr>kobj := (kobj s)(ob \<mapsto> overlay b j (x @ [0]))\<rparr>)"
proof -
  have x: "0 \<notin> set x" "unat p + length x + 1 \<le> 2 ^ 31" "user_prefix (vmem s) p (length x + 1) = x @ [0]"
    using assms(1) by (auto simp: user_str_def)
  define m where "m = min (unat len) (2 ^ 31 - unat p)"
  have "length x + 1 \<le> m" using x(2) assms(5) by (simp add: m_def)
  then obtain k where k: "m = (length x + 1) + k" using le_Suc_ex by blast
  have "user_prefix (vmem s) p m = x @ 0 # user_prefix (vmem s) (p + of_nat (length x + 1)) k"
    unfolding k user_prefix_append [of _ _ "length x + 1"] Let_def x(3) by simp
  then have "0 \<in> set (user_prefix (vmem s) p m)" "upto_nul (user_prefix (vmem s) p m) = x @ [0]"
    using x(1) by (auto simp: upto_nul_append)
  moreover have "\<not> (2 ^ 32 < unat p + unat len \<or> 2 ^ 31 \<le> unat p)" using x(2) assms(6) by auto
  ultimately show ?thesis using copyinstr_spec [OF assms(2-4), of p] assms(5)
    unfolding Let_def m_def [symmetric] by simp
qed

lemma copyin_cell:
  assumes "kobj s thisarg_cell = Some c" "length c = 4" "\<not> tm_badfaultfunc s" "user_word (vmem s) a = Some w"
  shows "copyin a (KPtr thisarg_cell 0) 4 s =
      Done (None, s\<lparr>kobj := (kobj s)(thisarg_cell \<mapsto> user_prefix (vmem s) a 4)\<rparr>) \<and>
    length (user_prefix (vmem s) a 4) = 4 \<and> be_word (user_prefix (vmem s) a 4) = w"
proof -
  have u: "unat (4 :: u32) = 4" by simp
  have w: "user_range a 4" "length (user_prefix (vmem s) a 4) = 4" "be_word (user_prefix (vmem s) a 4) = w"
    using assms(4) by (auto simp: user_word_def Let_def simp del: user_prefix_numeral split: if_splits)
  have "overlay c 0 (user_prefix (vmem s) a 4) = user_prefix (vmem s) a 4"
    using assms(2) w(2) by (simp add: overlay_def del: user_prefix_numeral)
  then show ?thesis using copyin_spec [OF assms(1) _ assms(3), of 0 4 a] assms(2) w unfolding u
    by (simp del: user_prefix_numeral)
qed

text \<open>One turn of the loop of \<^verbatim>\<open>argbuf_copyin\<close>, for a string that fits.\<close>

definition copied_in :: "argbuf \<Rightarrow> u8 list \<Rightarrow> argbuf" where
  "copied_in buf x = buf\<lparr>ab_len := ab_len buf + of_nat (length x + 1), ab_nargs := ab_nargs buf + 1\<rparr>"

definition stored :: "nat \<Rightarrow> u8 list \<Rightarrow> u8 list \<Rightarrow> memory \<Rightarrow> memory" where
  "stored d c b s = s\<lparr>kobj := (kobj s)(thisarg_cell \<mapsto> c, Suc d \<mapsto> b)\<rparr>"

lemma stored_simps [simp]:
  "vmem (stored d c b s) = vmem s" "tm_badfaultfunc (stored d c b s) = tm_badfaultfunc s"
  "kobj (stored d c b s) (Suc d) = Some b" "kobj (stored d c b s) thisarg_cell = Some c"
  "stored d c' b' (stored d c b s) = stored d c' b' s"
  by (auto simp: stored_def thisarg_cell_def fun_upd_apply fun_eq_iff intro!: arg_cong [of _ _ "\<lambda>k. s\<lparr>kobj := k\<rparr>"])

lemma stored_kobj: "ob \<noteq> thisarg_cell \<Longrightarrow> ob \<noteq> Suc d \<Longrightarrow> kobj (stored d c b s) ob = kobj s ob"
  by (simp add: stored_def)

lemma stored_cell: "kobj s (Suc d) = Some b \<Longrightarrow> s\<lparr>kobj := (kobj s)(thisarg_cell \<mapsto> c)\<rparr> = stored d c b s"
  by (auto simp: stored_def thisarg_cell_def fun_upd_apply fun_eq_iff intro!: arg_cong [of _ _ "\<lambda>k. s\<lparr>kobj := k\<rparr>"])

lemma stored_obj: "(stored d c b s)\<lparr>kobj := (kobj (stored d c b s))(Suc d \<mapsto> b')\<rparr> = stored d c b' s"
  by (simp add: stored_def)

text \<open>The state in which the loop runs: the data block, the cell, and room for \<open>k\<close> more bytes.\<close>

definition arg_ready :: "nat \<Rightarrow> u8 list \<Rightarrow> argbuf \<Rightarrow> nat \<Rightarrow> memory \<Rightarrow> bool" where
  "arg_ready d b buf k s \<longleftrightarrow> ab_data buf = Some d \<and> kobj s (Suc d) = Some b \<and> length b = unat (ab_max buf) \<and>
     (\<exists>c. kobj s thisarg_cell = Some c \<and> length c = 4) \<and> \<not> tm_badfaultfunc s \<and>
     unat (ab_len buf) + k = unat (ab_max buf) \<and> unat (ab_max buf) \<le> 2 ^ 31"

lemma arg_ready_room: "arg_ready d b buf k s \<Longrightarrow> unat (ab_max buf - ab_len buf) = k"
  by (auto simp: arg_ready_def unat_sub word_le_nat_alt)

lemma argbuf_copyin_head:
  assumes "arg_ready d b buf k s" "user_word (vmem s) uargv = Some p"
  defines "c \<equiv> user_prefix (vmem s) uargv 4"
  shows "length c = 4 \<and> argbuf_copyin buf uargv s =
    (if p = 0 then Done (None, buf, stored d c b s)
     else obind (copyinstr p (KPtr (Suc d) (unat (ab_len buf))) (ab_max buf - ab_len buf) (stored d c b s)) (\<lambda>(result, s).
       case result of
         Inl e \<Rightarrow> Done (Some (if e = ENAMETOOLONG then E2BIG else e), buf, s)
       | Inr n \<Rightarrow> argbuf_copyin (buf\<lparr>ab_len := ab_len buf + of_nat n, ab_nargs := ab_nargs buf + 1\<rparr>) (uargv + 4) s))"
proof -
  obtain c0 where c0: "kobj s thisarg_cell = Some c0" "length c0 = 4" "\<not> tm_badfaultfunc s" "ab_data buf = Some d"
    "kobj s (Suc d) = Some b" using assms(1) by (auto simp: arg_ready_def)
  note i = copyin_cell [OF c0(1-3) assms(2), folded c_def]
  then show ?thesis using c0(4) stored_cell [OF c0(5), of c]
    by (subst argbuf_copyin.simps) (simp add: read_cell_def)
qed

lemma argbuf_copyin_turn:
  assumes "arg_ready d b buf k s" "user_word (vmem s) uargv = Some p" "p \<noteq> 0" "user_str (vmem s) p x" "length x < k"
  shows "\<exists>c. argbuf_copyin buf uargv s =
      argbuf_copyin (copied_in buf x) (uargv + 4) (stored d c (overlay b (unat (ab_len buf)) (x @ [0])) s) \<and>
    arg_ready d (overlay b (unat (ab_len buf)) (x @ [0])) (copied_in buf x) (k - (length x + 1))
      (stored d c (overlay b (unat (ab_len buf)) (x @ [0])) s)"
proof -
  let ?c = "user_prefix (vmem s) uargv 4" and ?l = "unat (ab_len buf)"
  note r = assms(1) [unfolded arg_ready_def] and room = arg_ready_room [OF assms(1)]
  note head = argbuf_copyin_head [OF assms(1,2)]
  have "copyinstr p (KPtr (Suc d) ?l) (ab_max buf - ab_len buf) (stored d ?c b s) =
      Done (Inr (length x + 1), (stored d ?c b s)\<lparr>kobj := (kobj (stored d ?c b s))(Suc d \<mapsto> overlay b ?l (x @ [0]))\<rparr>)"
    using r room assms(4,5) by (intro copyinstr_user_str) simp_all
  then have "argbuf_copyin buf uargv s = argbuf_copyin (copied_in buf x) (uargv + 4) (stored d ?c (overlay b ?l (x @ [0])) s)"
    using head assms(3) unfolding stored_obj by (simp add: copied_in_def)
  moreover have "unat (ab_len buf + of_nat (length x + 1)) = ?l + (length x + 1)"
    using r assms(5) by (intro unat_add_nat) auto
  then have "arg_ready d (overlay b ?l (x @ [0])) (copied_in buf x) (k - (length x + 1)) (stored d ?c (overlay b ?l (x @ [0])) s)"
    using r assms(5) head by (auto simp: arg_ready_def copied_in_def)
  ultimately show ?thesis by blast
qed

lemma argbuf_copyin_spec:
  assumes "user_args (vmem s) uargv xs" "arg_ready d b buf k s" "length (packed xs) \<le> k"
  shows "\<exists>c. length c = 4 \<and> argbuf_copyin buf uargv s =
    Done (None, buf\<lparr>ab_len := ab_len buf + of_nat (length (packed xs)), ab_nargs := ab_nargs buf + int (length xs)\<rparr>,
      stored d c (overlay b (unat (ab_len buf)) (packed xs)) s)"
  using assms
proof (induction xs arbitrary: uargv buf s b k)
  case Nil
  then show ?case using argbuf_copyin_head [OF Nil.prems(2), of uargv 0] by auto
next
  case (Cons x xs)
  let ?l = "unat (ab_len buf)" and ?b = "overlay b (unat (ab_len buf)) (x @ [0])"
  obtain p where p: "user_word (vmem s) uargv = Some p" "p \<noteq> 0" "user_str (vmem s) p x"
    "user_args (vmem s) (uargv + 4) xs" using Cons.prems(1) by (auto split: option.splits)
  have k: "length x < k" "length (packed xs) \<le> k - (length x + 1)" using Cons.prems(3) by simp_all
  obtain c where c: "argbuf_copyin buf uargv s = argbuf_copyin (copied_in buf x) (uargv + 4) (stored d c ?b s)"
    "arg_ready d ?b (copied_in buf x) (k - (length x + 1)) (stored d c ?b s)"
    using argbuf_copyin_turn [OF Cons.prems(2) p(1-3) k(1)] by blast
  have "user_args (vmem (stored d c ?b s)) (uargv + 4) xs" using p(4) by simp
  from Cons.IH [OF this c(2) k(2)] obtain c' where c': "length c' = 4" "argbuf_copyin (copied_in buf x) (uargv + 4) (stored d c ?b s) =
      Done (None, (copied_in buf x)\<lparr>ab_len := ab_len (copied_in buf x) + of_nat (length (packed xs)),
        ab_nargs := ab_nargs (copied_in buf x) + int (length xs)\<rparr>,
        stored d c' (overlay ?b (unat (ab_len (copied_in buf x))) (packed xs)) (stored d c ?b s))" by blast
  have r: "?l + k = length b" using Cons.prems(2) by (simp add: arg_ready_def)
  have "unat (ab_len (copied_in buf x)) = ?l + (length x + 1)"
    using c(2) Cons.prems(2) k(1) by (auto simp: arg_ready_def copied_in_def)
  then have "overlay ?b (unat (ab_len (copied_in buf x))) (packed xs) = overlay b ?l (packed (x # xs))"
    using overlay_overlay [of ?l "x @ [0]" b "packed xs"] r k(1) by simp
  then show ?case unfolding c(1) c'(2) using c'(1)
    by (intro exI [of _ c']) (simp add: copied_in_def algebra_simps)
qed

text \<open>The other vectors: the loop stops in the middle.  \<open>fills k xs\<close> says that the first strings
  take exactly \<open>k\<close> bytes and another one follows.\<close>

fun fills :: "nat \<Rightarrow> u8 list list \<Rightarrow> bool" where
  "fills k [] \<longleftrightarrow> False"
| "fills k (x # xs) \<longleftrightarrow> k = 0 \<or> length x + 1 \<le> k \<and> fills (k - (length x + 1)) xs"

lemma copyinstr_no_room: "p \<noteq> 0 \<Longrightarrow> copyinstr p dest 0 s = Done (Inl EFAULT, s)"
proof -
  assume "p \<noteq> 0"
  then have "unat (p - 1) < unat p" by (simp add: unat_minus_one unat_gt_0)
  then show ?thesis by (simp add: copyinstr_def copycheck_def Let_def word_less_nat_alt)
qed

lemma copyinstr_too_long:
  assumes "user_str (vmem s) p x" "kobj s ob = Some b" "j + unat len \<le> length b" "\<not> tm_badfaultfunc s"
    "0 < unat len" "unat len \<le> length x"
  shows "\<exists>b'. length b' = length b \<and> copyinstr p (KPtr ob j) len s =
    Done (Inl ENAMETOOLONG, s\<lparr>kobj := (kobj s)(ob \<mapsto> b')\<rparr>)"
proof -
  have x: "0 \<notin> set x" "unat p + length x + 1 \<le> 2 ^ 31" "user_prefix (vmem s) p (length x + 1) = x @ [0]"
    using assms(1) by (auto simp: user_str_def)
  have m: "min (unat len) (2 ^ 31 - unat p) = unat len" using x(2) assms(6) by simp
  let ?q = "user_prefix (vmem s) p (unat len)"
  have "length x + 1 = unat len + (length x + 1 - unat len)" using assms(6) by simp
  then have "x @ [0] = (if length ?q = unat len
      then ?q @ user_prefix (vmem s) (p + of_nat (unat len)) (length x + 1 - unat len) else ?q)"
    using x(3) user_prefix_append [of "vmem s" p "unat len" "length x + 1 - unat len"] unfolding Let_def by metis
  moreover have "length ?q \<le> unat len" by (rule length_user_prefix)
  ultimately have q: "length ?q = unat len" "take (unat len) (x @ [0]) = ?q"
    using assms(6) by (auto split: if_splits dest: arg_cong [of _ _ length])
  then have "?q = take (unat len) x" using assms(6) by simp
  then have "0 \<notin> set ?q" using x(1) by (metis in_set_takeD)
  moreover have "\<not> (2 ^ 32 < unat p + unat len \<or> 2 ^ 31 \<le> unat p)" using x(2) assms(6) by auto
  ultimately show ?thesis using copyinstr_spec [OF assms(2-5), of p] q(1) length_upto_nul [of ?q] assms(3)
    unfolding Let_def m by (intro exI [of _ "overlay b j (upto_nul ?q)"]) simp
qed

lemma argbuf_copyin_over:
  assumes "user_args (vmem s) uargv xs" "arg_ready d b buf k s" "k < length (packed xs)"
  shows "\<exists>c b' n a. length c = 4 \<and> length b' = length b \<and> argbuf_copyin buf uargv s =
    Done (Some (if fills k xs then EFAULT else E2BIG), buf\<lparr>ab_len := n, ab_nargs := a\<rparr>, stored d c b' s)"
  using assms
proof (induction xs arbitrary: uargv buf s b k)
  case (Cons x xs)
  let ?l = "unat (ab_len buf)" and ?b = "overlay b (unat (ab_len buf)) (x @ [0])"
  obtain p where p: "user_word (vmem s) uargv = Some p" "p \<noteq> 0" "user_str (vmem s) p x"
    "user_args (vmem s) (uargv + 4) xs" using Cons.prems(1) by (auto split: option.splits)
  note r = Cons.prems(2) [unfolded arg_ready_def] and room = arg_ready_room [OF Cons.prems(2)]
  note head = argbuf_copyin_head [OF Cons.prems(2) p(1)]
  let ?c = "user_prefix (vmem s) uargv 4"
  consider "k = 0" | "0 < k" "k \<le> length x" | "length x < k" by linarith
  then show ?case
  proof cases
    case 1
    then have "ab_max buf - ab_len buf = 0" using room by (simp add: unat_eq_zero)
    then have "argbuf_copyin buf uargv s = Done (Some EFAULT, buf, stored d ?c b s)"
      using head p(2) by (simp add: copyinstr_no_room)
    then show ?thesis using 1 head
      by (intro exI [of _ ?c] exI [of _ b] exI [of _ "ab_len buf"] exI [of _ "ab_nargs buf"]) simp
  next
    case 2
    have "\<exists>b'. length b' = length b \<and> copyinstr p (KPtr (Suc d) ?l) (ab_max buf - ab_len buf) (stored d ?c b s) =
        Done (Inl ENAMETOOLONG, (stored d ?c b s)\<lparr>kobj := (kobj (stored d ?c b s))(Suc d \<mapsto> b')\<rparr>)"
      using r room p(3) 2 by (intro copyinstr_too_long) simp_all
    then obtain b' where "length b' = length b" "argbuf_copyin buf uargv s = Done (Some E2BIG, buf, stored d ?c b' s)"
      using head p(2) unfolding stored_obj by auto
    then show ?thesis using 2 head
      by (intro exI [of _ ?c] exI [of _ b'] exI [of _ "ab_len buf"] exI [of _ "ab_nargs buf"]) simp
  next
    case 3
    obtain c where c: "argbuf_copyin buf uargv s = argbuf_copyin (copied_in buf x) (uargv + 4) (stored d c ?b s)"
      "arg_ready d ?b (copied_in buf x) (k - (length x + 1)) (stored d c ?b s)"
      using argbuf_copyin_turn [OF Cons.prems(2) p(1-3) 3] by blast
    have h: "user_args (vmem (stored d c ?b s)) (uargv + 4) xs" "k - (length x + 1) < length (packed xs)"
      using p(4) 3 Cons.prems(3) by auto
    have "length ?b = length b" using r 3 by simp
    then show ?thesis using Cons.IH [OF h(1) c(2) h(2)] 3 unfolding c(1) by (auto simp: copied_in_def)
  qed
qed simp

section \<open>Laying the vector out on a stack\<close>

lemma copystr_loop_out:
  assumes "kobj s ob = Some b" "take (length y + 1) (drop (j + i) b) = y @ [0]" "0 \<notin> set y" "tm_badfaultfunc s"
    "i + length y + 1 \<le> maxlen" "i + length y + 1 \<le> stoplen" "unat a + i + length y + 1 \<le> 2 ^ 31"
    "length (user_prefix (vmem s) (a + of_nat i) (length y + 1)) = length y + 1"
  shows "copystr_loop (UPtr a) (KPtr ob j) maxlen stoplen i s =
    Done (StrReturn (Inr (i + length y + 1)), s\<lparr>vmem := write_user (vmem s) (a + of_nat i) (y @ [0])\<rparr>)"
  using assms
proof (induction y arbitrary: i s)
  case Nil
  have l: "j + i < length b" using Nil.prems(2) by (cases "j + i < length b") auto
  then have "b ! (j + i) = 0" using Nil.prems(2) by (simp add: take_Suc hd_drop_conv_nth)
  moreover obtain v where "vmem s (a + of_nat i) = Some v" using Nil.prems(8) by (auto split: option.splits)
  ultimately show ?case using Nil.prems l by (subst copystr_loop.simps) simp
next
  case (Cons x y)
  have l: "j + i < length b" using Cons.prems(2) by (cases "j + i < length b") auto
  have d: "drop (j + i) b = b ! (j + i) # drop (j + (i + 1)) b" using l by (simp add: Cons_nth_drop_Suc)
  have x: "b ! (j + i) = x" "x \<noteq> 0" "take (length y + 1) (drop (j + (i + 1)) b) = y @ [0]"
    using Cons.prems(2,3) unfolding d by auto
  obtain v where v: "vmem s (a + of_nat i) = Some v" using Cons.prems(8) by (auto split: option.splits)
  let ?s = "s\<lparr>vmem := (vmem s)(a + of_nat i \<mapsto> x)\<rparr>"
  have ui: "unat (a + of_nat i) = unat a + i" "unat (a + of_nat (i + 1)) = unat a + (i + 1)"
    using Cons.prems(7) by (intro unat_add_nat; simp)+
  have nx: "a + of_nat (i + 1) = a + of_nat i + 1" by simp
  have "length (user_prefix (vmem ?s) (a + of_nat (i + 1)) (length y + 1)) =
      length (user_prefix (vmem s) (a + of_nat (i + 1)) (length y + 1))"
    using v by (intro user_prefix_dom) auto
  also have "\<dots> = length y + 1" using Cons.prems(8) v unfolding nx by simp
  finally have "copystr_loop (UPtr a) (KPtr ob j) maxlen stoplen (i + 1) ?s =
      Done (StrReturn (Inr ((i + 1) + length y + 1)), ?s\<lparr>vmem := write_user (vmem ?s) (a + of_nat (i + 1)) (y @ [0])\<rparr>)"
    using Cons.prems x by (intro Cons.IH) simp_all
  then show ?case using Cons.prems l x v by (subst copystr_loop.simps) (simp add: ac_simps)
qed

lemma copyoutstr_spec:
  assumes "kobj s ob = Some b" "take (length y + 1) (drop j b) = y @ [0]" "0 \<notin> set y" "\<not> tm_badfaultfunc s"
    "length y < unat len" "unat len \<le> 2 ^ 31" "unat a + length y + 1 \<le> 2 ^ 31"
    "length (user_prefix (vmem s) a (length y + 1)) = length y + 1"
  shows "copyoutstr (KPtr ob j) a len s =
    Done (Inr (length y + 1), s\<lparr>vmem := write_user (vmem s) a (y @ [0])\<rparr>)"
proof -
  define stop where "stop = (if 2 ^ 31 < unat a + unat len then USERSPACETOP - a else len)"
  have c: "copycheck a len = (None, stop)"
    using assms(5-7) by (simp add: copycheck_nonzero stop_def)
  have "length y + 1 \<le> unat stop" using assms(5,7) by (auto simp: stop_def USERSPACETOP_minus)
  then have "copystr (UPtr a) (KPtr ob j) len stop (s\<lparr>tm_badfaultfunc := True\<rparr>) =
      Done (StrReturn (Inr (length y + 1)), s\<lparr>tm_badfaultfunc := True, vmem := write_user (vmem s) a (y @ [0])\<rparr>)"
    using assms copystr_loop_out [of "s\<lparr>tm_badfaultfunc := True\<rparr>" ob b y j 0 "unat len" "unat stop" a]
    by (simp add: copystr_def)
  moreover have "s\<lparr>vmem := v, tm_badfaultfunc := False\<rparr> = s\<lparr>vmem := v\<rparr>" for v using assms(4) by simp
  ultimately show ?thesis using c by (simp add: copyoutstr_def str_result_def)
qed

lemma copyout_cell:
  assumes "\<not> tm_badfaultfunc s" "user_range a 4" "length (user_prefix (vmem s) a 4) = 4"
  shows "copyout (KPtr thisarg_cell 0) a 4 (write_cell w s) =
    Done (None, s\<lparr>kobj := (kobj s)(thisarg_cell \<mapsto> be_bytes w), vmem := write_user (vmem s) a (be_bytes w)\<rparr>)"
proof -
  have u: "unat (4 :: u32) = 4" by simp
  have k: "kobj (write_cell w s) thisarg_cell = Some (be_bytes w)" "\<not> tm_badfaultfunc (write_cell w s)"
    using assms(1) by (simp_all add: write_cell_def)
  show ?thesis using copyout_spec [OF k(1) _ k(2), of 0 4 a] assms(2,3) unfolding u
    by (simp add: write_cell_def del: user_prefix_numeral)
qed

lemma user_word_write:
  assumes "user_range a 4" "length (user_prefix m a 4) = 4"
  shows "user_word (write_user m a (be_bytes w)) a = Some w"
proof -
  have "unat a \<le> 2 ^ 32 - 4" using assms(1) by (simp add: user_range_def)
  then have "user_prefix (write_user m a (be_bytes w)) a 4 = be_bytes w"
    using write_user_read [of m a "be_bytes w"] assms(2) by (simp del: user_prefix_numeral)
  then show ?thesis using assms(1) by (simp add: user_word_def Let_def del: user_prefix_numeral)
qed

lemma user_word_cong:
  "(\<And>y. unat a \<le> unat y \<Longrightarrow> unat y < unat a + 4 \<Longrightarrow> m y = m' y) \<Longrightarrow> user_word m a = user_word m' a"
  using user_prefix_cong [of a 4 m m']
  by (cases "user_range a 4") (auto simp: user_word_def Let_def user_range_def simp del: user_prefix_numeral)

lemma user_str_cong:
  "(\<And>y. unat p \<le> unat y \<Longrightarrow> unat y < unat p + length x + 1 \<Longrightarrow> m y = m' y) \<Longrightarrow> user_str m p x = user_str m' p x"
  using user_prefix_cong [of p "length x + 1" m m']
  by (cases "unat p + length x + 1 \<le> 2 ^ 31") (auto simp: user_str_def)

text \<open>The pointers at \<open>u\<close> lead to the strings, which lie back to back from \<open>p\<close> on.\<close>

fun laid :: "(u32 \<rightharpoonup> u8) \<Rightarrow> u32 \<Rightarrow> u32 \<Rightarrow> u8 list list \<Rightarrow> bool" where
  "laid m u p [] \<longleftrightarrow> True"
| "laid m u p (x # xs) \<longleftrightarrow>
     user_word m u = Some p \<and> user_str m p x \<and> laid m (u + 4) (p + of_nat (length x + 1)) xs"

definition mapped :: "(u32 \<rightharpoonup> u8) \<Rightarrow> nat \<Rightarrow> nat \<Rightarrow> bool" where
  "mapped m a b \<longleftrightarrow> (\<forall>y. a \<le> unat y \<longrightarrow> unat y < b \<longrightarrow> m y \<noteq> None)"

lemma mapped_prefix:
  "mapped m a b \<Longrightarrow> a \<le> unat x \<Longrightarrow> unat x + n \<le> b \<Longrightarrow> b \<le> 2 ^ 31 \<Longrightarrow> length (user_prefix m x n) = n"
  by (intro user_prefix_full) (auto simp: mapped_def)

lemma mapped_dom: "dom m = dom m' \<Longrightarrow> mapped m a b = mapped m' a b"
  unfolding mapped_def by (metis domIff)

text \<open>One turn: the pointer and the string it points to.\<close>

lemma copyout_turn:
  assumes "kobj s (Suc d) = Some b" "ab_data buf = Some d" "take (length x + 1) (drop (unat pos) b) = x @ [0]" "0 \<notin> set x"
    "\<not> tm_badfaultfunc s" "unat pos + length x + 1 \<le> unat (ab_len buf)" "unat (ab_len buf) \<le> 2 ^ 31"
    "unat u + 4 \<le> unat base" "unat base + unat (ab_len buf) \<le> 2 ^ 31"
    "mapped (vmem s) (unat u) (unat base + unat (ab_len buf))"
  shows "\<exists>m c. length c = 4 \<and> copyout_loop buf base pos u s =
      copyout_loop buf base (pos + of_nat (length x + 1)) (u + 4) (s\<lparr>kobj := (kobj s)(thisarg_cell \<mapsto> c), vmem := m\<rparr>) \<and>
    dom m = dom (vmem s) \<and> user_word m u = Some (base + pos) \<and> user_str m (base + pos) x \<and>
    (\<forall>y. \<not> (unat u \<le> unat y \<and> unat y < unat u + 4) \<longrightarrow>
         \<not> (unat base + unat pos \<le> unat y \<and> unat y < unat base + unat pos + length x + 1) \<longrightarrow> m y = vmem s y)"
proof -
  let ?a = "base + pos"
  have ua: "unat ?a = unat base + unat pos" using assms(6,9) by (simp add: unat_word_ariths)
  have r: "user_range u 4" using assms(8,9) by (simp add: user_range_def)
  have pu: "length (user_prefix (vmem s) u 4) = 4"
    using assms(8,9) by (intro mapped_prefix [OF assms(10)]) auto
  define m1 where "m1 = write_user (vmem s) u (be_bytes ?a)"
  define s1 where "s1 = s\<lparr>kobj := (kobj s)(thisarg_cell \<mapsto> be_bytes ?a), vmem := m1\<rparr>"
  define m2 where "m2 = write_user m1 ?a (x @ [0])"
  have d1: "dom m1 = dom (vmem s)" by (simp add: m1_def write_user_dom)
  then have "mapped m1 (unat u) (unat base + unat (ab_len buf))" using assms(10) mapped_dom by blast
  then have pa: "length (user_prefix m1 ?a (length x + 1)) = length x + 1"
    using assms(6,8,9) ua by (intro mapped_prefix) auto
  have lt: "pos < ab_len buf" using assms(6) by (simp add: word_less_nat_alt)
  then have sub: "unat (ab_len buf - pos) = unat (ab_len buf) - unat pos" by (simp add: unat_sub)
  have str: "copyoutstr (KPtr (Suc d) (unat pos)) ?a (ab_len buf - pos) s1 = Done (Inr (length x + 1), s1\<lparr>vmem := m2\<rparr>)"
    unfolding m2_def using assms sub ua pa copyoutstr_spec [of s1 "Suc d" b x "unat pos" "ab_len buf - pos" ?a]
    by (simp add: s1_def thisarg_cell_def)
  have step: "copyout_loop buf base pos u s = copyout_loop buf base (pos + of_nat (length x + 1)) (u + 4) (s1\<lparr>vmem := m2\<rparr>)"
    using lt copyout_cell [OF assms(5) r pu, of ?a] str assms(2)
    by (subst copyout_loop.simps) (simp add: Let_def s1_def m1_def)
  have f1: "m1 y = vmem s y" if "\<not> (unat u \<le> unat y \<and> unat y < unat u + 4)" for y
    unfolding m1_def using that r by (intro write_user_other) (auto simp: user_range_def)
  have f2: "m2 y = m1 y" if "\<not> (unat base + unat pos \<le> unat y \<and> unat y < unat base + unat pos + length x + 1)" for y
    unfolding m2_def using that ua assms(6,9) by (intro write_user_other) auto
  have "user_word m2 u = user_word m1 u" using assms(8) by (intro user_word_cong f2) auto
  then have w: "user_word m2 u = Some ?a" using user_word_write [OF r pu] by (simp add: m1_def)
  have "user_prefix m2 ?a (length (x @ [0])) = x @ [0]"
    unfolding m2_def using pa ua assms(6,9) by (intro write_user_read) auto
  then have "user_str m2 ?a x" using assms(4,6,9) ua by (simp add: user_str_def)
  moreover have "dom m2 = dom (vmem s)" using d1 by (simp add: m2_def write_user_dom)
  ultimately show ?thesis using step w f1 f2
    by (intro exI [of _ m2] exI [of _ "be_bytes ?a"]) (simp add: s1_def)
qed

lemma laid_cong:
  assumes "laid m u p xs" "unat u + 4 * length xs < 2 ^ 32" "unat p + length (packed xs) < 2 ^ 32"
    "\<And>y. unat u \<le> unat y \<and> unat y < unat u + 4 * length xs \<or>
          unat p \<le> unat y \<and> unat y < unat p + length (packed xs) \<Longrightarrow> m y = m' y"
  shows "laid m' u p xs"
  using assms
proof (induction xs arbitrary: u p)
  case (Cons x xs)
  have u4: "unat (u + 4) = unat u + 4" using Cons.prems(2) unat_add_nat [of u 4] by simp
  have p1: "unat (p + of_nat (length x + 1)) = unat p + (length x + 1)"
    using Cons.prems(3) by (intro unat_add_nat) simp
  have "user_word m' u = user_word m u" using Cons.prems(4) by (intro user_word_cong) auto
  moreover have "user_str m' p x = user_str m p x" using Cons.prems(4) by (intro user_str_cong) auto
  moreover have "laid m' (u + 4) (p + of_nat (length x + 1)) xs"
    using Cons.prems u4 p1 by (intro Cons.IH) auto
  ultimately show ?case using Cons.prems(1) by simp
qed simp

text \<open>What a run of the loop leaves of the state.\<close>

definition only_args :: "memory \<Rightarrow> memory \<Rightarrow> (u32 \<Rightarrow> bool) \<Rightarrow> bool" where
  "only_args s s' R \<longleftrightarrow> tm_badfaultfunc s' = tm_badfaultfunc s \<and> (\<forall>ob. ob \<noteq> thisarg_cell \<longrightarrow> kobj s' ob = kobj s ob) \<and>
     dom (vmem s') = dom (vmem s) \<and> (\<forall>y. \<not> R y \<longrightarrow> vmem s' y = vmem s y)"

lemma only_args_trans:
  assumes "only_args s s1 R" "only_args s1 s2 R'" "\<And>y. R y \<Longrightarrow> Q y" "\<And>y. R' y \<Longrightarrow> Q y"
  shows "only_args s s2 Q"
proof -
  have "vmem s2 y = vmem s y" if "\<not> Q y" for y
  proof -
    have "\<not> R y" "\<not> R' y" using assms(3,4) that by blast+
    then show ?thesis using assms(1,2) by (simp add: only_args_def)
  qed
  then show ?thesis using assms(1,2) by (simp add: only_args_def)
qed

lemma copyout_loop_spec:
  assumes "kobj s (Suc d) = Some b" "ab_data buf = Some d" "take (length (packed xs)) (drop (unat pos) b) = packed xs"
    "list_all (\<lambda>x. 0 \<notin> set x) xs" "\<not> tm_badfaultfunc s" "unat pos + length (packed xs) = unat (ab_len buf)"
    "unat u + 4 * length xs \<le> unat base" "unat base + unat (ab_len buf) \<le> 2 ^ 31"
    "mapped (vmem s) (unat u) (unat base + unat (ab_len buf))"
  shows "\<exists>s'. copyout_loop buf base pos u s = Done (None, ab_len buf, u + of_nat (4 * length xs), s') \<and>
    laid (vmem s') u (base + pos) xs \<and>
    only_args s s' (\<lambda>y. unat u \<le> unat y \<and> unat y < unat u + 4 * length xs \<or>
                        unat base + unat pos \<le> unat y \<and> unat y < unat base + unat (ab_len buf))"
  using assms
proof (induction xs arbitrary: pos u s)
  case Nil
  then have "pos = ab_len buf" by (simp add: word_unat_eq_iff)
  then show ?case by (subst copyout_loop.simps) (simp add: only_args_def)
next
  case (Cons x xs)
  have tk: "take (length x + 1) (drop (unat pos) b) = x @ [0]"
    "take (length (packed xs)) (drop (unat pos + (length x + 1)) b) = packed xs"
  proof -
    have "take (length x + 1) (take (length (packed (x # xs))) (drop (unat pos) b)) = x @ [0]"
      unfolding Cons.prems(3) by simp
    then show "take (length x + 1) (drop (unat pos) b) = x @ [0]" by (simp add: min_def split: if_splits)
    have "drop (length x + 1) (take (length (packed (x # xs))) (drop (unat pos) b)) = packed xs"
      unfolding Cons.prems(3) by simp
    then show "take (length (packed xs)) (drop (unat pos + (length x + 1)) b) = packed xs"
      by (simp add: drop_take ac_simps)
  qed
  have z: "0 \<notin> set x" "unat pos + length x + 1 \<le> unat (ab_len buf)" "unat (ab_len buf) \<le> 2 ^ 31"
    "unat u + 4 \<le> unat base" using Cons.prems(4,6-8) by simp_all
  note turn = copyout_turn [OF Cons.prems(1,2) tk(1) z(1) Cons.prems(5) z(2-4) Cons.prems(8,9)]
  obtain m c where t: "length c = 4" "copyout_loop buf base pos u s = copyout_loop buf base (pos + of_nat (length x + 1)) (u + 4)
        (s\<lparr>kobj := (kobj s)(thisarg_cell \<mapsto> c), vmem := m\<rparr>)"
    "dom m = dom (vmem s)" "user_word m u = Some (base + pos)" "user_str m (base + pos) x"
    "\<And>y. \<not> (unat u \<le> unat y \<and> unat y < unat u + 4) \<Longrightarrow>
         \<not> (unat base + unat pos \<le> unat y \<and> unat y < unat base + unat pos + length x + 1) \<Longrightarrow> m y = vmem s y"
    using turn by blast
  let ?s = "s\<lparr>kobj := (kobj s)(thisarg_cell \<mapsto> c), vmem := m\<rparr>"
  let ?pos = "pos + of_nat (length x + 1)"
  have up: "unat ?pos = unat pos + (length x + 1)" using Cons.prems(6,8) by (intro unat_add_nat) simp
  have uu: "unat (u + 4) = unat u + 4" using Cons.prems(7,8) unat_add_nat [of u 4] by simp
  have mp: "mapped m (unat (u + 4)) (unat base + unat (ab_len buf))"
    using Cons.prems(9) t(3) uu unfolding mapped_dom [OF t(3)] by (auto simp: mapped_def)
  have h: "kobj ?s (Suc d) = Some b" "take (length (packed xs)) (drop (unat ?pos) b) = packed xs"
    "list_all (\<lambda>x. 0 \<notin> set x) xs" "\<not> tm_badfaultfunc ?s" "unat ?pos + length (packed xs) = unat (ab_len buf)"
    "unat (u + 4) + 4 * length xs \<le> unat base" "mapped (vmem ?s) (unat (u + 4)) (unat base + unat (ab_len buf))"
    using Cons.prems(1,4,5,6,7) up uu mp tk(2) by (simp_all add: thisarg_cell_def)
  note ih = Cons.IH [OF h(1) Cons.prems(2) h(2-6) Cons.prems(8) h(7)]
  obtain s' where s': "copyout_loop buf base ?pos (u + 4) ?s = Done (None, ab_len buf, u + 4 + of_nat (4 * length xs), s')"
    "laid (vmem s') (u + 4) (base + ?pos) xs"
    "only_args ?s s' (\<lambda>y. unat (u + 4) \<le> unat y \<and> unat y < unat (u + 4) + 4 * length xs \<or>
                        unat base + unat ?pos \<le> unat y \<and> unat y < unat base + unat (ab_len buf))"
    using ih by blast
  have ua: "unat (base + pos) = unat base + unat pos" using Cons.prems(6,8) by (simp add: unat_word_ariths)
  have fr: "vmem s' y = m y" if "\<not> (unat (u + 4) \<le> unat y \<and> unat y < unat (u + 4) + 4 * length xs)"
    "\<not> (unat base + unat ?pos \<le> unat y \<and> unat y < unat base + unat (ab_len buf))" for y
    using s'(3) that by (auto simp: only_args_def)
  have "user_word (vmem s') u = user_word m u" using uu up Cons.prems(7) by (intro user_word_cong fr) auto
  moreover have "user_str (vmem s') (base + pos) x = user_str m (base + pos) x"
    using uu up ua Cons.prems(7) by (intro user_str_cong fr) auto
  ultimately have "laid (vmem s') u (base + pos) (x # xs)" using t(4,5) s'(2) by (simp add: algebra_simps)
  moreover have only: "only_args s ?s (\<lambda>y. unat u \<le> unat y \<and> unat y < unat u + 4 \<or>
      unat base + unat pos \<le> unat y \<and> unat y < unat base + unat pos + length x + 1)"
    using t(3,6) by (auto simp: only_args_def)
  have "only_args s s' (\<lambda>y. unat u \<le> unat y \<and> unat y < unat u + 4 * length (x # xs) \<or>
      unat base + unat pos \<le> unat y \<and> unat y < unat base + unat (ab_len buf))"
    using up uu Cons.prems(6) by (intro only_args_trans [OF only s'(3)]) auto
  ultimately show ?case using t(2) s'(1) by (intro exI [of _ s']) (simp add: algebra_simps)
qed

lemma align_down:
  fixes x :: u32
  shows "unat (x - (x AND (4 - 1))) = unat x - unat x mod 4"
proof -
  have "x AND (4 - 1) = take_bit 2 x" by (simp add: take_bit_eq_mask mask_eq_exp_minus_1)
  then have m: "unat (x AND (4 - 1)) = unat x mod 4"
    by (simp only: unsigned_take_bit_eq) (simp add: take_bit_eq_mod)
  then have "x AND (4 - 1) \<le> x" by (simp add: word_le_nat_alt)
  then show ?thesis using m by (simp only: unat_sub)
qed

lemma laid_user_args:
  "laid m u p xs \<Longrightarrow> user_word m (u + of_nat (4 * length xs)) = Some 0 \<Longrightarrow> unat p \<noteq> 0 \<Longrightarrow>
   unat p + length (packed xs) < 2 ^ 32 \<Longrightarrow> user_args m u xs"
proof (induction xs arbitrary: u p)
  case (Cons x xs)
  have p1: "unat (p + of_nat (length x + 1)) = unat p + (length x + 1)"
    using Cons.prems(4) by (intro unat_add_nat) simp
  have "u + 4 + of_nat (4 * length xs) = u + of_nat (4 * length (x # xs))" by (simp add: algebra_simps)
  then have "user_word m (u + 4 + of_nat (4 * length xs)) = Some 0" using Cons.prems(2) by (simp only:)
  then have "user_args m (u + 4) xs"
    using Cons.prems p1 by (intro Cons.IH [of _ "p + of_nat (length x + 1)"]) simp_all
  moreover have "p \<noteq> 0" using Cons.prems(3) by auto
  ultimately show ?case using Cons.prems(1) by simp
qed simp

text \<open>The space a vector takes on the stack, with its padding at most three bytes.\<close>

definition args_space :: "u8 list list \<Rightarrow> nat" where
  "args_space xs = length (packed xs) + 4 * (length xs + 1) + 3"

lemma copyout_layout:
  fixes sp len :: u32 and n :: nat
  defines "base \<equiv> (sp - len) - ((sp - len) AND (4 - 1))"
  defines "u \<equiv> base - of_int (int n + 1) * 4"
  assumes "unat len + 4 * (n + 1) + 3 < unat sp"
  shows "unat u + 4 * (n + 1) = unat base" "unat base + unat len \<le> unat sp" "unat u mod 4 = 0"
    "unat sp \<le> unat u + (unat len + 4 * (n + 1) + 3)"
proof -
  let ?x = "sp - len"
  have "len \<le> sp" using assms(3) by (simp add: word_le_nat_alt)
  then have x: "unat ?x = unat sp - unat len" by (simp add: unat_sub)
  have base: "unat base = unat ?x - unat ?x mod 4" unfolding base_def by (rule align_down)
  have pad: "unat ?x mod 4 < 4" by simp
  have nb: "4 * (n + 1) \<le> unat base" using base x pad assms(3) by linarith
  have "u = base - of_nat (4 * (n + 1))" by (simp add: u_def)
  then have u: "unat u = unat base - 4 * (n + 1)" using nb by (simp only: unat_minus_of_nat)
  show "unat u + 4 * (n + 1) = unat base" "unat base + unat len \<le> unat sp"
    "unat sp \<le> unat u + (unat len + 4 * (n + 1) + 3)" using u nb base x pad assms(3) by linarith+
  have "unat base mod 4 = 0" unfolding base by (simp add: minus_mod_eq_mult_div)
  then show "unat u mod 4 = 0" unfolding u using nb by presburger
qed

lemma copyout_null:
  assumes "\<not> tm_badfaultfunc s" "laid (vmem s) u base xs" "unat u + 4 * (length xs + 1) = unat base"
    "unat base + length (packed xs) \<le> 2 ^ 31" "mapped (vmem s) (unat u) (unat base)" "unat base \<noteq> 0"
  shows "\<exists>s'. copyout (KPtr thisarg_cell 0) (u + of_nat (4 * length xs)) 4 (write_cell 0 s) = Done (None, s') \<and>
    user_args (vmem s') u xs \<and> only_args s s' (\<lambda>y. unat u \<le> unat y \<and> unat y < unat base)"
proof -
  let ?e = "u + of_nat (4 * length xs)"
  have cap: "unat base + length (packed xs) < 2 ^ 32" "unat u + 4 * length xs < 2 ^ 32"
    using assms(3,4) by auto
  have ue: "unat ?e = unat u + 4 * length xs" using cap(2) by (rule unat_add_nat)
  have re: "user_range ?e 4" using ue assms(3,4) by (simp add: user_range_def)
  have le: "length (user_prefix (vmem s) ?e 4) = 4"
    using ue assms(3,4) by (intro mapped_prefix [OF assms(5)]) auto
  define m2 where "m2 = write_user (vmem s) ?e (be_bytes 0)"
  have f2: "m2 y = vmem s y" if "\<not> (unat ?e \<le> unat y \<and> unat y < unat ?e + 4)" for y
    unfolding m2_def using that re by (intro write_user_other) (auto simp: user_range_def)
  have "laid m2 u base xs"
    using ue assms(3) cap by (intro laid_cong [OF assms(2)] f2 [symmetric]) auto
  moreover have "user_word m2 ?e = Some 0" unfolding m2_def by (rule user_word_write [OF re le])
  ultimately have "user_args m2 u xs" using assms(6) cap(1) by (intro laid_user_args [of _ _ base])
  moreover have "m2 y = vmem s y" if "\<not> (unat u \<le> unat y \<and> unat y < unat base)" for y
    using that ue assms(3) by (intro f2) auto
  ultimately show ?thesis using copyout_cell [OF assms(1) re le, of 0]
    by (auto simp: only_args_def m2_def write_user_dom)
qed

lemma argbuf_copyout_spec:
  assumes "kobj s (Suc d) = Some b" "ab_data buf = Some d" "take (length (packed xs)) b = packed xs"
    "list_all (\<lambda>x. 0 \<notin> set x) xs" "\<not> tm_badfaultfunc s" "unat (ab_len buf) = length (packed xs)"
    "ab_nargs buf = int (length xs)" "args_space xs < unat sp" "unat sp \<le> 2 ^ 31"
    "mapped (vmem s) (unat sp - args_space xs) (unat sp)"
  shows "\<exists>u s'. argbuf_copyout buf sp s = Done (Inr (u, int (length xs), u), s') \<and> user_args (vmem s') u xs \<and>
    unat u mod 4 = 0 \<and> unat sp - args_space xs \<le> unat u \<and> unat u \<le> unat sp \<and>
    only_args s s' (\<lambda>y. unat u \<le> unat y \<and> unat y < unat sp)"
proof -
  let ?n = "length xs"
  define base where "base = (sp - ab_len buf) - ((sp - ab_len buf) AND (4 - 1))"
  define u where "u = base - of_int (int ?n + 1) * 4"
  have "unat (ab_len buf) + 4 * (?n + 1) + 3 < unat sp" using assms(6,8) by (simp add: args_space_def)
  note lay = copyout_layout [OF this, folded base_def, folded u_def]
  have low: "unat sp - args_space xs \<le> unat u" using lay(4) assms(6) by (simp add: args_space_def)
  have mp: "mapped (vmem s) (unat u) (unat base + unat (ab_len buf))"
    using assms(10) low lay(2) by (auto simp: mapped_def)
  have "\<exists>s1. copyout_loop buf base 0 u s = Done (None, ab_len buf, u + of_nat (4 * ?n), s1) \<and>
    laid (vmem s1) u (base + 0) xs \<and>
    only_args s s1 (\<lambda>y. unat u \<le> unat y \<and> unat y < unat u + 4 * ?n \<or>
                        unat base + unat (0 :: u32) \<le> unat y \<and> unat y < unat base + unat (ab_len buf))"
    using assms lay(1,2) mp by (intro copyout_loop_spec) simp_all
  then obtain s1 where s1: "copyout_loop buf base 0 u s = Done (None, ab_len buf, u + of_nat (4 * ?n), s1)"
    "laid (vmem s1) u base xs"
    "only_args s s1 (\<lambda>y. unat u \<le> unat y \<and> unat y < unat u + 4 * ?n \<or>
                         unat base \<le> unat y \<and> unat y < unat base + unat (ab_len buf))" by auto
  have s1': "\<not> tm_badfaultfunc s1" "dom (vmem s1) = dom (vmem s)" using s1(3) assms(5) by (simp_all add: only_args_def)
  have "mapped (vmem s1) (unat u) (unat base)"
    using mp unfolding mapped_dom [OF s1'(2)] by (simp add: mapped_def)
  then obtain s2 where s2: "copyout (KPtr thisarg_cell 0) (u + of_nat (4 * ?n)) 4 (write_cell 0 s1) = Done (None, s2)"
    "user_args (vmem s2) u xs" "only_args s1 s2 (\<lambda>y. unat u \<le> unat y \<and> unat y < unat base)"
    using copyout_null [OF s1'(1) s1(2) lay(1)] lay(1,2) assms(6,9) by auto
  have "argbuf_copyout buf sp s = Done (Inr (u, int ?n, u), s2)"
    unfolding argbuf_copyout_def Let_def assms(7) base_def [symmetric] u_def [symmetric] s1(1) using s2(1) by simp
  moreover have "only_args s s2 (\<lambda>y. unat u \<le> unat y \<and> unat y < unat sp)"
    using lay(1,2) by (intro only_args_trans [OF s1(3) s2(3)]) auto
  ultimately show ?thesis using s2(2) low lay by (intro exI [of _ u] exI [of _ s2]) simp
qed

section \<open>The whole transfer\<close>

definition args_held :: "argbuf \<Rightarrow> memory \<Rightarrow> u8 list list \<Rightarrow> bool" where
  "args_held buf s xs \<longleftrightarrow>
     (\<exists>d b. ab_data buf = Some d \<and> kobj s (Suc d) = Some b \<and> take (length (packed xs)) b = packed xs) \<and>
     unat (ab_len buf) = length (packed xs) \<and> ab_nargs buf = int (length xs)"

definition cell_ok :: "memory \<Rightarrow> bool" where
  "cell_ok s \<longleftrightarrow> (\<exists>c. kobj s thisarg_cell = Some c \<and> length c = 4) \<and> \<not> tm_badfaultfunc s"

lemma cell_ok_stored: "length c = 4 \<Longrightarrow> \<not> tm_badfaultfunc s \<Longrightarrow> cell_ok (stored d c b s)"
  by (simp add: cell_ok_def)

lemma cell_ok_upd: "cell_ok s \<Longrightarrow> cell_ok (s\<lparr>kobj := (kobj s)(Suc n := v)\<rparr>)"
  by (simp add: cell_ok_def thisarg_cell_def)

lemma user_args_nonzero: "user_args m a xs \<Longrightarrow> list_all (\<lambda>x. 0 \<notin> set x) xs"
  by (induction xs arbitrary: a) (auto simp: user_str_def split: option.splits)

lemma argbuf_allocate_ready:
  assumes "argbuf_allocate (argbuf_init\<lparr>tooksem := q\<rparr>) sz st = (None, buf, st')" "cell_ok (em st)" "unat sz \<le> 2 ^ 31"
  shows "\<exists>d b. arg_ready d b buf (unat sz) (em st') \<and> ab_len buf = 0 \<and> ab_nargs buf = 0 \<and> tooksem buf = q \<and>
    vmem (em st') = vmem (em st) \<and> execthrottle st' = execthrottle st \<and> length b = unat sz \<and>
    eheap st' = snd (kmalloc (eheap st))"
proof -
  obtain n h where n: "kmalloc (eheap st) = (Some n, h)"
    using assms(1) by (auto simp: argbuf_allocate_def split: prod.splits option.splits)
  let ?b = "map (junk st n) [0..<unat sz]"
  have "buf = argbuf_init\<lparr>tooksem := q, ab_data := Some n, ab_max := sz\<rparr>"
    "st' = st\<lparr>eheap := h, em := (em st)\<lparr>kobj := (kobj (em st))(Suc n \<mapsto> ?b)\<rparr>\<rparr>"
    using assms(1) n by (auto simp: argbuf_allocate_def)
  then show ?thesis using assms(2,3) n
    by (intro exI [of _ n] exI [of _ ?b]) (simp add: arg_ready_def cell_ok_def argbuf_init_def thisarg_cell_def)
qed

lemma argbuf_copyin_fits:
  assumes "user_args (vmem s) uargv xs" "arg_ready d b buf k s" "length (packed xs) \<le> k" "ab_len buf = 0" "ab_nargs buf = 0"
  shows "\<exists>buf' s'. argbuf_copyin buf uargv s = Done (None, buf', s') \<and> args_held buf' s' xs \<and>
    tooksem buf' = tooksem buf \<and> cell_ok s' \<and> vmem s' = vmem s"
proof -
  let ?L = "length (packed xs)"
  obtain c where c: "length c = 4" "argbuf_copyin buf uargv s =
      Done (None, buf\<lparr>ab_len := of_nat ?L, ab_nargs := int (length xs)\<rparr>, stored d c (overlay b 0 (packed xs)) s)"
    using argbuf_copyin_spec [OF assms(1-3)] assms(4,5) by auto
  have r: "ab_data buf = Some d" "length b = k" "k \<le> 2 ^ 31" "\<not> tm_badfaultfunc s"
    using assms(2,4) by (auto simp: arg_ready_def)
  have "unat (of_nat ?L :: u32) = ?L" using r(3) assms(3) by (intro unat_of_nat_small) simp
  moreover have "take ?L (overlay b 0 (packed xs)) = packed xs"
    using overlay_read [of 0 "packed xs" b] r(2) assms(3) by simp
  ultimately show ?thesis using c r by (simp add: args_held_def cell_ok_stored)
qed

text \<open>Both attempts of \<^verbatim>\<open>argbuf_fromuser\<close>, for a vector that fits the page or the big buffer.\<close>

lemma argbuf_fromuser_page:
  assumes "user_args (vmem (em st)) uargv xs" "cell_ok (em st)" "kmalloc (eheap st) = (Some n, h)"
    "length (packed xs) \<le> 4096"
  shows "\<exists>buf st'. argbuf_fromuser me argbuf_init uargv st = Done (None, buf, st') \<and> args_held buf (em st') xs \<and>
    \<not> tooksem buf \<and> cell_ok (em st') \<and> execthrottle st' = execthrottle st"
proof -
  obtain buf st1 where a: "argbuf_allocate argbuf_init PAGE_SIZE st = (None, buf, st1)"
    using assms(3) by (simp add: argbuf_allocate_def)
  have "argbuf_init = argbuf_init\<lparr>tooksem := False\<rparr>" by (simp add: argbuf_init_def)
  moreover have pg: "unat PAGE_SIZE = 4096" by (simp add: PAGE_SIZE_def)
  ultimately obtain d b where r: "arg_ready d b buf 4096 (em st1)" "ab_len buf = 0" "ab_nargs buf = 0" "\<not> tooksem buf"
    "vmem (em st1) = vmem (em st)" "execthrottle st1 = execthrottle st"
    using argbuf_allocate_ready [of False PAGE_SIZE st buf st1] a assms(2) by auto
  have "user_args (vmem (em st1)) uargv xs" using assms(1) r(5) by simp
  from argbuf_copyin_fits [OF this r(1) assms(4) r(2,3)] obtain buf' s' where
    "argbuf_copyin buf uargv (em st1) = Done (None, buf', s')" "args_held buf' s' xs" "tooksem buf' = tooksem buf" "cell_ok s'"
    by blast
  then show ?thesis using a r(4,6) by (simp add: argbuf_fromuser_def Let_def)
qed

lemma argbuf_fromuser_over:
  assumes "user_args (vmem (em st)) uargv xs" "cell_ok (em st)" "kmalloc (eheap st) = (Some n, h)"
    "4096 < length (packed xs)"
  shows "\<exists>buf st1. argbuf_allocate argbuf_init PAGE_SIZE st = (None, buf, st1) \<and> execthrottle st1 = execthrottle st \<and>
    (\<exists>c b x y. length c = 4 \<and> \<not> tm_badfaultfunc (em st1) \<and> vmem (em st1) = vmem (em st) \<and>
      ab_data buf = Some n \<and> eheap st1 = h \<and> \<not> tooksem buf \<and>
      argbuf_copyin buf uargv (em st1) =
        Done (Some (if fills 4096 xs then EFAULT else E2BIG), buf\<lparr>ab_len := x, ab_nargs := y\<rparr>, stored n c b (em st1)))"
proof -
  obtain buf st1 where a: "argbuf_allocate argbuf_init PAGE_SIZE st = (None, buf, st1)"
    using assms(3) by (simp add: argbuf_allocate_def)
  have dn: "ab_data buf = Some n" using a assms(3) by (auto simp: argbuf_allocate_def)
  have "argbuf_init = argbuf_init\<lparr>tooksem := False\<rparr>" by (simp add: argbuf_init_def)
  moreover have pg: "unat PAGE_SIZE = 4096" by (simp add: PAGE_SIZE_def)
  ultimately obtain d b where r: "arg_ready d b buf 4096 (em st1)" "\<not> tooksem buf"
    "vmem (em st1) = vmem (em st)" "execthrottle st1 = execthrottle st" "eheap st1 = h"
    using argbuf_allocate_ready [of False PAGE_SIZE st buf st1] a assms(2,3) by auto
  have "user_args (vmem (em st1)) uargv xs" using assms(1) r(3) by simp
  note over = argbuf_copyin_over [OF this r(1) assms(4)]
  have "d = n" "\<not> tm_badfaultfunc (em st1)" using r(1) dn by (simp_all add: arg_ready_def)
  then show ?thesis using a dn r over by blast
qed

lemma kmalloc_avail:
  "kh_avail h (kh_next h) \<Longrightarrow>
   kmalloc h = (Some (kh_next h), h\<lparr>kh_next := kh_next h + 1, kh_live := kh_next h # kh_live h\<rparr>)"
  by (simp add: kmalloc_def Let_def)

lemma argbuf_fromuser_big:
  assumes "user_args (vmem (em st)) uargv xs" "cell_ok (em st)" "4096 < length (packed xs)" "length (packed xs) \<le> 65536"
    "\<not> fills 4096 xs" "s_count (execthrottle st) \<noteq> 0"
    "kh_avail (eheap st) (kh_next (eheap st))" "kh_avail (eheap st) (kh_next (eheap st) + 1)"
  shows "\<exists>buf st'. argbuf_fromuser me argbuf_init uargv st = Done (None, buf, st') \<and> args_held buf (em st') xs \<and>
    tooksem buf \<and> cell_ok (em st') \<and> s_count (execthrottle st') = s_count (execthrottle st) - 1"
proof -
  let ?n = "kh_next (eheap st)"
  note k = kmalloc_avail [OF assms(7)]
  obtain buf st1 c b x y where o: "argbuf_allocate argbuf_init PAGE_SIZE st = (None, buf, st1)"
    "execthrottle st1 = execthrottle st" "length c = 4" "\<not> tm_badfaultfunc (em st1)" "vmem (em st1) = vmem (em st)"
    "ab_data buf = Some ?n" "eheap st1 = (eheap st)\<lparr>kh_next := ?n + 1, kh_live := ?n # kh_live (eheap st)\<rparr>" "\<not> tooksem buf"
    "argbuf_copyin buf uargv (em st1) = Done (Some E2BIG, buf\<lparr>ab_len := x, ab_nargs := y\<rparr>, stored ?n c b (em st1))"
    using argbuf_fromuser_over [OF assms(1,2) k assms(3)] assms(5) by auto
  let ?s2 = "(stored ?n c b (em st1))\<lparr>kobj := (kobj (stored ?n c b (em st1)))(Suc ?n := None)\<rparr>"
  define st2 where "st2 = st1\<lparr>eheap := (eheap st)\<lparr>kh_next := ?n + 1\<rparr>, em := ?s2,
    execthrottle := (execthrottle st)\<lparr>s_count := s_count (execthrottle st) - 1\<rparr>\<rparr>"
  have "argbuf_cleanup (buf\<lparr>ab_len := x, ab_nargs := y\<rparr>) (st1\<lparr>em := stored ?n c b (em st1)\<rparr>) =
      Done (buf\<lparr>ab_len := 0, ab_nargs := 0, ab_data := None, ab_max := 0\<rparr>,
        st1\<lparr>eheap := (eheap st)\<lparr>kh_next := ?n + 1\<rparr>, em := ?s2\<rparr>)"
    using o(6-8) by (simp add: argbuf_cleanup_def kfree_def)
  moreover have "P me (execthrottle st1) = Done (True, (execthrottle st)\<lparr>s_count := s_count (execthrottle st) - 1\<rparr>)"
    using assms(6) o(2) by (simp add: P_def word_gt_0)
  ultimately have run: "argbuf_fromuser me argbuf_init uargv st =
      (case argbuf_allocate (argbuf_init\<lparr>tooksem := True\<rparr>) ARGMAX st2 of
         (Some e, buf, st) \<Rightarrow> Done (Some e, buf, st)
       | (None, buf, st) \<Rightarrow> obind (argbuf_copyin buf uargv (em st)) (\<lambda>(result, buf, s). Done (result, buf, st\<lparr>em := s\<rparr>)))"
    using o(1,9) by (simp add: argbuf_fromuser_def Let_def st2_def)
  have "kh_avail (eheap st2) (kh_next (eheap st2))" using assms(8) by (simp add: st2_def)
  then obtain buf3 st3 where a3: "argbuf_allocate (argbuf_init\<lparr>tooksem := True\<rparr>) ARGMAX st2 = (None, buf3, st3)"
    using kmalloc_avail by (simp add: argbuf_allocate_def)
  have c2: "cell_ok (em st2)" using o(3,4) by (simp add: st2_def cell_ok_upd cell_ok_stored)
  have am: "unat ARGMAX = 65536" by (simp add: ARGMAX_def)
  obtain d b3 where r: "arg_ready d b3 buf3 65536 (em st3)" "ab_len buf3 = 0" "ab_nargs buf3 = 0" "tooksem buf3"
    "vmem (em st3) = vmem (em st2)" "execthrottle st3 = execthrottle st2"
    using argbuf_allocate_ready [OF a3 c2] am by auto
  have "user_args (vmem (em st3)) uargv xs" using assms(1) o(5) r(5) by (simp add: st2_def)
  from argbuf_copyin_fits [OF this r(1) assms(4) r(2,3)] r(4,6) show ?thesis
    unfolding run using a3 by (auto simp: st2_def)
qed

lemma args_copyout:
  assumes "args_held buf s xs" "list_all (\<lambda>x. 0 \<notin> set x) xs" "cell_ok s" "args_space xs < unat sp" "unat sp \<le> 2 ^ 31"
    "mapped m (unat sp - args_space xs) (unat sp)"
  shows "\<exists>u s'. argbuf_copyout buf sp (s\<lparr>vmem := m\<rparr>) = Done (Inr (u, int (length xs), u), s') \<and> user_args (vmem s') u xs \<and>
    unat u mod 4 = 0 \<and> unat u \<le> unat sp \<and> dom (vmem s') = dom m \<and>
    (\<forall>y. \<not> (unat u \<le> unat y \<and> unat y < unat sp) \<longrightarrow> vmem s' y = m y)"
proof -
  obtain d b where h: "ab_data buf = Some d" "kobj s (Suc d) = Some b" "take (length (packed xs)) b = packed xs"
    "unat (ab_len buf) = length (packed xs)" "ab_nargs buf = int (length xs)"
    using assms(1) by (auto simp: args_held_def)
  have s: "kobj (s\<lparr>vmem := m\<rparr>) (Suc d) = Some b" "\<not> tm_badfaultfunc (s\<lparr>vmem := m\<rparr>)"
    "mapped (vmem (s\<lparr>vmem := m\<rparr>)) (unat sp - args_space xs) (unat sp)" using h(2) assms(3,6) by (simp_all add: cell_ok_def)
  from argbuf_copyout_spec [OF s(1) h(1,3) assms(2) s(2) h(4,5) assms(4,5) s(3)] show ?thesis
    by (auto simp: only_args_def)
qed

text \<open>Everything but the fault flag and the contents is kept: which block the buffer has and
  whether it holds the throttle.\<close>

lemma argbuf_copyin_keeps:
  "argbuf_copyin buf uargv s = Done (r, buf', s') \<Longrightarrow> ab_data buf' = ab_data buf \<and> tooksem buf' = tooksem buf"
proof (induction buf uargv s arbitrary: r buf' s' rule: argbuf_copyin.induct)
  case (1 buf uargv s)
  obtain r1 s1 where c: "copyin uargv (KPtr thisarg_cell 0) 4 s = Done (r1, s1)"
    using 1(2) by (subst (asm) argbuf_copyin.simps) (auto simp: obind_Done_iff)
  show ?case
  proof (cases r1)
    case None
    obtain p where p: "read_cell s1 = Done p"
      using 1(2) c None by (subst (asm) argbuf_copyin.simps) (auto simp: obind_Done_iff)
    show ?thesis
    proof (cases "p = 0")
      case False
      obtain d r2 s2 where d: "ab_data buf = Some d"
        "copyinstr p (KPtr (Suc d) (unat (ab_len buf))) (ab_max buf - ab_len buf) s1 = Done (r2, s2)"
        using 1(2) c None p False by (subst (asm) argbuf_copyin.simps) (auto simp: obind_Done_iff deref_Done_iff)
      show ?thesis
      proof (cases r2)
        case (Inr n)
        let ?buf = "buf\<lparr>ab_len := ab_len buf + of_nat n, ab_nargs := ab_nargs buf + 1\<rparr>"
        have "argbuf_copyin buf uargv s = argbuf_copyin ?buf (uargv + 4) s2"
          using c None p False d Inr by (subst argbuf_copyin.simps) simp
        then have run: "argbuf_copyin ?buf (uargv + 4) s2 = Done (r, buf', s')" using 1(2) by simp
        have "deref (ab_data buf) = Done d" using d(1) by (simp add: deref_def)
        from 1(1) [OF c refl None p False this d(2) refl Inr run] show ?thesis by simp
      qed (use 1(2) c None p False d in \<open>subst (asm) argbuf_copyin.simps; auto\<close>)
    qed (use 1(2) c None p in \<open>subst (asm) argbuf_copyin.simps; auto\<close>)
  qed (use 1(2) c in \<open>subst (asm) argbuf_copyin.simps; auto\<close>)
qed

lemma argbuf_allocate_owns:
  assumes "argbuf_allocate buf sz st = (r, buf', st')" "kheap_ok (eheap st)" "ab_data buf = None"
  shows "kheap_ok (eheap st') \<and> tooksem buf' = tooksem buf \<and> execthrottle st' = execthrottle st \<and>
    kh_live (eheap st') = (case ab_data buf' of None \<Rightarrow> [] | Some n \<Rightarrow> [n]) @ kh_live (eheap st)"
  using assms by (cases rule: kmalloc_cases [OF assms(2)]) (auto simp: argbuf_allocate_def)

lemma argbuf_cleanup_releases:
  assumes "kheap_ok (eheap st)" "kh_live (eheap st) = (case ab_data buf of None \<Rightarrow> [] | Some n \<Rightarrow> [n]) @ live"
    "tooksem buf \<Longrightarrow> s_count (execthrottle st) + 1 \<noteq> 0"
  shows "\<exists>buf' st'. argbuf_cleanup buf st = Done (buf', st') \<and> kh_live (eheap st') = live \<and> kheap_ok (eheap st') \<and>
    ab_data buf' = None \<and> \<not> tooksem buf' \<and>
    s_count (execthrottle st') = s_count (execthrottle st) + (if tooksem buf then 1 else 0)"
  using assms
  by (cases "ab_data buf"; cases "s_sleepers (execthrottle st)")
    (auto simp: argbuf_cleanup_def kfree_def V_def Let_def word_gt_0 kheap_ok_def)

section \<open>Properties\<close>

text \<open>C21.  \<^verbatim>\<open>execv\<close> hands the new program exactly the argument strings of the old one.  For every
  argument vector whose strings fit the first buffer of one page, or that does not fit it
  and fits \<^verbatim>\<open>ARG_MAX\<close> bytes while the throttle is free, \<^verbatim>\<open>argbuf_fromuser\<close> succeeds, and
  \<^verbatim>\<open>argbuf_copyout\<close> into any address space with enough stack lays out a vector with the same
  strings, ended by a null pointer, at an aligned address below the old stack pointer; it
  returns their number, maps nothing new and changes nothing outside the stack area it takes.\<close>

theorem execv_args_roundtrip:
  assumes "user_args (vmem (em st)) uargv xs" "cell_ok (em st)"
    "kh_avail (eheap st) (kh_next (eheap st))" "kh_avail (eheap st) (kh_next (eheap st) + 1)"
    "length (packed xs) \<le> 4096 \<or>
     length (packed xs) \<le> 65536 \<and> \<not> fills 4096 xs \<and> s_count (execthrottle st) \<noteq> 0"
    "args_space xs < unat sp" "unat sp \<le> 2 ^ 31" "mapped m (unat sp - args_space xs) (unat sp)"
  shows "\<exists>buf st' u s'. argbuf_fromuser me argbuf_init uargv st = Done (None, buf, st') \<and>
    argbuf_copyout buf sp ((em st')\<lparr>vmem := m\<rparr>) = Done (Inr (u, int (length xs), u), s') \<and>
    user_args (vmem s') u xs \<and> unat u mod 4 = 0 \<and> unat u \<le> unat sp \<and> dom (vmem s') = dom m \<and>
    (\<forall>y. \<not> (unat u \<le> unat y \<and> unat y < unat sp) \<longrightarrow> vmem s' y = m y)"
proof -
  have "\<exists>buf st'. argbuf_fromuser me argbuf_init uargv st = Done (None, buf, st') \<and> args_held buf (em st') xs \<and>
    cell_ok (em st')"
  proof (cases "length (packed xs) \<le> 4096")
    case True
    then show ?thesis using argbuf_fromuser_page [OF assms(1,2) kmalloc_avail [OF assms(3)]] by blast
  next
    case False
    then show ?thesis using argbuf_fromuser_big [OF assms(1,2) _ _ _ _ assms(3,4)] assms(5) by fastforce
  qed
  then obtain buf st' where f: "argbuf_fromuser me argbuf_init uargv st = Done (None, buf, st')"
    "args_held buf (em st') xs" "cell_ok (em st')" by blast
  show ?thesis using args_copyout [OF f(2) user_args_nonzero [OF assms(1)] f(3) assms(6-8)]
    by (intro exI [of _ buf] exI [of _ st']) (simp add: f(1))
qed

definition demo_exec :: exec_state where
  "demo_exec =
     \<lparr>em = \<lparr>kobj = [0 \<mapsto> [0, 0, 0, 0]],
        vmem = (\<lambda>a. if a < 0x1000 then Some (if a = 2 then 1 else if a = 0x100 then 108 else if a = 0x101 then 115 else 0) else None),
        tm_badfaultfunc = False\<rparr>,
      eheap = \<lparr>kh_next = 0, kh_live = [], kh_avail = (\<lambda>_. True)\<rparr>, junk = (\<lambda>_ _. 0),
      execthrottle = \<lparr>s_count = 1, s_sleepers = []\<rparr>\<rparr>"

text \<open>The vector \<open>[''ls'', NULL]\<close> at address 0, moved to a stack that ends at \<^verbatim>\<open>0x800\<close>.\<close>

lemma demo_exec_args: "user_args (vmem (em demo_exec)) 0 [[108, 115]]"
proof -
  have "user_word (vmem (em demo_exec)) 0 = Some 0x100" "user_word (vmem (em demo_exec)) 4 = Some 0"
    by (simp_all add: demo_exec_def user_word_def user_range_def)
  moreover have "user_str (vmem (em demo_exec)) 0x100 [108, 115]" by (simp add: demo_exec_def user_str_def)
  ultimately show ?thesis by simp
qed

theorem execv_args_roundtrip_witness:
  "\<exists>buf st' u s'. argbuf_fromuser 0 argbuf_init 0 demo_exec = Done (None, buf, st') \<and>
     argbuf_copyout buf 0x800 ((em st')\<lparr>vmem := vmem (em demo_exec)\<rparr>) = Done (Inr (u, 1, u), s') \<and>
     user_args (vmem s') u [[108, 115]] \<and> unat u mod 4 = 0"
proof -
  have sp: "unat (0x800 :: u32) = 0x800" by simp
  have m: "mapped (vmem (em demo_exec)) (unat (0x800 :: u32) - args_space [[108, 115]]) (unat (0x800 :: u32))"
    unfolding sp by (simp add: mapped_def demo_exec_def word_less_nat_alt)
  have c: "cell_ok (em demo_exec)" by (simp add: demo_exec_def cell_ok_def thisarg_cell_def)
  have h: "kh_avail (eheap demo_exec) (kh_next (eheap demo_exec))" "kh_avail (eheap demo_exec) (kh_next (eheap demo_exec) + 1)"
    by (simp_all add: demo_exec_def)
  have f: "length (packed [[108, 115]]) \<le> 4096 \<or> length (packed [[108, 115]]) \<le> 65536 \<and> \<not> fills 4096 [[108, 115]] \<and>
      s_count (execthrottle demo_exec) \<noteq> 0" "args_space [[108, 115]] < unat (0x800 :: u32)" "unat (0x800 :: u32) \<le> 2 ^ 31"
    by (simp_all add: args_space_def)
  obtain buf st' u s' where "argbuf_fromuser 0 argbuf_init 0 demo_exec = Done (None, buf, st')"
    "argbuf_copyout buf 0x800 ((em st')\<lparr>vmem := vmem (em demo_exec)\<rparr>) = Done (Inr (u, int (length [[108, 115 :: u8]]), u), s')"
    "user_args (vmem s') u [[108, 115]]" "unat u mod 4 = 0"
    using execv_args_roundtrip [OF demo_exec_args c h f m] by metis
  then show ?thesis by (intro exI [of _ buf] exI [of _ st'] exI [of _ u] exI [of _ s']) simp
qed

text \<open>C22.  A vector whose first strings fill the one-page buffer to the last byte is refused with
  \<^verbatim>\<open>EFAULT\<close>, however small the rest: the room left is zero, \<^verbatim>\<open>copyinstr\<close> takes a zero length for a
  bad address, and the retry with the big buffer is only made for \<^verbatim>\<open>E2BIG\<close>.\<close>

theorem execv_full_page_refused:
  assumes "user_args (vmem (em st)) uargv xs" "cell_ok (em st)" "kh_avail (eheap st) (kh_next (eheap st))"
    "fills 4096 xs" "4096 < length (packed xs)"
  shows "\<exists>buf st'. argbuf_fromuser me argbuf_init uargv st = Done (Some EFAULT, buf, st') \<and> \<not> tooksem buf"
  using argbuf_fromuser_over [OF assms(1,2) kmalloc_avail [OF assms(3)] assms(5)] assms(4)
  by (auto simp: argbuf_fromuser_def Let_def)

lemma user_prefix_replicate:
  "(\<And>y. unat a \<le> unat y \<Longrightarrow> unat y < unat a + n \<Longrightarrow> m y = Some v) \<Longrightarrow> unat a + n \<le> 2 ^ 32 \<Longrightarrow>
   user_prefix m a n = replicate n v"
proof (induction n arbitrary: a)
  case (Suc n)
  have "user_prefix m (a + 1) n = replicate n v"
  proof (cases n)
    case (Suc k)
    then have "unat (a + 1) = unat a + 1" using Suc.prems(2) by (intro unat_Suc_lt) auto
    then show ?thesis using Suc.prems by (intro Suc.IH) auto
  qed simp
  then show ?case using Suc.prems(1) [of a] by simp
qed simp

text \<open>A vector of two strings, the first of 4095 characters.\<close>

definition demo_full :: exec_state where
  "demo_full = demo_exec\<lparr>em := (em demo_exec)\<lparr>vmem := (\<lambda>a.
     if a < 0x1000 then Some (if a = 2 then 0x10 else if a = 6 then 0x1f else if a = 7 then 0xfe else 0)
     else if a < 0x1fff then Some 97 else if a = 0x1fff then Some 0 else None)\<rparr>\<rparr>"

lemma demo_full_args: "user_args (vmem (em demo_full)) 0 [replicate 4095 97, [97]]"
proof -
  let ?m = "vmem (em demo_full)"
  have w: "user_word ?m 0 = Some 0x1000" "user_word ?m 4 = Some 0x1ffe" "user_word ?m 8 = Some 0"
    by (simp_all add: demo_full_def user_word_def user_range_def)
  have r: "user_prefix ?m 0x1000 4095 = replicate 4095 97"
    by (rule user_prefix_replicate) (auto simp: demo_full_def word_less_nat_alt word_unat_eq_iff)
  have e: "?m (0x1000 + of_nat 4095) = Some 0" by (simp add: demo_full_def)
  have "user_prefix ?m 0x1000 (4095 + 1) = replicate 4095 97 @ [0]"
    unfolding user_prefix_append [of _ _ 4095] Let_def r using e by simp
  then have "user_str ?m 0x1000 (replicate 4095 97)" unfolding user_str_def by simp
  moreover have "user_str ?m 0x1ffe [97]" by (simp add: demo_full_def user_str_def)
  ultimately show ?thesis using w by simp
qed

theorem execv_full_page_refused_witness:
  "\<exists>buf st'. argbuf_fromuser 0 argbuf_init 0 demo_full = Done (Some EFAULT, buf, st') \<and> \<not> tooksem buf"
  using demo_full_args
  by (rule execv_full_page_refused) (simp_all add: demo_full_def demo_exec_def cell_ok_def thisarg_cell_def packed_def)

text \<open>Whatever vector the user passes, the buffer and the throttle are given back: once
  \<^verbatim>\<open>argbuf_fromuser\<close> has returned, with or without an error, \<^verbatim>\<open>argbuf_cleanup\<close> succeeds, the set
  of allocated blocks and the count of the throttle are those of before the call, and the
  buffer owns nothing.\<close>

theorem execv_args_released:
  assumes "kheap_ok (eheap st)" "argbuf_fromuser me argbuf_init uargv st = Done (r, buf, st')"
  shows "\<exists>buf' st''. argbuf_cleanup buf st' = Done (buf', st'') \<and> kh_live (eheap st'') = kh_live (eheap st) \<and>
    s_count (execthrottle st'') = s_count (execthrottle st) \<and> ab_data buf' = None \<and> \<not> tooksem buf'"
proof -
  let ?own = "\<lambda>buf. case ab_data buf of None \<Rightarrow> [] | Some n \<Rightarrow> [n]"
  obtain r1 b1 st1 where a1: "argbuf_allocate argbuf_init PAGE_SIZE st = (r1, b1, st1)" by (metis prod_cases3)
  have o1: "kheap_ok (eheap st1)" "\<not> tooksem b1" "execthrottle st1 = execthrottle st"
    "kh_live (eheap st1) = ?own b1 @ kh_live (eheap st)"
    using argbuf_allocate_owns [OF a1 assms(1)] by (simp_all add: argbuf_init_def)
  show ?thesis
  proof (cases r1)
    case (Some e)
    then have "buf = b1" "st' = st1" using assms(2) a1 by (simp_all add: argbuf_fromuser_def)
    then show ?thesis using argbuf_cleanup_releases [OF o1(1,4)] o1(2,3) by auto
  next
    case None
    obtain r2 b2 s2 where c2: "argbuf_copyin b1 uargv (em st1) = Done (r2, b2, s2)"
      using assms(2) a1 None by (auto simp: argbuf_fromuser_def obind_Done_iff)
    let ?st2 = "st1\<lparr>em := s2\<rparr>"
    have o2: "kheap_ok (eheap ?st2)" "kh_live (eheap ?st2) = ?own b2 @ kh_live (eheap st)" "\<not> tooksem b2"
      using o1 argbuf_copyin_keeps [OF c2] by simp_all
    then obtain b3 st3 where c3: "argbuf_cleanup b2 ?st2 = Done (b3, st3)" "kh_live (eheap st3) = kh_live (eheap st)"
      "kheap_ok (eheap st3)" "s_count (execthrottle st3) = s_count (execthrottle st)" "ab_data b3 = None" "\<not> tooksem b3"
      using argbuf_cleanup_releases [OF o2(1,2)] o1(3) by auto
    show ?thesis
    proof (cases "r2 = Some E2BIG")
      case False
      then have "buf = b2" "st' = ?st2" using assms(2) a1 None c2 by (simp_all add: argbuf_fromuser_def Let_def)
      then show ?thesis using c3 by simp
    next
      case True
      obtain q where q: "P me (execthrottle st3) = Done (True, q)" "s_count (execthrottle st3) \<noteq> 0"
        "s_count q = s_count (execthrottle st3) - 1"
        using assms(2) a1 None c2 c3(1) True
        by (auto simp: argbuf_fromuser_def Let_def obind_Done_iff P_def split: if_splits)
      let ?st4 = "st3\<lparr>execthrottle := q\<rparr>"
      obtain r5 b5 st5 where a5: "argbuf_allocate (argbuf_init\<lparr>tooksem := True\<rparr>) ARGMAX ?st4 = (r5, b5, st5)"
        by (metis prod_cases3)
      have o5: "kheap_ok (eheap st5)" "tooksem b5" "execthrottle st5 = q" "kh_live (eheap st5) = ?own b5 @ kh_live (eheap st)"
        using argbuf_allocate_owns [OF a5] c3(2,3) by (simp_all add: argbuf_init_def)
      have "\<exists>s. st' = st5\<lparr>em := s\<rparr> \<and> ab_data buf = ab_data b5 \<and> tooksem buf"
      proof (cases r5)
        case None
        then show ?thesis using assms(2) a1 \<open>r1 = None\<close> c2 c3(1) True q a5 o5(2)
          by (auto simp: argbuf_fromuser_def Let_def obind_Done_iff dest: argbuf_copyin_keeps)
      next
        case (Some e)
        then have "buf = b5" "st' = st5" using assms(2) a1 None c2 c3(1) True q a5
          by (auto simp: argbuf_fromuser_def Let_def)
        then show ?thesis using o5(2) by (intro exI [of _ "em st5"]) simp
      qed
      then obtain s where s: "st' = st5\<lparr>em := s\<rparr>" "ab_data buf = ab_data b5" "tooksem buf" by blast
      then show ?thesis using argbuf_cleanup_releases [of st' buf "kh_live (eheap st)"] o5 q c3(4) by auto
    qed
  qed
qed

theorem execv_args_released_witness:
  "\<exists>buf st' buf' st''. argbuf_fromuser 0 argbuf_init 0 demo_full = Done (Some EFAULT, buf, st') \<and>
     argbuf_cleanup buf st' = Done (buf', st'') \<and> kh_live (eheap st'') = [] \<and> s_count (execthrottle st'') = 1"
proof -
  have d: "fills 4096 [replicate 4095 97, [97]]" "4096 < length (packed [replicate 4095 97, [97]])"
    "cell_ok (em demo_full)" "kh_avail (eheap demo_full) (kh_next (eheap demo_full))" "kheap_ok (eheap demo_full)"
    by (simp_all add: demo_full_def demo_exec_def cell_ok_def thisarg_cell_def packed_def kheap_ok_def)
  obtain buf st' where f: "argbuf_fromuser 0 argbuf_init 0 demo_full = Done (Some EFAULT, buf, st')"
    using argbuf_fromuser_over [OF demo_full_args d(3) kmalloc_avail [OF d(4)] d(2)] d(1)
    by (auto simp: argbuf_fromuser_def Let_def)
  from execv_args_released [OF d(5) f] f show ?thesis by (auto simp: demo_full_def demo_exec_def)
qed

end
