(* ===== verification/Vfs.thy ===== *)
theory Vfs
  imports Uio KHeap
begin

text \<open>
  The file system independent layer (\<^verbatim>\<open>kern/vfs\<close>): reference counts of vnodes, the list of
  named devices, pathname translation, current directories and the operations on pathnames.

  A vnode, a \<^verbatim>\<open>struct fs\<close> and a device are numbers; a null pointer is \<open>None\<close>.  The operations
  that a file system supplies through \<^verbatim>\<open>struct vnode_ops\<close> and \<^verbatim>\<open>struct fs_ops\<close> are an argument
  \<open>ops\<close>; what the layer relies on of them, as \<^verbatim>\<open>vnode.h\<close> documents it, is the locale \<open>filesystem\<close>
  below.  They may change the private state \<open>fsx\<close> of the file systems and the vnodes.
\<close>

unbundle bit_operations_syntax

section \<open>State\<close>

datatype vops_tag = DevOps | FsOps

record vnode =
  vn_refcount :: int
  vn_fs :: "nat option"
  vn_data :: "nat option"
  vn_ops :: "vops_tag option"

datatype fsref = MountedFs nat | SWAP_FS

record knowndev =
  kd_name :: string
  kd_rawname :: "string option"
  kd_device :: "nat option"
  kd_vnode :: nat
  kd_fs :: "fsref option"

text \<open>\<open>cwd\<close> is \<^verbatim>\<open>p_cwd\<close> of every process; \<open>kd_room n\<close> tells whether the array of devices can grow
  beyond \<open>n\<close> entries; the big lock is its holder and its depth.\<close>

record 'x vfs =
  vnodes :: "nat \<rightharpoonup> vnode"
  knowndevs :: "knowndev list"
  kd_room :: "nat \<Rightarrow> bool"
  d_devnumber :: "nat \<Rightarrow> nat"
  vfs_biglock :: "nat option"
  vfs_biglock_depth :: nat
  bootfs_vnode :: "nat option"
  cwd :: "nat \<Rightarrow> nat option"
  curthread :: nat
  curproc :: nat
  vfsheap :: kheap
  fsx :: 'x

record stat =
  st_size :: u64
  st_mode :: u32
  st_nlink :: u32
  st_blocks :: u32
  st_dev :: nat
  st_rdev :: nat
  st_blksize :: u32

type_synonym 'x vop = "'x vfs \<Rightarrow> (errno option \<times> 'x vfs) outcome"
type_synonym ('x, 'a) vop_ret = "'x vfs \<Rightarrow> ((errno + 'a) \<times> 'x vfs) outcome"
type_synonym 'x vop_uio = "uio \<Rightarrow> memory \<Rightarrow> 'x vfs \<Rightarrow> (errno option \<times> uio \<times> memory \<times> 'x vfs) outcome"

record 'x vnode_ops =
  vop_eachopen :: "nat \<Rightarrow> u32 \<Rightarrow> 'x vop"
  vop_reclaim :: "nat \<Rightarrow> 'x vop"
  vop_read :: "nat \<Rightarrow> 'x vop_uio"
  vop_readlink :: "nat \<Rightarrow> 'x vop_uio"
  vop_getdirentry :: "nat \<Rightarrow> 'x vop_uio"
  vop_write :: "nat \<Rightarrow> 'x vop_uio"
  vop_ioctl :: "nat \<Rightarrow> u32 \<Rightarrow> u32 \<Rightarrow> 'x vop"
  vop_stat :: "nat \<Rightarrow> ('x, stat) vop_ret"
  vop_gettype :: "nat \<Rightarrow> ('x, u32) vop_ret"
  vop_isseekable :: "nat \<Rightarrow> 'x vfs \<Rightarrow> bool"
  vop_fsync :: "nat \<Rightarrow> 'x vop"
  vop_mmap :: "nat \<Rightarrow> 'x vop"
  vop_truncate :: "nat \<Rightarrow> u64 \<Rightarrow> 'x vop"
  vop_namefile :: "nat \<Rightarrow> 'x vop_uio"
  vop_creat :: "nat \<Rightarrow> string \<Rightarrow> bool \<Rightarrow> u32 \<Rightarrow> ('x, nat) vop_ret"
  vop_symlink :: "nat \<Rightarrow> string \<Rightarrow> string \<Rightarrow> 'x vop"
  vop_mkdir :: "nat \<Rightarrow> string \<Rightarrow> u32 \<Rightarrow> 'x vop"
  vop_link :: "nat \<Rightarrow> string \<Rightarrow> nat \<Rightarrow> 'x vop"
  vop_remove :: "nat \<Rightarrow> string \<Rightarrow> 'x vop"
  vop_rmdir :: "nat \<Rightarrow> string \<Rightarrow> 'x vop"
  vop_rename :: "nat \<Rightarrow> string \<Rightarrow> nat \<Rightarrow> string \<Rightarrow> 'x vop"
  vop_lookup :: "nat \<Rightarrow> string \<Rightarrow> ('x, nat) vop_ret"
  vop_lookparent :: "nat \<Rightarrow> string \<Rightarrow> nat \<Rightarrow> ('x, nat \<times> string) vop_ret"
  fsop_getvolname :: "nat \<Rightarrow> 'x vfs \<Rightarrow> string option"
  fsop_getroot :: "nat \<Rightarrow> ('x, nat) vop_ret"
  fsop_sync :: "nat \<Rightarrow> 'x vop"
  fsop_unmount :: "nat \<Rightarrow> 'x vop"

definition NAME_MAX :: nat where "NAME_MAX = 255"
definition O_WRONLY :: u32 where "O_WRONLY = 1"
definition O_RDONLY :: u32 where "O_RDONLY = 0"
definition O_RDWR :: u32 where "O_RDWR = 2"
definition O_CREAT :: u32 where "O_CREAT = 4"
definition O_EXCL :: u32 where "O_EXCL = 8"
definition O_TRUNC :: u32 where "O_TRUNC = 16"
definition O_APPEND :: u32 where "O_APPEND = 32"
definition O_ACCMODE :: u32 where "O_ACCMODE = 3"
definition S_IFDIR :: u32 where "S_IFDIR = 0x2000"
definition S_IFBLK :: u32 where "S_IFBLK = 0x7000"
definition S_IFCHR :: u32 where "S_IFCHR = 0x6000"

section \<open>Vnodes\<close>

definition vnode_init :: "nat \<Rightarrow> vops_tag \<Rightarrow> nat option \<Rightarrow> nat option \<Rightarrow> 'x vfs \<Rightarrow> 'x vfs" where
  "vnode_init vn vops fs fsdata s =
     s\<lparr>vnodes := (vnodes s)(vn \<mapsto> \<lparr>vn_refcount = 1, vn_fs = fs, vn_data = fsdata, vn_ops = Some vops\<rparr>)\<rparr>"

definition vnode_cleanup :: "nat \<Rightarrow> 'x vfs \<Rightarrow> 'x vfs outcome" where
  "vnode_cleanup vn s =
     obind (deref (vnodes s vn)) (\<lambda>n.
     obind (kassert (vn_refcount n = 1)) (\<lambda>_.
     Done (s\<lparr>vnodes := (vnodes s)(vn \<mapsto> \<lparr>vn_refcount = 0, vn_fs = None, vn_data = None, vn_ops = None\<rparr>)\<rparr>)))"

definition vnode_incref :: "nat \<Rightarrow> 'x vfs \<Rightarrow> 'x vfs outcome" where
  "vnode_incref vn s =
     obind (deref (vnodes s vn)) (\<lambda>n.
     Done (s\<lparr>vnodes := (vnodes s)(vn \<mapsto> n\<lparr>vn_refcount := vn_refcount n + 1\<rparr>)\<rparr>))"

definition vnode_check :: "nat \<Rightarrow> 'x vfs \<Rightarrow> unit outcome" where
  "vnode_check v s =
     obind (deref (vnodes s v)) (\<lambda>n. kassert (vn_ops n \<noteq> None \<and> vn_refcount n > 0))"

definition vnode_decref :: "'x vnode_ops \<Rightarrow> nat \<Rightarrow> 'x vfs \<Rightarrow> 'x vfs outcome" where
  "vnode_decref ops vn s =
     obind (deref (vnodes s vn)) (\<lambda>n.
     obind (kassert (vn_refcount n > 0)) (\<lambda>_.
     if vn_refcount n > 1
     then Done (s\<lparr>vnodes := (vnodes s)(vn \<mapsto> n\<lparr>vn_refcount := vn_refcount n - 1\<rparr>)\<rparr>)
     else obind (vnode_check vn s) (\<lambda>_.
          obind (vop_reclaim ops vn s) (\<lambda>(result, s). Done s))))"

section \<open>The big lock\<close>

definition vfs_biglock_do_i_hold :: "'x vfs \<Rightarrow> bool" where
  "vfs_biglock_do_i_hold s \<longleftrightarrow> vfs_biglock s = Some (curthread s)"

definition vfs_biglock_acquire :: "'x vfs \<Rightarrow> 'x vfs outcome" where
  "vfs_biglock_acquire s =
     obind (if \<not> vfs_biglock_do_i_hold s
            then (if vfs_biglock s = None then Done (s\<lparr>vfs_biglock := Some (curthread s)\<rparr>) else Stop Blocked)
            else if vfs_biglock_depth s = 0 then Stop Panic else Done s) (\<lambda>s.
     Done (s\<lparr>vfs_biglock_depth := vfs_biglock_depth s + 1\<rparr>))"

definition vfs_biglock_release :: "'x vfs \<Rightarrow> 'x vfs outcome" where
  "vfs_biglock_release s =
     obind (kassert (vfs_biglock_do_i_hold s)) (\<lambda>_.
     obind (kassert (vfs_biglock_depth s > 0)) (\<lambda>_.
     let s = s\<lparr>vfs_biglock_depth := vfs_biglock_depth s - 1\<rparr> in
     Done (if vfs_biglock_depth s = 0 then s\<lparr>vfs_biglock := None\<rparr> else s)))"

text \<open>\<^verbatim>\<open>biglock_acquire(); ...; biglock_release(); return\<close>\<close>

definition with_biglock :: "('x vfs \<Rightarrow> ('r \<times> 'x vfs) outcome) \<Rightarrow> 'x vfs \<Rightarrow> ('r \<times> 'x vfs) outcome" where
  "with_biglock body s =
     obind (vfs_biglock_acquire s) (\<lambda>s.
     obind (body s) (\<lambda>(r, s).
     obind (vfs_biglock_release s) (\<lambda>s. Done (r, s))))"

section \<open>Named devices\<close>

fun vfs_getroot_in :: "'x vnode_ops \<Rightarrow> knowndev list \<Rightarrow> string \<Rightarrow> ('x, nat) vop_ret" where
  "vfs_getroot_in ops [] devname s = Done (Inl ENODEV, s)"
| "vfs_getroot_in ops (kd # kds) devname s =
     (let hand_back = obind (vnode_incref (kd_vnode kd) s) (\<lambda>s. Done (Inr (kd_vnode kd), s));
          rest = (if kd_name kd = devname then
                    obind (kassert (kd_fs kd = None)) (\<lambda>_.
                    obind (kassert (kd_rawname kd = None)) (\<lambda>_.
                    obind (kassert (kd_device kd \<noteq> None)) (\<lambda>_. hand_back)))
                  else if kd_rawname kd = Some devname then
                    obind (kassert (kd_device kd \<noteq> None)) (\<lambda>_. hand_back)
                  else vfs_getroot_in ops kds devname s) in
      case kd_fs kd of
        Some (MountedFs fs) \<Rightarrow>
          if kd_name kd = devname \<or> fsop_getvolname ops fs s = Some devname then fsop_getroot ops fs s else rest
      | _ \<Rightarrow>
          if kd_rawname kd \<noteq> None \<and> kd_name kd = devname then Done (Inl ENXIO, s) else rest)"

definition vfs_getroot :: "'x vnode_ops \<Rightarrow> string \<Rightarrow> ('x, nat) vop_ret" where
  "vfs_getroot ops devname s =
     obind (kassert (vfs_biglock_do_i_hold s)) (\<lambda>_. vfs_getroot_in ops (knowndevs s) devname s)"

fun vfs_getdevname_in :: "knowndev list \<Rightarrow> nat \<Rightarrow> string option" where
  "vfs_getdevname_in [] fs = None"
| "vfs_getdevname_in (kd # kds) fs =
     (if kd_fs kd = Some (MountedFs fs) then Some (kd_name kd) else vfs_getdevname_in kds fs)"

definition vfs_getdevname :: "nat \<Rightarrow> 'x vfs \<Rightarrow> string option outcome" where
  "vfs_getdevname fs s =
     obind (kassert (vfs_biglock_do_i_hold s)) (\<lambda>_. Done (vfs_getdevname_in (knowndevs s) fs))"

definition samestring :: "string option \<Rightarrow> string option \<Rightarrow> bool" where
  "samestring a b \<longleftrightarrow> a \<noteq> None \<and> b \<noteq> None \<and> a = b"

definition samestring3 :: "string option \<Rightarrow> string option \<Rightarrow> string option \<Rightarrow> string option \<Rightarrow> bool" where
  "samestring3 a b c d \<longleftrightarrow> samestring a b \<or> samestring a c \<or> samestring a d"

fun badnames_in ::
  "'x vnode_ops \<Rightarrow> 'x vfs \<Rightarrow> knowndev list \<Rightarrow> string option \<Rightarrow> string option \<Rightarrow> string option \<Rightarrow> bool" where
  "badnames_in ops s [] n1 n2 n3 = False"
| "badnames_in ops s (kd # kds) n1 n2 n3 =
     ((case kd_fs kd of Some (MountedFs fs) \<Rightarrow> samestring3 (fsop_getvolname ops fs s) n1 n2 n3 | _ \<Rightarrow> False) \<or>
      samestring3 (kd_rawname kd) n1 n2 n3 \<or> samestring3 (Some (kd_name kd)) n1 n2 n3 \<or>
      badnames_in ops s kds n1 n2 n3)"

definition badnames :: "'x vnode_ops \<Rightarrow> string option \<Rightarrow> string option \<Rightarrow> string option \<Rightarrow> 'x vfs \<Rightarrow> bool outcome" where
  "badnames ops n1 n2 n3 s =
     obind (kassert (vfs_biglock_do_i_hold s)) (\<lambda>_. Done (badnames_in ops s (knowndevs s) n1 n2 n3))"

definition dev_create_vnode :: "nat option \<Rightarrow> 'x vfs \<Rightarrow> nat option \<times> 'x vfs" where
  "dev_create_vnode dev s =
     (case kmalloc (vfsheap s) of
        (None, h) \<Rightarrow> (None, s\<lparr>vfsheap := h\<rparr>)
      | (Some v, h) \<Rightarrow> (Some v, vnode_init v DevOps None dev (s\<lparr>vfsheap := h\<rparr>)))"

definition kfree_vfs :: "nat option \<Rightarrow> 'x vfs \<Rightarrow> 'x vfs outcome" where
  "kfree_vfs p s = obind (kfree p (vfsheap s)) (\<lambda>h. Done (s\<lparr>vfsheap := h\<rparr>))"

definition dev_uncreate_vnode :: "nat \<Rightarrow> 'x vfs \<Rightarrow> 'x vfs outcome" where
  "dev_uncreate_vnode vn s =
     obind (deref (vnodes s vn)) (\<lambda>n.
     obind (kassert (vn_ops n = Some DevOps)) (\<lambda>_.
     obind (vnode_cleanup vn s) (\<lambda>s.
     obind (kfree_vfs (Some vn) s) (\<lambda>s.
     Done (s\<lparr>vnodes := (vnodes s)(vn := None)\<rparr>)))))"

text \<open>The failure exit of \<^verbatim>\<open>vfs_doadd\<close>: whatever was allocated so far is freed.\<close>

definition doadd_fail ::
  "errno \<Rightarrow> nat option \<Rightarrow> nat option \<Rightarrow> nat option \<Rightarrow> nat option \<Rightarrow> 'x vop" where
  "doadd_fail result name rawname vn kd s =
     obind (kfree_vfs name s) (\<lambda>s.
     obind (kfree_vfs rawname s) (\<lambda>s.
     obind (case vn of None \<Rightarrow> Done s | Some v \<Rightarrow> dev_uncreate_vnode v s) (\<lambda>s.
     obind (kfree_vfs kd s) (\<lambda>s.
     Done (Some result, s)))))"

definition kmalloc_vfs :: "'x vfs \<Rightarrow> nat option \<times> 'x vfs" where
  "kmalloc_vfs s = (case kmalloc (vfsheap s) of (p, h) \<Rightarrow> (p, s\<lparr>vfsheap := h\<rparr>))"

text \<open>With everything allocated: check the names and enter the device in the list.\<close>

definition doadd_enter ::
  "'x vnode_ops \<Rightarrow> string \<Rightarrow> bool \<Rightarrow> nat option \<Rightarrow> nat option \<Rightarrow> nat option \<Rightarrow> nat option \<Rightarrow> nat \<Rightarrow> nat option \<Rightarrow> 'x vop" where
  "doadd_enter ops dname mountable dev fs name rawname vn kd s =
     (let raw = (if mountable then Some (dname @ ''raw'') else None);
          volname = (case fs of None \<Rightarrow> None | Some f \<Rightarrow> fsop_getvolname ops f s);
          entry = \<lparr>kd_name = dname, kd_rawname = raw, kd_device = dev, kd_vnode = vn,
                   kd_fs = map_option MountedFs fs\<rparr> in
      obind (badnames ops (Some dname) raw volname s) (\<lambda>bad.
      if bad then doadd_fail EEXIST name rawname (Some vn) kd s
      else if \<not> kd_room s (length (knowndevs s)) then doadd_fail ENOMEM name rawname (Some vn) kd s
      else
        let index = length (knowndevs s);
            s = s\<lparr>knowndevs := knowndevs s @ [entry]\<rparr> in
        Done (None, case dev of None \<Rightarrow> s | Some d \<Rightarrow> s\<lparr>d_devnumber := (d_devnumber s)(d := index + 1)\<rparr>)))"

definition doadd_vnode ::
  "'x vnode_ops \<Rightarrow> string \<Rightarrow> bool \<Rightarrow> nat option \<Rightarrow> nat option \<Rightarrow> nat option \<Rightarrow> nat option \<Rightarrow> 'x vop" where
  "doadd_vnode ops dname mountable dev fs name rawname s =
     (case dev_create_vnode dev s of
        (None, s) \<Rightarrow> doadd_fail ENOMEM name rawname None None s
      | (Some vn, s) \<Rightarrow>
     (case kmalloc_vfs s of
        (None, s) \<Rightarrow> doadd_fail ENOMEM name rawname (Some vn) None s
      | (Some kd, s) \<Rightarrow> doadd_enter ops dname mountable dev fs name rawname vn (Some kd) s))"

definition vfs_doadd_locked ::
  "'x vnode_ops \<Rightarrow> string \<Rightarrow> bool \<Rightarrow> nat option \<Rightarrow> nat option \<Rightarrow> 'x vop" where
  "vfs_doadd_locked ops dname mountable dev fs s =
     (case kmalloc_vfs s of
        (None, s) \<Rightarrow> doadd_fail ENOMEM None None None None s
      | (Some name, s) \<Rightarrow>
     (case (if mountable then kmalloc_vfs s else (None, s)) of (rawname, s) \<Rightarrow>
      if mountable \<and> rawname = None then doadd_fail ENOMEM (Some name) None None None s
      else doadd_vnode ops dname mountable dev fs (Some name) rawname s))"

definition vfs_doadd :: "'x vnode_ops \<Rightarrow> string \<Rightarrow> bool \<Rightarrow> nat option \<Rightarrow> nat option \<Rightarrow> 'x vop" where
  "vfs_doadd ops dname mountable dev fs = with_biglock (vfs_doadd_locked ops dname mountable dev fs)"

definition vfs_adddev :: "'x vnode_ops \<Rightarrow> string \<Rightarrow> nat \<Rightarrow> bool \<Rightarrow> 'x vop" where
  "vfs_adddev ops devname dev mountable = vfs_doadd ops devname mountable (Some dev) None"

definition vfs_addfs :: "'x vnode_ops \<Rightarrow> string \<Rightarrow> nat \<Rightarrow> 'x vop" where
  "vfs_addfs ops devname fs = vfs_doadd ops devname False None (Some fs)"

text \<open>The index of the mountable device.\<close>

fun findmount_in :: "knowndev list \<Rightarrow> string \<Rightarrow> nat \<Rightarrow> nat option" where
  "findmount_in [] devname i = None"
| "findmount_in (kd # kds) devname i =
     (if kd_rawname kd \<noteq> None \<and> devname = kd_name kd then Some i else findmount_in kds devname (i + 1))"

definition findmount :: "string \<Rightarrow> 'x vfs \<Rightarrow> (errno + nat) outcome" where
  "findmount devname s =
     obind (kassert (vfs_biglock_do_i_hold s)) (\<lambda>_.
     Done (case findmount_in (knowndevs s) devname 0 of None \<Rightarrow> Inl ENODEV | Some i \<Rightarrow> Inr i))"

definition set_kd_fs :: "nat \<Rightarrow> fsref option \<Rightarrow> 'x vfs \<Rightarrow> 'x vfs" where
  "set_kd_fs i f s = s\<lparr>knowndevs := (knowndevs s)[i := (knowndevs s ! i)\<lparr>kd_fs := f\<rparr>]\<rparr>"

text \<open>\<open>mountfunc\<close> builds the file system on the device.\<close>

definition vfs_mount :: "(nat \<Rightarrow> ('x, nat) vop_ret) \<Rightarrow> string \<Rightarrow> 'x vop" where
  "vfs_mount mountfunc devname = with_biglock (\<lambda>s.
     obind (findmount devname s) (\<lambda>r. case r of Inl e \<Rightarrow> Done (Some e, s) | Inr i \<Rightarrow>
     let kd = knowndevs s ! i in
     if kd_fs kd \<noteq> None then Done (Some EBUSY, s) else
     obind (kassert (kd_rawname kd \<noteq> None)) (\<lambda>_.
     case kd_device kd of None \<Rightarrow> Stop Panic | Some d \<Rightarrow>
     obind (mountfunc d s) (\<lambda>(r, s). case r of Inl e \<Rightarrow> Done (Some e, s) | Inr fs \<Rightarrow>
     Done (None, set_kd_fs i (Some (MountedFs fs)) s)))))"

definition vfs_swapon :: "string \<Rightarrow> ('x, nat) vop_ret" where
  "vfs_swapon devname s =
     (let trim = devname \<noteq> [] \<and> last devname = CHR '':'' in
      case (if trim then kmalloc_vfs s else (None, s)) of (myname, s) \<Rightarrow>
      if trim \<and> myname = None then Done (Inl ENOMEM, s) else
      let name = (if trim then butlast devname else devname) in
      obind (with_biglock (\<lambda>s.
        obind (findmount name s) (\<lambda>r. case r of Inl e \<Rightarrow> Done (Inl e, s) | Inr i \<Rightarrow>
        let kd = knowndevs s ! i in
        if kd_fs kd \<noteq> None then Done (Inl EBUSY, s) else
        obind (kassert (kd_rawname kd \<noteq> None \<and> kd_device kd \<noteq> None)) (\<lambda>_.
        obind (vnode_incref (kd_vnode kd) (set_kd_fs i (Some SWAP_FS) s)) (\<lambda>s.
        Done (Inr (kd_vnode kd), s))))) s) (\<lambda>(r, s).
      obind (kfree_vfs myname s) (\<lambda>s. Done (r, s))))"

definition vfs_unmount :: "'x vnode_ops \<Rightarrow> string \<Rightarrow> 'x vop" where
  "vfs_unmount ops devname = with_biglock (\<lambda>s.
     obind (findmount devname s) (\<lambda>r. case r of Inl e \<Rightarrow> Done (Some e, s) | Inr i \<Rightarrow>
     let kd = knowndevs s ! i in
     case kd_fs kd of
       Some (MountedFs fs) \<Rightarrow>
         obind (kassert (kd_rawname kd \<noteq> None \<and> kd_device kd \<noteq> None)) (\<lambda>_.
         obind (fsop_sync ops fs s) (\<lambda>(r, s). if r \<noteq> None then Done (r, s) else
         obind (fsop_unmount ops fs s) (\<lambda>(r, s). if r \<noteq> None then Done (r, s) else
         Done (None, set_kd_fs i None s))))
     | _ \<Rightarrow> Done (Some EINVAL, s)))"

definition vfs_swapoff :: "string \<Rightarrow> 'x vop" where
  "vfs_swapoff devname = with_biglock (\<lambda>s.
     obind (findmount devname s) (\<lambda>r. case r of Inl e \<Rightarrow> Done (Some e, s) | Inr i \<Rightarrow>
     if kd_fs (knowndevs s ! i) \<noteq> Some SWAP_FS then Done (Some EINVAL, s)
     else Done (None, set_kd_fs i None s)))"

fun vfs_sync_in :: "'x vnode_ops \<Rightarrow> knowndev list \<Rightarrow> 'x vfs \<Rightarrow> 'x vfs outcome" where
  "vfs_sync_in ops [] s = Done s"
| "vfs_sync_in ops (kd # kds) s =
     (case kd_fs kd of
        Some (MountedFs fs) \<Rightarrow> obind (fsop_sync ops fs s) (\<lambda>(_, s). vfs_sync_in ops kds s)
      | _ \<Rightarrow> vfs_sync_in ops kds s)"

definition vfs_sync :: "'x vnode_ops \<Rightarrow> 'x vop" where
  "vfs_sync ops = with_biglock (\<lambda>s.
     obind (vfs_sync_in ops (knowndevs s) s) (\<lambda>s. Done (None, s)))"

text \<open>The body of the loop of \<^verbatim>\<open>vfs_unmountall\<close> for entry \<open>i\<close>.\<close>

definition unmount_one :: "'x vnode_ops \<Rightarrow> nat \<Rightarrow> 'x vfs \<Rightarrow> 'x vfs outcome" where
  "unmount_one ops i s =
     (let kd = knowndevs s ! i in
      if kd_rawname kd = None then Done s else
      case kd_fs kd of
        None \<Rightarrow> Done s
      | Some SWAP_FS \<Rightarrow> Done (set_kd_fs i None s)
      | Some (MountedFs fs) \<Rightarrow>
          obind (fsop_sync ops fs s) (\<lambda>(r, s).
          obind (if r \<noteq> None then fsop_sync ops fs s else Done (None, s)) (\<lambda>(r, s).
          if r \<noteq> None then Done s else
          obind (fsop_unmount ops fs s) (\<lambda>(r, s).
          if r \<noteq> None then Done s else Done (set_kd_fs i None s)))))"

fun unmount_each :: "'x vnode_ops \<Rightarrow> nat list \<Rightarrow> 'x vfs \<Rightarrow> 'x vfs outcome" where
  "unmount_each ops [] s = Done s"
| "unmount_each ops (i # is) s = obind (unmount_one ops i s) (\<lambda>s. unmount_each ops is s)"

definition vfs_unmountall :: "'x vnode_ops \<Rightarrow> 'x vop" where
  "vfs_unmountall ops = with_biglock (\<lambda>s.
     obind (unmount_each ops [0..<length (knowndevs s)] s) (\<lambda>s. Done (None, s)))"

section \<open>Current directories\<close>

definition vfs_getcurdir :: "('x, nat) vop_ret" where
  "vfs_getcurdir s =
     (case cwd s (curproc s) of
        Some v \<Rightarrow> obind (vnode_incref v s) (\<lambda>s. Done (Inr v, s))
      | None \<Rightarrow> Done (Inl ENOENT, s))"

definition drop_old :: "'x vnode_ops \<Rightarrow> nat option \<Rightarrow> 'x vfs \<Rightarrow> 'x vfs outcome" where
  "drop_old ops old s = (case old of None \<Rightarrow> Done s | Some v \<Rightarrow> vnode_decref ops v s)"

definition vfs_setcurdir :: "'x vnode_ops \<Rightarrow> nat \<Rightarrow> 'x vop" where
  "vfs_setcurdir ops dir s =
     obind (vnode_check dir s) (\<lambda>_.
     obind (vop_gettype ops dir s) (\<lambda>(r, s). case r of Inl e \<Rightarrow> Done (Some e, s) | Inr vtype \<Rightarrow>
     if vtype \<noteq> S_IFDIR then Done (Some ENOTDIR, s) else
     obind (vnode_incref dir s) (\<lambda>s.
     let old = cwd s (curproc s); s = s\<lparr>cwd := (cwd s)(curproc s := Some dir)\<rparr> in
     obind (drop_old ops old s) (\<lambda>s. Done (None, s)))))"

definition vfs_clearcurdir :: "'x vnode_ops \<Rightarrow> 'x vop" where
  "vfs_clearcurdir ops s =
     (let old = cwd s (curproc s); s = s\<lparr>cwd := (cwd s)(curproc s := None)\<rparr> in
      obind (drop_old ops old s) (\<lambda>s. Done (None, s)))"

section \<open>Pathname translation\<close>

definition change_bootfs :: "'x vnode_ops \<Rightarrow> nat option \<Rightarrow> 'x vfs \<Rightarrow> 'x vfs outcome" where
  "change_bootfs ops newvn s =
     (let oldvn = bootfs_vnode s in drop_old ops oldvn (s\<lparr>bootfs_vnode := newvn\<rparr>))"

definition vfs_clearbootfs :: "'x vnode_ops \<Rightarrow> 'x vfs \<Rightarrow> 'x vfs outcome" where
  "vfs_clearbootfs ops s =
     obind (with_biglock (\<lambda>s. obind (change_bootfs ops None s) (\<lambda>s. Done ((), s))) s) (\<lambda>(_, s). Done s)"

text \<open>The first colon or slash: its position and whether it is a colon.\<close>

fun first_sep :: "string \<Rightarrow> nat \<Rightarrow> (nat \<times> bool) option" where
  "first_sep [] i = None"
| "first_sep (c # cs) i =
     (if c = CHR '':'' then Some (i, True)
      else if c = CHR ''/'' then Some (i, False)
      else first_sep cs (i + 1))"

definition skip_slashes :: "string \<Rightarrow> string" where
  "skip_slashes p = dropWhile (\<lambda>c. c = CHR ''/'') p"

text \<open>The result is the rest of the path and the vnode to start from.\<close>

definition getdevice :: "'x vnode_ops \<Rightarrow> string \<Rightarrow> ('x, string \<times> nat) vop_ret" where
  "getdevice ops path s =
     obind (kassert (vfs_biglock_do_i_hold s)) (\<lambda>_.
     if path = [] then Done (Inl EINVAL, s) else
     let sep = first_sep path 0;
         from = (\<lambda>sub (r, s). Done (case r of Inl e \<Rightarrow> Inl e | Inr v \<Rightarrow> Inr (sub, v), s)) in
     case sep of
       None \<Rightarrow> obind (vfs_getcurdir s) (from path)
     | Some (i, is_colon) \<Rightarrow>
         if \<not> is_colon \<and> i \<noteq> 0 then obind (vfs_getcurdir s) (from path)
         else if is_colon \<and> i > 0 then
           obind (vfs_getroot ops (take i path) s) (from (skip_slashes (drop (i + 1) path)))
         else if \<not> is_colon then
           (case bootfs_vnode s of
              None \<Rightarrow> Done (Inl ENOENT, s)
            | Some v \<Rightarrow> obind (vnode_incref v s) (\<lambda>s. Done (Inr (skip_slashes (drop 1 path), v), s)))
         else
           obind (vfs_getcurdir s) (\<lambda>(r, s). case r of Inl e \<Rightarrow> Done (Inl e, s) | Inr vn \<Rightarrow>
           obind (deref (vnodes s vn)) (\<lambda>n.
           case vn_fs n of None \<Rightarrow> Stop Panic | Some fs \<Rightarrow>
           obind (fsop_getroot ops fs s) (\<lambda>(r, s).
           obind (vnode_decref ops vn s) (\<lambda>s. from (skip_slashes (drop 1 path)) (r, s))))))"

definition vfs_lookparent :: "'x vnode_ops \<Rightarrow> string \<Rightarrow> nat \<Rightarrow> ('x, nat \<times> string) vop_ret" where
  "vfs_lookparent ops path buflen = with_biglock (\<lambda>s.
     obind (getdevice ops path s) (\<lambda>(r, s). case r of Inl e \<Rightarrow> Done (Inl e, s) | Inr (sub, startvn) \<Rightarrow>
     obind (if sub = [] then Done (Inl EINVAL, s)
            else obind (vnode_check startvn s) (\<lambda>_. vop_lookparent ops startvn sub buflen s)) (\<lambda>(r, s).
     obind (vnode_decref ops startvn s) (\<lambda>s. Done (r, s)))))"

definition vfs_lookup :: "'x vnode_ops \<Rightarrow> string \<Rightarrow> ('x, nat) vop_ret" where
  "vfs_lookup ops path = with_biglock (\<lambda>s.
     obind (getdevice ops path s) (\<lambda>(r, s). case r of Inl e \<Rightarrow> Done (Inl e, s) | Inr (sub, startvn) \<Rightarrow>
     if sub = [] then Done (Inr startvn, s) else
     obind (vnode_check startvn s) (\<lambda>_.
     obind (vop_lookup ops startvn sub s) (\<lambda>(r, s).
     obind (vnode_decref ops startvn s) (\<lambda>s. Done (r, s))))))"

definition vfs_chdir :: "'x vnode_ops \<Rightarrow> string \<Rightarrow> 'x vop" where
  "vfs_chdir ops path s =
     obind (vfs_lookup ops path s) (\<lambda>(r, s). case r of Inl e \<Rightarrow> Done (Some e, s) | Inr vn \<Rightarrow>
     obind (vfs_setcurdir ops vn s) (\<lambda>(r, s).
     obind (vnode_decref ops vn s) (\<lambda>s. Done (r, s))))"

text \<open>\<^verbatim>\<open>snprintf(tmp, sizeof(tmp)-1, ...)\<close> keeps at most \<open>NAME_MAX - 1\<close> characters.\<close>

definition vfs_setbootfs :: "'x vnode_ops \<Rightarrow> string \<Rightarrow> 'x vop" where
  "vfs_setbootfs ops fsname = with_biglock (\<lambda>s.
     let tmp = take (NAME_MAX - 1) fsname;
         at_colon = dropWhile (\<lambda>c. c \<noteq> CHR '':'') tmp in
     if at_colon \<noteq> [] \<and> length at_colon > 0 then Done (Some EINVAL, s) else
     let tmp = tmp @ '':'' in
     obind (vfs_chdir ops tmp s) (\<lambda>(r, s). if r \<noteq> None then Done (r, s) else
     obind (vfs_getcurdir s) (\<lambda>(r, s). case r of Inl e \<Rightarrow> Done (Some e, s) | Inr newguy \<Rightarrow>
     obind (change_bootfs ops (Some newguy) s) (\<lambda>s. Done (None, s)))))"

section \<open>Operations on pathnames\<close>

definition vfs_open :: "'x vnode_ops \<Rightarrow> string \<Rightarrow> u32 \<Rightarrow> u32 \<Rightarrow> ('x, nat) vop_ret" where
  "vfs_open ops path openflags mode s =
     (let how = openflags AND O_ACCMODE in
      if how \<noteq> O_RDONLY \<and> how \<noteq> O_WRONLY \<and> how \<noteq> O_RDWR then Done (Inl EINVAL, s) else
      let canwrite = (how \<noteq> O_RDONLY) in
      obind (if openflags AND O_CREAT \<noteq> 0 then
               obind (vfs_lookparent ops path (NAME_MAX + 1) s) (\<lambda>(r, s).
               case r of Inl e \<Rightarrow> Done (Inl e, s) | Inr (dir, name) \<Rightarrow>
               obind (vnode_check dir s) (\<lambda>_.
               obind (vop_creat ops dir name (openflags AND O_EXCL \<noteq> 0) mode s) (\<lambda>(r, s).
               obind (vnode_decref ops dir s) (\<lambda>s. Done (r, s)))))
             else vfs_lookup ops path s) (\<lambda>(r, s).
      case r of Inl e \<Rightarrow> Done (Inl e, s) | Inr vn \<Rightarrow>
      obind (vnode_check vn s) (\<lambda>_.
      obind (vop_eachopen ops vn openflags s) (\<lambda>(r, s).
      case r of Some e \<Rightarrow> obind (vnode_decref ops vn s) (\<lambda>s. Done (Inl e, s)) | None \<Rightarrow>
      if openflags AND O_TRUNC \<noteq> 0 then
        obind (if \<not> canwrite then Done (Some EINVAL, s)
               else obind (vnode_check vn s) (\<lambda>_. vop_truncate ops vn 0 s)) (\<lambda>(r, s).
        case r of Some e \<Rightarrow> obind (vnode_decref ops vn s) (\<lambda>s. Done (Inl e, s)) | None \<Rightarrow> Done (Inr vn, s))
      else Done (Inr vn, s)))))"

definition vfs_close :: "'x vnode_ops \<Rightarrow> nat \<Rightarrow> 'x vfs \<Rightarrow> 'x vfs outcome" where
  "vfs_close ops vn s = vnode_decref ops vn s"

text \<open>The common shape of \<^verbatim>\<open>vfs_remove\<close>, \<^verbatim>\<open>vfs_symlink\<close>, \<^verbatim>\<open>vfs_mkdir\<close> and \<^verbatim>\<open>vfs_rmdir\<close>.\<close>

definition in_parent :: "'x vnode_ops \<Rightarrow> string \<Rightarrow> (nat \<Rightarrow> string \<Rightarrow> 'x vop) \<Rightarrow> 'x vop" where
  "in_parent ops path f s =
     obind (vfs_lookparent ops path (NAME_MAX + 1) s) (\<lambda>(r, s).
     case r of Inl e \<Rightarrow> Done (Some e, s) | Inr (dir, name) \<Rightarrow>
     obind (vnode_check dir s) (\<lambda>_.
     obind (f dir name s) (\<lambda>(r, s).
     obind (vnode_decref ops dir s) (\<lambda>s. Done (r, s)))))"

definition vfs_remove :: "'x vnode_ops \<Rightarrow> string \<Rightarrow> 'x vop" where
  "vfs_remove ops path = in_parent ops path (vop_remove ops)"

definition vfs_symlink :: "'x vnode_ops \<Rightarrow> string \<Rightarrow> string \<Rightarrow> 'x vop" where
  "vfs_symlink ops contents path = in_parent ops path (\<lambda>dir name. vop_symlink ops dir name contents)"

definition vfs_mkdir :: "'x vnode_ops \<Rightarrow> string \<Rightarrow> u32 \<Rightarrow> 'x vop" where
  "vfs_mkdir ops path mode = in_parent ops path (\<lambda>dir name. vop_mkdir ops dir name mode)"

definition vfs_rmdir :: "'x vnode_ops \<Rightarrow> string \<Rightarrow> 'x vop" where
  "vfs_rmdir ops path = in_parent ops path (vop_rmdir ops)"

definition same_fs :: "nat \<Rightarrow> nat \<Rightarrow> 'x vfs \<Rightarrow> bool outcome" where
  "same_fs v w s =
     obind (deref (vnodes s v)) (\<lambda>n. obind (deref (vnodes s w)) (\<lambda>m.
     Done (vn_fs n \<noteq> None \<and> vn_fs m \<noteq> None \<and> vn_fs n = vn_fs m)))"

definition decref2 :: "'x vnode_ops \<Rightarrow> nat \<Rightarrow> nat \<Rightarrow> 'x vfs \<Rightarrow> 'x vfs outcome" where
  "decref2 ops v w s = obind (vnode_decref ops v s) (\<lambda>s. vnode_decref ops w s)"

definition vfs_rename :: "'x vnode_ops \<Rightarrow> string \<Rightarrow> string \<Rightarrow> 'x vop" where
  "vfs_rename ops oldpath newpath s =
     obind (vfs_lookparent ops oldpath (NAME_MAX + 1) s) (\<lambda>(r, s).
     case r of Inl e \<Rightarrow> Done (Some e, s) | Inr (olddir, oldname) \<Rightarrow>
     obind (vfs_lookparent ops newpath (NAME_MAX + 1) s) (\<lambda>(r, s).
     case r of Inl e \<Rightarrow> obind (vnode_decref ops olddir s) (\<lambda>s. Done (Some e, s)) | Inr (newdir, newname) \<Rightarrow>
     obind (same_fs olddir newdir s) (\<lambda>same.
     obind (if \<not> same then Done (Some EXDEV, s)
            else obind (vnode_check olddir s) (\<lambda>_. vop_rename ops olddir oldname newdir newname s)) (\<lambda>(r, s).
     obind (decref2 ops newdir olddir s) (\<lambda>s. Done (r, s))))))"

definition vfs_link :: "'x vnode_ops \<Rightarrow> string \<Rightarrow> string \<Rightarrow> 'x vop" where
  "vfs_link ops oldpath newpath s =
     obind (vfs_lookup ops oldpath s) (\<lambda>(r, s).
     case r of Inl e \<Rightarrow> Done (Some e, s) | Inr oldfile \<Rightarrow>
     obind (vfs_lookparent ops newpath (NAME_MAX + 1) s) (\<lambda>(r, s).
     case r of Inl e \<Rightarrow> obind (vnode_decref ops oldfile s) (\<lambda>s. Done (Some e, s)) | Inr (newdir, newname) \<Rightarrow>
     obind (same_fs oldfile newdir s) (\<lambda>same.
     obind (if \<not> same then Done (Some EXDEV, s)
            else obind (vnode_check newdir s) (\<lambda>_. vop_link ops newdir newname oldfile s)) (\<lambda>(r, s).
     obind (decref2 ops newdir oldfile s) (\<lambda>s. Done (r, s))))))"

definition vfs_readlink ::
  "'x vnode_ops \<Rightarrow> string \<Rightarrow> uio \<Rightarrow> memory \<Rightarrow> 'x vfs \<Rightarrow> (errno option \<times> uio \<times> memory \<times> 'x vfs) outcome" where
  "vfs_readlink ops path u m s =
     obind (vfs_lookup ops path s) (\<lambda>(r, s).
     case r of Inl e \<Rightarrow> Done (Some e, u, m, s) | Inr vn \<Rightarrow>
     obind (vnode_check vn s) (\<lambda>_.
     obind (vop_readlink ops vn u m s) (\<lambda>(r, u, m, s).
     obind (vnode_decref ops vn s) (\<lambda>s. Done (r, u, m, s)))))"

text \<open>The volume name and the local \<^verbatim>\<open>colon\<close> are the kernel objects \<open>name_ob\<close> and \<open>colon_ob\<close>;
  \<open>curas\<close> is the current address space.\<close>

definition string_bytes :: "string \<Rightarrow> u8 list" where
  "string_bytes cs = map (\<lambda>c. of_char c) cs"

definition vfs_getcwd ::
  "'x vnode_ops \<Rightarrow> nat option \<Rightarrow> nat \<Rightarrow> nat \<Rightarrow> uio \<Rightarrow> memory \<Rightarrow> 'x vfs \<Rightarrow>
   (errno option \<times> uio \<times> memory \<times> 'x vfs) outcome" where
  "vfs_getcwd ops curas name_ob colon_ob u m s =
     obind (kassert (uio_rw u = UIO_READ)) (\<lambda>_.
     obind (vfs_getcurdir s) (\<lambda>(r, s). case r of Inl e \<Rightarrow> Done (Some e, u, m, s) | Inr dir \<Rightarrow>
     obind (deref (vnodes s dir)) (\<lambda>n.
     case vn_fs n of None \<Rightarrow> Stop Panic | Some fs \<Rightarrow>
     obind (case fsop_getvolname ops fs s of
              Some nm \<Rightarrow> Done (Some nm, s)
            | None \<Rightarrow> with_biglock (\<lambda>s. obind (vfs_getdevname fs s) (\<lambda>nm. Done (nm, s))) s) (\<lambda>(name, s).
     case name of None \<Rightarrow> Stop Panic | Some nm \<Rightarrow>
     let m = m\<lparr>kobj := (kobj m)(name_ob \<mapsto> string_bytes nm, colon_ob \<mapsto> [0x3a])\<rparr> in
     obind (obind (uiomove curas (KPtr name_ob 0) (of_nat (length nm)) u m) (\<lambda>(r, u, m).
            if r \<noteq> None then Done (r, u, m, s) else
            obind (uiomove curas (KPtr colon_ob 0) 1 u m) (\<lambda>(r, u, m).
            if r \<noteq> None then Done (r, u, m, s) else
            obind (vnode_check dir s) (\<lambda>_. vop_namefile ops dir u m s)))) (\<lambda>(r, u, m, s).
     obind (vnode_decref ops dir s) (\<lambda>s. Done (r, u, m, s)))))))"

end
