(* ===== verification/VfsRefs.thy ===== *)
theory VfsRefs
  imports Vfs
begin

text \<open>
  Reference counting in the VFS layer: every operation on pathnames gives back each
  reference it takes, on every path.
\<close>

section \<open>Accounting\<close>

definition ref :: "'x vfs \<Rightarrow> nat \<Rightarrow> int" where
  "ref s v = (case vnodes s v of None \<Rightarrow> 0 | Some n \<Rightarrow> vn_refcount n)"

text \<open>\<open>f\<close> is the net number of references taken.  The count of a vnode that is in use changes by
  exactly that; a vnode that was not in core may stay there with one count more, which is
  the state \<^verbatim>\<open>VOP_RECLAIM\<close> leaves when it does not drop it.\<close>

definition acct :: "'x vfs \<Rightarrow> 'x vfs \<Rightarrow> (nat \<Rightarrow> int) \<Rightarrow> bool" where
  "acct s s' f \<longleftrightarrow>
     (\<forall>v. if ref s v > 0 then ref s' v = ref s v + f v else f v \<le> ref s' v \<and> ref s' v \<le> f v + 1)"

definition one :: "nat \<Rightarrow> nat \<Rightarrow> int" where
  "one v w = (if w = v then 1 else 0)"

definition none :: "nat \<Rightarrow> int" where
  "none w = 0"

text \<open>What a file system must leave alone.\<close>

definition same_ctx :: "'x vfs \<Rightarrow> 'x vfs \<Rightarrow> bool" where
  "same_ctx s s' \<longleftrightarrow> knowndevs s' = knowndevs s \<and> vfs_biglock s' = vfs_biglock s \<and>
     vfs_biglock_depth s' = vfs_biglock_depth s \<and> bootfs_vnode s' = bootfs_vnode s \<and> cwd s' = cwd s \<and>
     curthread s' = curthread s \<and> curproc s' = curproc s"

definition same_fs_of :: "'x vfs \<Rightarrow> 'x vfs \<Rightarrow> bool" where
  "same_fs_of s s' \<longleftrightarrow> (\<forall>v n n'. vnodes s v = Some n \<longrightarrow> vn_refcount n > 0 \<longrightarrow> vnodes s' v = Some n' \<longrightarrow>
     vn_refcount n' > 0 \<longrightarrow> vn_fs n' = vn_fs n)"

definition vnodes_ok :: "'x vfs \<Rightarrow> bool" where
  "vnodes_ok s \<longleftrightarrow> (\<forall>v n. vnodes s v = Some n \<longrightarrow> 0 \<le> vn_refcount n \<and> (0 < vn_refcount n \<longrightarrow> vn_ops n \<noteq> None))"

definition kd_ok :: "knowndev \<Rightarrow> bool" where
  "kd_ok kd \<longleftrightarrow> (kd_rawname kd \<noteq> None \<longrightarrow> kd_device kd \<noteq> None) \<and>
     (kd_rawname kd = None \<longrightarrow> kd_fs kd \<noteq> Some SWAP_FS \<and> (kd_fs kd = None \<longrightarrow> kd_device kd \<noteq> None))"

definition lock_ok :: "'x vfs \<Rightarrow> bool" where
  "lock_ok s \<longleftrightarrow> vfs_biglock s = None \<and> vfs_biglock_depth s = 0 \<or>
     vfs_biglock s = Some (curthread s) \<and> 0 < vfs_biglock_depth s"

text \<open>The references that the layer itself holds on a vnode: current directories, the boot file
  system and the list of devices.  \<open>E\<close> counts those of everybody else; no vnode has more
  holders than its count.\<close>

definition held :: "'x vfs \<Rightarrow> nat \<Rightarrow> int" where
  "held s v = int (card {p. cwd s p = Some v}) + (if bootfs_vnode s = Some v then 1 else 0) +
     int (length (filter (\<lambda>kd. kd_vnode kd = v) (knowndevs s)))"

definition vfs_ok :: "(nat \<Rightarrow> int) \<Rightarrow> 'x vfs \<Rightarrow> bool" where
  "vfs_ok E s \<longleftrightarrow> vnodes_ok s \<and> lock_ok s \<and> finite {p. cwd s p \<noteq> None} \<and>
     (\<forall>v. 0 \<le> E v \<and> held s v + E v \<le> ref s v) \<and>
     (\<forall>p v. cwd s p = Some v \<longrightarrow> (\<exists>n. vnodes s v = Some n \<and> vn_fs n \<noteq> None)) \<and>
     (\<forall>kd\<in>set (knowndevs s). kd_ok kd)"

definition fs_step :: "'x vfs \<Rightarrow> 'x vfs \<Rightarrow> (nat \<Rightarrow> int) \<Rightarrow> bool" where
  "fs_step s s' f \<longleftrightarrow> same_ctx s s' \<and> acct s s' f \<and> same_fs_of s s' \<and> vnodes_ok s'"

definition fs_live :: "'x vfs \<Rightarrow> nat \<Rightarrow> bool" where
  "fs_live s fs \<longleftrightarrow> (\<exists>kd\<in>set (knowndevs s). kd_fs kd = Some (MountedFs fs)) \<or>
     (\<exists>v n. vnodes s v = Some n \<and> vn_refcount n > 0 \<and> vn_fs n = Some fs)"

text \<open>Two states that differ in counts, locks and directories only.\<close>

definition vnode_static :: "vnode \<Rightarrow> nat option \<times> nat option \<times> vops_tag option" where
  "vnode_static n = (vn_fs n, vn_data n, vn_ops n)"

definition fs_same :: "'x vfs \<Rightarrow> 'x vfs \<Rightarrow> bool" where
  "fs_same s s' \<longleftrightarrow> fsx s' = fsx s \<and> knowndevs s' = knowndevs s \<and>
     (\<forall>v. map_option vnode_static (vnodes s' v) = map_option vnode_static (vnodes s v) \<and>
          (ref s' v > 0 \<longleftrightarrow> ref s v > 0))"

lemma ref_pos_iff: "ref s v > 0 \<longleftrightarrow> (\<exists>n. vnodes s v = Some n \<and> vn_refcount n > 0)"
  by (auto simp: ref_def split: option.splits)

lemma ref_zero: "vnodes_ok s \<Longrightarrow> \<not> ref s v > 0 \<Longrightarrow> ref s v = 0"
  by (force simp: ref_def vnodes_ok_def split: option.splits)

lemma acctD:
  assumes "acct s s' f"
  shows "ref s v > 0 \<Longrightarrow> ref s' v = ref s v + f v"
    and "\<not> ref s v > 0 \<Longrightarrow> f v \<le> ref s' v \<and> ref s' v \<le> f v + 1"
  using assms [unfolded acct_def, rule_format, of v] by simp_all

lemma acct_comp:
  assumes "acct s s1 f" "acct s1 s2 g" "\<And>v. 0 \<le> f v"
  shows "acct s s2 (\<lambda>v. f v + g v)"
  unfolding acct_def
proof
  fix v
  show "if ref s v > 0 then ref s2 v = ref s v + (f v + g v)
    else f v + g v \<le> ref s2 v \<and> ref s2 v \<le> f v + g v + 1"
    using acctD [OF assms(1), of v] acctD [OF assms(2), of v] assms(3) [of v]
    by (cases "ref s v > 0"; cases "ref s1 v > 0") auto
qed

lemma same_fs_of_comp:
  assumes "same_fs_of s s1" "same_fs_of s1 s2" "\<And>v. ref s v > 0 \<Longrightarrow> ref s2 v > 0 \<Longrightarrow> ref s1 v > 0"
  shows "same_fs_of s s2"
  unfolding same_fs_of_def
proof (intro allI impI)
  fix v n n2
  assume h: "vnodes s v = Some n" "0 < vn_refcount n" "vnodes s2 v = Some n2" "0 < vn_refcount n2"
  then obtain n1 where "vnodes s1 v = Some n1" "0 < vn_refcount n1"
    using assms(3) [of v] by (auto simp: ref_def split: option.splits)
  then show "vn_fs n2 = vn_fs n" using assms(1,2) h unfolding same_fs_of_def by metis
qed

lemma fs_step_comp:
  assumes "fs_step s s1 f" "fs_step s1 s2 g" "\<And>v. 0 \<le> f v"
  shows "fs_step s s2 (\<lambda>v. f v + g v)"
proof -
  have "ref s1 v > 0" if "ref s v > 0" for v
    using that assms(1) assms(3) [of v] acctD(1) by (fastforce simp: fs_step_def)
  then have "same_fs_of s s2" using assms(1,2) by (intro same_fs_of_comp [of s s1 s2]) (auto simp: fs_step_def)
  then show ?thesis using assms acct_comp [of s s1 f s2 g] by (simp add: fs_step_def same_ctx_def)
qed

lemma fs_step_refl: "vnodes_ok s \<Longrightarrow> fs_step s s none"
  by (auto simp: fs_step_def same_ctx_def acct_def none_def same_fs_of_def ref_zero)

text \<open>What the invariant gives.\<close>

lemma vfs_okD:
  assumes "vfs_ok E s"
  shows "vnodes_ok s" "lock_ok s" "0 \<le> E v" "held s v + E v \<le> ref s v"
    "kd \<in> set (knowndevs s) \<Longrightarrow> kd_ok kd"
    "cwd s p = Some v \<Longrightarrow> \<exists>n. vnodes s v = Some n \<and> vn_fs n \<noteq> None"
  using assms by (auto simp: vfs_ok_def)

lemma held_nonneg: "0 \<le> held s v"
  by (simp add: held_def)

lemma vfs_ok_refs:
  assumes "vfs_ok E s"
  shows "cwd s p = Some v \<Longrightarrow> ref s v > 0" "bootfs_vnode s = Some v \<Longrightarrow> ref s v > 0"
    "kd \<in> set (knowndevs s) \<Longrightarrow> ref s (kd_vnode kd) > 0" "E v > 0 \<Longrightarrow> ref s v > 0"
proof -
  note k = vfs_okD(3,4) [OF assms]
  show "ref s v > 0" if h: "cwd s p = Some v"
  proof -
    have "{p. cwd s p = Some v} \<subseteq> {p. cwd s p \<noteq> None}" by auto
    then have "finite {p. cwd s p = Some v}" using assms unfolding vfs_ok_def by (meson finite_subset)
    then have "card {p. cwd s p = Some v} > 0" using h by (auto simp: card_gt_0_iff)
    then show ?thesis using k [of v] by (simp add: held_def split: if_splits)
  qed
  show "ref s v > 0" if "bootfs_vnode s = Some v" using that k [of v] by (simp add: held_def)
  show "ref s (kd_vnode kd) > 0" if "kd \<in> set (knowndevs s)"
  proof -
    have "length (filter (\<lambda>k. kd_vnode k = kd_vnode kd) (knowndevs s)) > 0"
      using that by (auto simp: length_greater_0_conv filter_empty_conv)
    then show ?thesis using k [of "kd_vnode kd"] unfolding held_def by (simp only: split: if_splits)
  qed
  show "ref s v > 0" if "E v > 0" using that k [of v] held_nonneg [of s v] by linarith
qed

lemma vfs_ok_step:
  assumes "vfs_ok E s" "fs_step s s' f" "\<And>v. 0 \<le> E v + f v"
  shows "vfs_ok (\<lambda>v. E v + f v) s'"
proof -
  have ctx: "knowndevs s' = knowndevs s" "cwd s' = cwd s" "bootfs_vnode s' = bootfs_vnode s" "held s' v = held s v" for v
    using assms(2) by (simp_all add: fs_step_def same_ctx_def held_def)
  have r: "held s' v + (E v + f v) \<le> ref s' v" for v
  proof (cases "ref s v > 0")
    case True
    then show ?thesis using acctD(1) [of s s' f v] assms(2) vfs_okD(4) [OF assms(1), of v] ctx(4) [of v]
      by (simp add: fs_step_def)
  next
    case False
    then have "held s v + E v = 0"
      using ref_zero [OF vfs_okD(1) [OF assms(1)], of v] vfs_okD(3,4) [OF assms(1), of v] held_nonneg [of s v] by linarith
    then show ?thesis using False acctD(2) [of s s' f v] assms(2) ctx(4) [of v] by (simp add: fs_step_def)
  qed
  have "\<exists>n. vnodes s' v = Some n \<and> vn_fs n \<noteq> None" if h: "cwd s p = Some v" for p v
  proof -
    obtain n where n: "vnodes s v = Some n" "vn_fs n \<noteq> None" "vn_refcount n > 0"
      using vfs_okD(6) [OF assms(1) h] vfs_ok_refs(1) [OF assms(1) h] by (auto simp: ref_def)
    have "{p. cwd s p = Some v} \<subseteq> {p. cwd s p \<noteq> None}" by auto
    then have "finite {p. cwd s p = Some v}" using assms unfolding vfs_ok_def by (meson finite_subset)
    then have "0 < held s v" using h by (auto simp: held_def card_gt_0_iff intro!: add_pos_nonneg)
    then have "ref s' v > 0" using r [of v] assms(3) [of v] ctx(4) [of v] by linarith
    then obtain n' where n': "vnodes s' v = Some n'" "vn_refcount n' > 0" by (auto simp: ref_pos_iff)
    then have "vn_fs n' = vn_fs n" using assms(2) n n' unfolding fs_step_def same_fs_of_def by metis
    then show ?thesis using n(2) n'(1) by simp
  qed
  then show ?thesis using assms r ctx by (auto simp: vfs_ok_def fs_step_def same_ctx_def lock_ok_def)
qed

section \<open>Taking and dropping one reference\<close>

lemma vnode_check_ok: "vnodes_ok s \<Longrightarrow> ref s v > 0 \<Longrightarrow> vnode_check v s = Done ()"
  by (auto simp: vnode_check_def ref_pos_iff vnodes_ok_def kassert_def)

lemma set_count:
  assumes "vnodes s v = Some n" "vn_refcount n > 0" "k > 0" "vnodes_ok s"
  shows "fs_step s (s\<lparr>vnodes := (vnodes s)(v \<mapsto> n\<lparr>vn_refcount := k\<rparr>)\<rparr>) (\<lambda>w. if w = v then k - vn_refcount n else 0)"
    and "fs_same s (s\<lparr>vnodes := (vnodes s)(v \<mapsto> n\<lparr>vn_refcount := k\<rparr>)\<rparr>)"
proof -
  let ?s = "s\<lparr>vnodes := (vnodes s)(v \<mapsto> n\<lparr>vn_refcount := k\<rparr>)\<rparr>"
  have r: "ref ?s w = (if w = v then k else ref s w)" for w by (simp add: ref_def fun_upd_apply)
  have "ref s v = vn_refcount n" using assms(1) by (simp add: ref_def)
  then have "acct s ?s (\<lambda>w. if w = v then k - vn_refcount n else 0)"
    using assms(2-4) by (auto simp: acct_def r ref_zero)
  moreover have "vnodes_ok ?s" using assms by (auto simp: vnodes_ok_def fun_upd_apply)
  ultimately show "fs_step s ?s (\<lambda>w. if w = v then k - vn_refcount n else 0)"
    using assms(1) by (auto simp: fs_step_def same_ctx_def same_fs_of_def fun_upd_apply)
  show "fs_same s ?s" using assms(1-3) r by (auto simp: fs_same_def vnode_static_def fun_upd_apply ref_def)
qed

lemma vnode_incref_ok:
  assumes "vnodes_ok s" "ref s v > 0"
  shows "\<exists>s'. vnode_incref v s = Done s' \<and> fs_step s s' (one v) \<and> fs_same s s'"
proof -
  obtain n where n: "vnodes s v = Some n" "vn_refcount n > 0" using assms(2) by (auto simp: ref_pos_iff)
  have "(\<lambda>w. if w = v then vn_refcount n + 1 - vn_refcount n else 0) = one v" by (auto simp: one_def)
  then show ?thesis using set_count [OF n _ assms(1), of "vn_refcount n + 1"] n by (simp add: vnode_incref_def)
qed

section \<open>The contract of a file system\<close>

text \<open>\<open>returns I Q s m\<close>: the operation \<open>m\<close>, run in \<open>s\<close>, returns, keeps the file system's own
  invariant \<open>I\<close> and takes exactly the references \<open>Q r\<close> for its result \<open>r\<close>.\<close>

definition returns :: "('x vfs \<Rightarrow> bool) \<Rightarrow> ('r \<Rightarrow> nat \<Rightarrow> int) \<Rightarrow> 'x vfs \<Rightarrow> ('r \<times> 'x vfs) outcome \<Rightarrow> bool" where
  "returns I Q s m \<longleftrightarrow> (\<exists>r s'. m = Done (r, s') \<and> I s' \<and> fs_step s s' (Q r))"

definition no_refs :: "'r \<Rightarrow> nat \<Rightarrow> int" where
  "no_refs r = none"

definition handed :: "errno + nat \<Rightarrow> nat \<Rightarrow> int" where
  "handed r = (case r of Inl e \<Rightarrow> none | Inr v \<Rightarrow> one v)"

definition handed_dir :: "errno + nat \<times> string \<Rightarrow> nat \<Rightarrow> int" where
  "handed_dir r = (case r of Inl e \<Rightarrow> none | Inr (v, name) \<Rightarrow> one v)"

definition handed_start :: "errno + string \<times> nat \<Rightarrow> nat \<Rightarrow> int" where
  "handed_start r = (case r of Inl e \<Rightarrow> none | Inr (sub, v) \<Rightarrow> one v)"

lemma handed_simps [simp]:
  "no_refs x = none" "handed (Inl e) = none" "handed (Inr v) = one v"
  "handed_dir (Inl e) = none" "handed_dir (Inr (v, name)) = one v"
  "handed_start (Inl e) = none" "handed_start (Inr (sub, v)) = one v"
  by (simp_all add: no_refs_def handed_def handed_dir_def handed_start_def)

locale filesystem =
  fixes ops :: "'x vnode_ops" and I :: "'x vfs \<Rightarrow> bool"
  assumes I_same: "I s \<Longrightarrow> fs_same s s' \<Longrightarrow> I s'"
    and reclaim_law: "vnodes_ok s \<Longrightarrow> I s \<Longrightarrow> ref s v = 1 \<Longrightarrow>
      \<exists>r s'. vop_reclaim ops v s = Done (r, s') \<and> I s' \<and> same_ctx s s' \<and> same_fs_of s s' \<and> vnodes_ok s' \<and>
        (\<forall>w. w \<noteq> v \<longrightarrow> ref s' w = ref s w) \<and> 0 \<le> ref s' v \<and> ref s' v \<le> 1"
    and eachopen_law: "vnodes_ok s \<Longrightarrow> I s \<Longrightarrow> ref s v > 0 \<Longrightarrow> returns I no_refs s (vop_eachopen ops v fl s)"
    and truncate_law: "vnodes_ok s \<Longrightarrow> I s \<Longrightarrow> ref s v > 0 \<Longrightarrow> returns I no_refs s (vop_truncate ops v n s)"
    and gettype_law: "vnodes_ok s \<Longrightarrow> I s \<Longrightarrow> ref s v > 0 \<Longrightarrow> returns I no_refs s (vop_gettype ops v s)"
    and dir_law: "vnodes_ok s \<Longrightarrow> I s \<Longrightarrow> ref s v > 0 \<Longrightarrow> vop_gettype ops v s = Done (Inr S_IFDIR, s') \<Longrightarrow>
      \<exists>n. vnodes s' v = Some n \<and> vn_fs n \<noteq> None"
    and symlink_law: "vnodes_ok s \<Longrightarrow> I s \<Longrightarrow> ref s v > 0 \<Longrightarrow> returns I no_refs s (vop_symlink ops v nm c s)"
    and mkdir_law: "vnodes_ok s \<Longrightarrow> I s \<Longrightarrow> ref s v > 0 \<Longrightarrow> returns I no_refs s (vop_mkdir ops v nm md s)"
    and remove_law: "vnodes_ok s \<Longrightarrow> I s \<Longrightarrow> ref s v > 0 \<Longrightarrow> returns I no_refs s (vop_remove ops v nm s)"
    and rmdir_law: "vnodes_ok s \<Longrightarrow> I s \<Longrightarrow> ref s v > 0 \<Longrightarrow> returns I no_refs s (vop_rmdir ops v nm s)"
    and link_law: "vnodes_ok s \<Longrightarrow> I s \<Longrightarrow> ref s v > 0 \<Longrightarrow> ref s w > 0 \<Longrightarrow>
      returns I no_refs s (vop_link ops v nm w s)"
    and rename_law: "vnodes_ok s \<Longrightarrow> I s \<Longrightarrow> ref s v > 0 \<Longrightarrow> ref s w > 0 \<Longrightarrow>
      returns I no_refs s (vop_rename ops v nm w nm' s)"
    and creat_law: "vnodes_ok s \<Longrightarrow> I s \<Longrightarrow> ref s v > 0 \<Longrightarrow> returns I handed s (vop_creat ops v nm ex md s)"
    and lookup_law: "vnodes_ok s \<Longrightarrow> I s \<Longrightarrow> ref s v > 0 \<Longrightarrow> returns I handed s (vop_lookup ops v p s)"
    and lookparent_law: "vnodes_ok s \<Longrightarrow> I s \<Longrightarrow> ref s v > 0 \<Longrightarrow>
      returns I handed_dir s (vop_lookparent ops v p len s)"
    and getroot_law: "vnodes_ok s \<Longrightarrow> I s \<Longrightarrow> fs_live s fs \<Longrightarrow> returns I handed s (fsop_getroot ops fs s)"
begin

text \<open>Everything that happened since \<open>s0\<close>, with \<open>f\<close> the references now held on top.\<close>

definition since :: "(nat \<Rightarrow> int) \<Rightarrow> 'x vfs \<Rightarrow> (nat \<Rightarrow> int) \<Rightarrow> 'x vfs \<Rightarrow> bool" where
  "since E s0 f s \<longleftrightarrow> vfs_ok E s0 \<and> I s \<and> fs_step s0 s f \<and> (\<forall>v. 0 \<le> f v)"

lemma since_start: "vfs_ok E s \<Longrightarrow> I s \<Longrightarrow> since E s none s"
  using fs_step_refl vfs_okD(1) by (auto simp: since_def none_def)

lemma since_ok: "since E s0 f s \<Longrightarrow> vfs_ok (\<lambda>v. E v + f v) s"
  using vfs_ok_step [of E s0 s f] vfs_okD(3) [of E s0] by (simp add: since_def)

lemma since_facts:
  assumes "since E s0 f s"
  shows "I s" "vnodes_ok s" "f v > 0 \<Longrightarrow> ref s v > 0" "ref s0 v > 0 \<Longrightarrow> ref s v > 0"
proof -
  note ok = since_ok [OF assms]
  show "I s" "vnodes_ok s" using assms ok by (auto simp: since_def vfs_ok_def)
  show "ref s v > 0" if "f v > 0"
    using vfs_ok_refs(4) [OF ok, of v] that assms vfs_okD(3) [of E s0 v] by (simp add: since_def)
  show "ref s v > 0" if "ref s0 v > 0"
  proof -
    have "ref s v = ref s0 v + f v" using assms that acctD(1) by (auto simp: since_def fs_step_def)
    then show ?thesis using assms that by (simp add: since_def add_pos_nonneg)
  qed
qed

lemma since_op:
  assumes "since E s0 f s" "returns I Q s m" "\<And>r v. 0 \<le> Q r v"
  obtains r s' where "m = Done (r, s')" "since E s0 (\<lambda>v. f v + Q r v) s'"
proof -
  obtain r s' where h: "m = Done (r, s')" "I s'" "fs_step s s' (Q r)" using assms(2) by (auto simp: returns_def)
  have "fs_step s0 s' (\<lambda>v. f v + Q r v)" using assms(1) h(3) by (intro fs_step_comp [of s0 s]) (auto simp: since_def)
  then show thesis using that h assms(1,3) by (auto simp: since_def)
qed

lemma since_incref:
  assumes "since E s0 f s" "ref s v > 0"
  obtains s' where "vnode_incref v s = Done s'" "since E s0 (\<lambda>w. f w + one v w) s'"
proof -
  obtain s' where h: "vnode_incref v s = Done s'" "fs_step s s' (one v)" "fs_same s s'"
    using vnode_incref_ok [OF since_facts(2) [OF assms(1)] assms(2)] by blast
  have "fs_step s0 s' (\<lambda>w. f w + one v w)" using assms(1) h(2) by (intro fs_step_comp [of s0 s]) (auto simp: since_def)
  then show thesis using that h I_same assms(1) by (auto simp: since_def one_def)
qed

text \<open>Dropping a reference taken since \<open>s0\<close>.\<close>

lemma since_decref:
  assumes "since E s0 f s" "f v > 0"
  obtains s' where "vnode_decref ops v s = Done s'" "since E s0 (\<lambda>w. f w - one v w) s'"
proof -
  have fs: "fs_step s0 s f" "I s" "vnodes_ok s" "\<And>w. 0 \<le> f w" "vnodes_ok s0" "vfs_ok E s0"
    using assms(1) since_facts [OF assms(1)] by (auto simp: since_def vfs_ok_def)
  obtain n where n: "vnodes s v = Some n" "vn_refcount n > 0" "ref s v = vn_refcount n"
    using since_facts(3) [OF assms] by (auto simp: ref_def split: option.splits)
  have nn: "0 \<le> f w - one v w" for w using fs(4) [of w] assms(2) by (simp add: one_def)
  show thesis
  proof (cases "vn_refcount n > 1")
    case True
    let ?s = "s\<lparr>vnodes := (vnodes s)(v \<mapsto> n\<lparr>vn_refcount := vn_refcount n - 1\<rparr>)\<rparr>"
    have "fs_step s ?s (\<lambda>w. if w = v then vn_refcount n - 1 - vn_refcount n else 0)" "fs_same s ?s"
      using set_count [OF n(1,2) _ fs(3), of "vn_refcount n - 1"] True by auto
    moreover have "(\<lambda>w. if w = v then vn_refcount n - 1 - vn_refcount n else 0) = (\<lambda>w. - one v w)" by (auto simp: one_def)
    ultimately have st: "fs_step s ?s (\<lambda>w. - one v w)" "fs_same s ?s" by simp_all
    have "fs_step s0 ?s (\<lambda>w. f w + - one v w)" by (rule fs_step_comp [OF fs(1) st(1) fs(4)])
    then have "since E s0 (\<lambda>w. f w - one v w) ?s" using fs nn I_same st(2) by (simp add: since_def)
    then show thesis using that n True by (simp add: vnode_decref_def)
  next
    case False
    then have one: "ref s v = 1" using n by simp
    obtain r s' where h: "vop_reclaim ops v s = Done (r, s')" "I s'" "same_ctx s s'" "same_fs_of s s'" "vnodes_ok s'"
      "\<And>w. w \<noteq> v \<Longrightarrow> ref s' w = ref s w" "0 \<le> ref s' v" "ref s' v \<le> 1"
      using reclaim_law [OF fs(3,2) one] by blast
    have ac: "acct s0 s f" using fs(1) by (simp add: fs_step_def)
    have z: "\<not> ref s0 v > 0" using acctD(1) [OF ac, of v] one assms(2) by auto
    then have f1: "f v = 1" using acctD(2) [OF ac z] one assms(2) by linarith
    have "acct s0 s' (\<lambda>w. f w - one v w)"
      unfolding acct_def
    proof
      fix w
      show "if ref s0 w > 0 then ref s' w = ref s0 w + (f w - one v w)
        else f w - one v w \<le> ref s' w \<and> ref s' w \<le> f w - one v w + 1"
        using z f1 h(6-8) acctD [OF ac, of w] by (cases "w = v") (auto simp: one_def)
    qed
    moreover have "same_fs_of s0 s'" using fs(1) h(4,6) z
      by (intro same_fs_of_comp [of s0 s s']) (auto simp: fs_step_def, metis)
    ultimately have "fs_step s0 s' (\<lambda>w. f w - one v w)" using fs(1) h(3,5) by (simp add: fs_step_def same_ctx_def)
    then have "since E s0 (\<lambda>w. f w - one v w) s'" using fs nn h(2) by (simp add: since_def)
    then show thesis using that n False h(1) vnode_check_ok [OF fs(3)] by (simp add: vnode_decref_def)
  qed
qed

end

section \<open>Pathname translation\<close>

text \<open>Taking and releasing the lock changes nothing that the accounting sees.\<close>

lemma relock:
  assumes "vfs_ok E s" "lock_ok (s\<lparr>vfs_biglock := l, vfs_biglock_depth := d\<rparr>)"
  shows "vfs_ok E (s\<lparr>vfs_biglock := l, vfs_biglock_depth := d\<rparr>)" "fs_same s (s\<lparr>vfs_biglock := l, vfs_biglock_depth := d\<rparr>)"
  using assms by (auto simp: vfs_ok_def held_def ref_def fs_same_def vnodes_ok_def)

lemma ref_relock [simp]: "ref (s\<lparr>vfs_biglock := l, vfs_biglock_depth := d\<rparr>) v = ref s v"
  by (simp add: ref_def)

lemma fs_step_relock:
  assumes "fs_step (s\<lparr>vfs_biglock := l, vfs_biglock_depth := d\<rparr>) s' f"
  shows "fs_step s (s'\<lparr>vfs_biglock := vfs_biglock s, vfs_biglock_depth := vfs_biglock_depth s\<rparr>) f"
  using assms by (simp add: fs_step_def same_ctx_def acct_def same_fs_of_def vnodes_ok_def)

lemma none_nonneg [simp]: "0 \<le> none v" and one_nonneg [simp]: "0 \<le> one v w" and one_self [simp]: "one v v = 1"
  by (simp_all add: none_def one_def)

lemma none_left [simp]: "(\<lambda>v. none v + f v) = f" and none_right [simp]: "(\<lambda>v. f v + none v) = f"
  by (simp_all add: none_def)

lemma handed_nonneg [simp]: "0 \<le> handed r v" by (cases r) simp_all
lemma handed_dir_nonneg [simp]: "0 \<le> handed_dir r v" by (cases r) (auto split: prod.splits)
lemma handed_start_nonneg [simp]: "0 \<le> handed_start r v" by (cases r) (auto split: prod.splits)

context filesystem
begin

lemma returnsI: "m = Done (r, s') \<Longrightarrow> since E s (Q r) s' \<Longrightarrow> returns I Q s m"
  by (auto simp: returns_def since_def)

lemma biglock_returns:
  assumes "vfs_ok E s" "I s"
    and body: "\<And>s1. vfs_ok E s1 \<Longrightarrow> I s1 \<Longrightarrow> vfs_biglock_do_i_hold s1 \<Longrightarrow> knowndevs s1 = knowndevs s \<Longrightarrow>
      returns I Q s1 (body s1)"
  shows "returns I Q s (with_biglock body s)"
proof -
  let ?d = "vfs_biglock_depth s"
  let ?s1 = "s\<lparr>vfs_biglock := Some (curthread s), vfs_biglock_depth := ?d + 1\<rparr>"
  have lk: "lock_ok s" by (rule vfs_okD(2) [OF assms(1)])
  then have acq: "vfs_biglock_acquire s = Done ?s1"
    by (auto simp: vfs_biglock_acquire_def vfs_biglock_do_i_hold_def lock_ok_def)
  have "lock_ok ?s1" by (simp add: lock_ok_def)
  note r1 = relock [OF assms(1) this]
  have "vfs_biglock_do_i_hold ?s1" by (simp add: vfs_biglock_do_i_hold_def)
  then obtain r s2 where b: "body ?s1 = Done (r, s2)" "I s2" "fs_step ?s1 s2 (Q r)"
    using body [OF r1(1) I_same [OF assms(2) r1(2)]] by (auto simp: returns_def)
  let ?s3 = "s2\<lparr>vfs_biglock := vfs_biglock s, vfs_biglock_depth := ?d\<rparr>"
  have "vfs_biglock_release s2 = Done ?s3"
    using b(3) lk by (auto simp: vfs_biglock_release_def vfs_biglock_do_i_hold_def fs_step_def same_ctx_def lock_ok_def)
  moreover have "fs_same s2 ?s3" by (simp add: fs_same_def ref_def)
  ultimately show ?thesis using acq b fs_step_relock [OF b(3)] I_same
    unfolding returns_def with_biglock_def by (intro exI [of _ r] exI [of _ ?s3]) simp
qed

lemma getcurdir_returns:
  assumes "vfs_ok E s" "I s"
  shows "returns I handed s (vfs_getcurdir s)"
proof (cases "cwd s (curproc s)")
  case None
  then show ?thesis using since_start [OF assms] by (intro returnsI [where E = E], simp add: vfs_getcurdir_def, simp)
next
  case (Some v)
  obtain s' where "vnode_incref v s = Done s'" "since E s (\<lambda>w. none w + one v w) s'"
    using since_incref [OF since_start [OF assms] vfs_ok_refs(1) [OF assms(1) Some]] .
  then show ?thesis using Some by (intro returnsI [where E = E], simp add: vfs_getcurdir_def, simp)
qed

lemma getroot_in_returns:
  "vfs_ok E s \<Longrightarrow> I s \<Longrightarrow> set kds \<subseteq> set (knowndevs s) \<Longrightarrow> returns I handed s (vfs_getroot_in ops kds devname s)"
proof (induction kds)
  case Nil
  then show ?case using since_start [of E s] by (intro returnsI [where E = E], simp, simp)
next
  case (Cons kd kds)
  have kd: "kd \<in> set (knowndevs s)" using Cons.prems(3) by simp
  have k: "kd_ok kd" by (rule vfs_okD(5) [OF Cons.prems(1) kd])
  have rest: "returns I handed s (vfs_getroot_in ops kds devname s)" using Cons by simp
  obtain s' where inc: "vnode_incref (kd_vnode kd) s = Done s'" "since E s (\<lambda>w. none w + one (kd_vnode kd) w) s'"
    using since_incref [OF since_start [OF Cons.prems(1,2)] vfs_ok_refs(3) [OF Cons.prems(1) kd]] .
  then have hand: "returns I handed s (Done (Inr (kd_vnode kd), s'))" by (intro returnsI [where E = E], simp, simp)
  have same: "returns I handed s (Done (Inl e, s))" for e
    using since_start [OF Cons.prems(1,2)] by (intro returnsI [where E = E], simp, simp)
  show ?case
  proof (cases "\<exists>fs. kd_fs kd = Some (MountedFs fs)")
    case True
    then obtain fs where fs: "kd_fs kd = Some (MountedFs fs)" by blast
    then have "fs_live s fs" using kd by (auto simp: fs_live_def)
    then have "returns I handed s (fsop_getroot ops fs s)" using Cons.prems by (intro getroot_law vfs_okD(1))
    then show ?thesis using fs rest hand inc(1) k by (auto simp: Let_def kd_ok_def)
  next
    case False
    then show ?thesis using rest hand same inc(1) k
      by (cases "kd_fs kd") (auto simp: Let_def kd_ok_def split: fsref.splits)
  qed
qed

lemma getroot_returns:
  "vfs_ok E s \<Longrightarrow> I s \<Longrightarrow> vfs_biglock_do_i_hold s \<Longrightarrow> returns I handed s (vfs_getroot ops devname s)"
  by (simp add: vfs_getroot_def getroot_in_returns)

lemma from_returns:
  assumes "returns I handed s m"
  shows "returns I handed_start s (obind m (\<lambda>(r, s). Done (case r of Inl e \<Rightarrow> Inl e | Inr v \<Rightarrow> Inr (sub, v), s)))"
  using assms by (auto simp: returns_def split: sum.splits)

lemma getdevice_returns:
  assumes "vfs_ok E s" "I s" "vfs_biglock_do_i_hold s"
  shows "returns I handed_start s (getdevice ops path s)"
proof -
  note st = since_start [OF assms(1,2)]
  have err: "returns I handed_start s (Done (Inl e, s))" for e using st by (intro returnsI [where E = E], simp, simp)
  note cur = from_returns [OF getcurdir_returns [OF assms(1,2)]] and root = from_returns [OF getroot_returns [OF assms]]
  have boot: "returns I handed_start s (case bootfs_vnode s of None \<Rightarrow> Done (Inl ENOENT, s)
      | Some v \<Rightarrow> obind (vnode_incref v s) (\<lambda>s. Done (Inr (sub, v), s)))" for sub
  proof (cases "bootfs_vnode s")
    case (Some v)
    obtain s' where "vnode_incref v s = Done s'" "since E s (\<lambda>w. none w + one v w) s'"
      using since_incref [OF st vfs_ok_refs(2) [OF assms(1) Some]] .
    then show ?thesis using Some by (intro returnsI [where E = E], simp, simp)
  qed (use err in simp)
  have colon: "returns I handed_start s (obind (vfs_getcurdir s) (\<lambda>(r, s). case r of Inl e \<Rightarrow> Done (Inl e, s) | Inr vn \<Rightarrow>
      obind (deref (vnodes s vn)) (\<lambda>n. case vn_fs n of None \<Rightarrow> Stop Panic | Some fs \<Rightarrow>
      obind (fsop_getroot ops fs s) (\<lambda>(r, s).
      obind (vnode_decref ops vn s) (\<lambda>s. Done (case r of Inl e \<Rightarrow> Inl e | Inr v \<Rightarrow> Inr (sub, v), s))))))" for sub
  proof (cases "cwd s (curproc s)")
    case None
    then show ?thesis using err by (simp add: vfs_getcurdir_def)
  next
    case (Some vn)
    obtain s1 where s1: "vnode_incref vn s = Done s1" "since E s (\<lambda>w. none w + one vn w) s1"
      using since_incref [OF st vfs_ok_refs(1) [OF assms(1) Some]] .
    then have s1': "since E s (one vn) s1" by simp
    have "cwd s1 (curproc s) = Some vn" using s1' Some by (simp add: since_def fs_step_def same_ctx_def)
    then obtain n fs where n: "vnodes s1 vn = Some n" "vn_fs n = Some fs"
      using vfs_okD(6) [OF since_ok [OF s1']] by blast
    have "ref s1 vn > 0" using since_facts(3) [OF s1', of vn] by simp
    then have "fs_live s1 fs" using n by (auto simp: fs_live_def ref_def)
    then have "returns I handed s1 (fsop_getroot ops fs s1)" using since_facts [OF s1'] by (intro getroot_law)
    then obtain r s2 where s2: "fsop_getroot ops fs s1 = Done (r, s2)" "since E s (\<lambda>w. one vn w + handed r w) s2"
      using since_op [OF s1'] handed_nonneg by blast
    have "one vn vn + handed r vn > 0" by (simp add: add_pos_nonneg)
    then obtain s3 where s3: "vnode_decref ops vn s2 = Done s3" "since E s (\<lambda>w. one vn w + handed r w - one vn w) s3"
      using since_decref [OF s2(2)] by blast
    then show ?thesis using Some s1(1) n s2(1) s3
      by (intro returnsI [where E = E]) (auto simp: vfs_getcurdir_def split: sum.splits)
  qed
  show ?thesis unfolding getdevice_def Let_def
    using assms(3) err cur root boot colon by (auto split: option.splits)
qed

end

section \<open>Operations on pathnames\<close>

context filesystem
begin

lemma sinceE:
  assumes "vfs_ok E s" "returns I Q s m" "\<And>r v. 0 \<le> Q r v"
  obtains r s' where "m = Done (r, s')" "since E s (Q r) s'"
  using assms by (auto simp: returns_def since_def)

lemma same_returns: "vfs_ok E s \<Longrightarrow> I s \<Longrightarrow> Q r = none \<Longrightarrow> returns I Q s (Done (r, s))"
  using since_start [of E s] by (intro returnsI [where E = E], simp, simp)

text \<open>Using a vnode and dropping it.\<close>

lemma use_and_drop:
  assumes "since E s (one v) s1" "\<And>E'. vfs_ok E' s1 \<Longrightarrow> I s1 \<Longrightarrow> ref s1 v > 0 \<Longrightarrow> returns I Q s1 m" "\<And>r w. 0 \<le> Q r w"
  shows "returns I Q s (obind m (\<lambda>(r, s). obind (vnode_decref ops v s) (\<lambda>s. Done (r, s))))"
proof -
  have "ref s1 v > 0" using since_facts(3) [OF assms(1), of v] by simp
  then have "returns I Q s1 m" using assms(2) since_ok [OF assms(1)] since_facts(1) [OF assms(1)] by blast
  then obtain r s2 where m: "m = Done (r, s2)" "since E s (\<lambda>w. one v w + Q r w) s2"
    using since_op [OF assms(1)] assms(3) by metis
  have "one v v + Q r v > 0" using assms(3) [of r v] by simp
  then obtain s3 where "vnode_decref ops v s2 = Done s3" "since E s (\<lambda>w. one v w + Q r w - one v w) s3"
    using since_decref [OF m(2)] by blast
  then show ?thesis using m(1) by (intro returnsI [where E = E], simp, simp)
qed

lemma lookparent_returns:
  assumes "vfs_ok E s" "I s"
  shows "returns I handed_dir s (vfs_lookparent ops path len s)"
  unfolding vfs_lookparent_def
proof (rule biglock_returns [OF assms])
  fix s1 assume s1: "vfs_ok E s1" "I s1" "vfs_biglock_do_i_hold s1"
  obtain r s2 where g: "getdevice ops path s1 = Done (r, s2)" "since E s1 (handed_start r) s2"
    using sinceE [OF s1(1) getdevice_returns [OF s1]] handed_start_nonneg by metis
  show "returns I handed_dir s1 (obind (getdevice ops path s1) (\<lambda>(r, s). case r of Inl e \<Rightarrow> Done (Inl e, s) | Inr (sub, startvn) \<Rightarrow>
     obind (if sub = [] then Done (Inl EINVAL, s)
            else obind (vnode_check startvn s) (\<lambda>_. vop_lookparent ops startvn sub len s)) (\<lambda>(r, s).
     obind (vnode_decref ops startvn s) (\<lambda>s. Done (r, s)))))"
  proof (cases r)
    case (Inl e)
    then show ?thesis using g by (intro returnsI [where E = E], simp, simp)
  next
    case (Inr p)
    obtain sub v where p: "p = (sub, v)" by (cases p)
    then have v: "since E s1 (one v) s2" using g(2) Inr by simp
    have "returns I handed_dir s1 (obind (if sub = [] then Done (Inl EINVAL, s2)
        else obind (vnode_check v s2) (\<lambda>_. vop_lookparent ops v sub len s2)) (\<lambda>(r, s).
        obind (vnode_decref ops v s) (\<lambda>s. Done (r, s))))"
      using v
    proof (rule use_and_drop)
      fix E' assume h: "vfs_ok E' s2" "I s2" "ref s2 v > 0"
      show "returns I handed_dir s2 (if sub = [] then Done (Inl EINVAL, s2)
        else obind (vnode_check v s2) (\<lambda>_. vop_lookparent ops v sub len s2))"
        using same_returns [OF h(1,2), of handed_dir "Inl EINVAL"] lookparent_law [OF vfs_okD(1) [OF h(1)] h(2,3)]
          vnode_check_ok [OF vfs_okD(1) [OF h(1)] h(3)] by simp
    qed simp
    then show ?thesis using g(1) Inr p by simp
  qed
qed

lemma lookup_returns:
  assumes "vfs_ok E s" "I s"
  shows "returns I handed s (vfs_lookup ops path s)"
  unfolding vfs_lookup_def
proof (rule biglock_returns [OF assms])
  fix s1 assume s1: "vfs_ok E s1" "I s1" "vfs_biglock_do_i_hold s1"
  obtain r s2 where g: "getdevice ops path s1 = Done (r, s2)" "since E s1 (handed_start r) s2"
    using sinceE [OF s1(1) getdevice_returns [OF s1]] handed_start_nonneg by metis
  show "returns I handed s1 (obind (getdevice ops path s1) (\<lambda>(r, s). case r of Inl e \<Rightarrow> Done (Inl e, s) | Inr (sub, startvn) \<Rightarrow>
     if sub = [] then Done (Inr startvn, s) else
     obind (vnode_check startvn s) (\<lambda>_.
     obind (vop_lookup ops startvn sub s) (\<lambda>(r, s).
     obind (vnode_decref ops startvn s) (\<lambda>s. Done (r, s))))))"
  proof (cases r)
    case (Inl e)
    then show ?thesis using g by (intro returnsI [where E = E], simp, simp)
  next
    case (Inr p)
    obtain sub v where p: "p = (sub, v)" by (cases p)
    then have v: "since E s1 (one v) s2" using g(2) Inr by simp
    have r: "ref s2 v > 0" "vnodes_ok s2" "I s2" using since_facts [OF v] by simp_all
    have "returns I handed s1 (obind (vop_lookup ops v sub s2) (\<lambda>(r, s). obind (vnode_decref ops v s) (\<lambda>s. Done (r, s))))"
      using v lookup_law [OF r(2,3,1)] by (rule use_and_drop) simp
    moreover have "returns I handed s1 (Done (Inr v, s2))" using v by (intro returnsI [where E = E], simp, simp)
    ultimately show ?thesis using g(1) Inr p vnode_check_ok [OF r(2,1)] by simp
  qed
qed

lemma in_parent_returns:
  assumes "vfs_ok E s" "I s"
    and f: "\<And>s v nm. vnodes_ok s \<Longrightarrow> I s \<Longrightarrow> ref s v > 0 \<Longrightarrow> returns I no_refs s (f v nm s)"
  shows "returns I no_refs s (in_parent ops path f s)"
proof -
  obtain r s1 where g: "vfs_lookparent ops path (NAME_MAX + 1) s = Done (r, s1)" "since E s (handed_dir r) s1"
    using sinceE [OF assms(1) lookparent_returns [OF assms(1,2)]] handed_dir_nonneg by metis
  show ?thesis
  proof (cases r)
    case (Inl e)
    then show ?thesis using g unfolding in_parent_def by (intro returnsI [where E = E], simp, simp)
  next
    case (Inr p)
    obtain v nm where p: "p = (v, nm)" by (cases p)
    then have v: "since E s (one v) s1" using g(2) Inr by simp
    have r: "ref s1 v > 0" "vnodes_ok s1" "I s1" using since_facts [OF v] by simp_all
    have "returns I no_refs s (obind (f v nm s1) (\<lambda>(r, s). obind (vnode_decref ops v s) (\<lambda>s. Done (r, s))))"
      using v f [OF r(2,3,1)] by (rule use_and_drop) simp
    then show ?thesis unfolding in_parent_def using g(1) Inr p vnode_check_ok [OF r(2,1)] by simp
  qed
qed

text \<open>The last part of \<^verbatim>\<open>vfs_open\<close>, with the reference to the file in hand.\<close>

lemma decref_err:
  assumes "since E s (one v) s1"
  shows "returns I handed s (obind (vnode_decref ops v s1) (\<lambda>s. Done (Inl e, s)))"
proof -
  obtain s2 where "vnode_decref ops v s1 = Done s2" "since E s (\<lambda>w. one v w - one v w) s2"
    using since_decref [OF assms] by (metis one_self zero_less_one)
  moreover have "(\<lambda>w. one v w - one v w) = none" by (simp add: none_def fun_eq_iff)
  ultimately show ?thesis by (intro returnsI [where E = E], simp, simp)
qed

end

context filesystem
begin

lemma open_found:
  assumes "since E s (one v) s1"
  shows "returns I handed s
    (obind (vnode_check v s1) (\<lambda>_.
      obind (vop_eachopen ops v fl s1) (\<lambda>(r, s).
      case r of Some e \<Rightarrow> obind (vnode_decref ops v s) (\<lambda>s. Done (Inl e, s)) | None \<Rightarrow>
      if trunc then
        obind (if \<not> canwrite then Done (Some EINVAL, s)
               else obind (vnode_check v s) (\<lambda>_. vop_truncate ops v 0 s)) (\<lambda>(r, s).
        case r of Some e \<Rightarrow> obind (vnode_decref ops v s) (\<lambda>s. Done (Inl e, s)) | None \<Rightarrow> Done (Inr v, s))
      else Done (Inr v, s))))"
proof -
  have r1: "ref s1 v > 0" "vnodes_ok s1" "I s1" using since_facts [OF assms] by simp_all
  obtain r s2 where e: "vop_eachopen ops v fl s1 = Done (r, s2)" "since E s (\<lambda>w. one v w + no_refs r w) s2"
    using since_op [OF assms eachopen_law [OF r1(2,3,1)]] by (metis handed_simps(1) none_nonneg)
  then have s2: "since E s (one v) s2" by simp
  have r2: "ref s2 v > 0" "vnodes_ok s2" "I s2" using since_facts [OF s2] by simp_all
  have got: "returns I handed s (Done (Inr v, s'))" if "since E s (one v) s'" for s'
    using that by (intro returnsI [where E = E], simp, simp)
  obtain q s3 where t: "vop_truncate ops v 0 s2 = Done (q, s3)" "since E s (\<lambda>w. one v w + no_refs q w) s3"
    using since_op [OF s2 truncate_law [OF r2(2,3,1)]] by (metis handed_simps(1) none_nonneg)
  then have s3: "since E s (one v) s3" by simp
  note checks = vnode_check_ok [OF r1(2,1)] vnode_check_ok [OF r2(2,1)]
  show ?thesis
  proof (cases r)
    case (Some x)
    then show ?thesis using checks e(1) decref_err [OF s2] by simp
  next
    case None
    then show ?thesis using checks e(1) t(1) decref_err [OF s2] decref_err [OF s3] got [OF s2] got [OF s3]
      by (cases q) simp_all
  qed
qed

lemma open_returns:
  assumes "vfs_ok E s" "I s"
  shows "returns I handed s (vfs_open ops path fl mode s)"
proof -
  let ?find = "if fl AND O_CREAT \<noteq> 0 then
      obind (vfs_lookparent ops path (NAME_MAX + 1) s) (\<lambda>(r, s).
      case r of Inl e \<Rightarrow> Done (Inl e, s) | Inr (dir, name) \<Rightarrow>
      obind (vnode_check dir s) (\<lambda>_.
      obind (vop_creat ops dir name (fl AND O_EXCL \<noteq> 0) mode s) (\<lambda>(r, s).
      obind (vnode_decref ops dir s) (\<lambda>s. Done (r, s)))))
    else vfs_lookup ops path s"
  obtain r s1 where g: "vfs_lookparent ops path (NAME_MAX + 1) s = Done (r, s1)" "since E s (handed_dir r) s1"
    using sinceE [OF assms(1) lookparent_returns [OF assms]] handed_dir_nonneg by metis
  have creat: "returns I handed s (obind (vop_creat ops v nm ex mode s1) (\<lambda>(r, s). obind (vnode_decref ops v s) (\<lambda>s. Done (r, s))))"
    "vnode_check v s1 = Done ()" if h: "r = Inr (v, nm)" for v nm ex
  proof -
    have v: "since E s (one v) s1" using g(2) h by simp
    have r: "ref s1 v > 0" "vnodes_ok s1" "I s1" using since_facts [OF v] by simp_all
    show "returns I handed s (obind (vop_creat ops v nm ex mode s1) (\<lambda>(r, s). obind (vnode_decref ops v s) (\<lambda>s. Done (r, s))))"
      using v creat_law [OF r(2,3,1)] by (rule use_and_drop) simp
    show "vnode_check v s1 = Done ()" by (rule vnode_check_ok [OF r(2,1)])
  qed
  have "returns I handed s (Done (Inl e, s1))" if "r = Inl e" for e
    using that g(2) by (intro returnsI [where E = E], simp, simp)
  note err = this
  have find: "returns I handed s ?find"
  proof (cases "fl AND O_CREAT \<noteq> 0")
    case True
    show ?thesis
    proof (cases r)
      case (Inl e)
      show ?thesis using err [OF Inl] True g(1) Inl by simp
    next
      case (Inr p)
      obtain v nm where p: "p = (v, nm)" by (cases p)
      note h = creat [OF Inr [unfolded p]]
      show ?thesis using h True g(1) Inr p by simp
    qed
  next
    case False
    then show ?thesis using lookup_returns [OF assms] by simp
  qed
  obtain q s2 where f: "?find = Done (q, s2)" "since E s (handed q) s2"
    by (rule sinceE [OF assms(1) find handed_nonneg])
  have bad: "returns I handed s (Done (Inl EINVAL, s))" by (rule same_returns [OF assms]) simp
  show ?thesis
  proof (cases q)
    case (Inl e)
    then have "returns I handed s (Done (Inl e, s2))" using f(2) by (intro returnsI [where E = E], simp, simp)
    then show ?thesis unfolding vfs_open_def Let_def f(1) using Inl bad by simp
  next
    case (Inr v)
    then have v: "since E s (one v) s2" using f(2) by simp
    show ?thesis unfolding vfs_open_def Let_def f(1) using Inr bad open_found [OF v] by simp
  qed
qed

lemma close_drops:
  assumes "since E s f s1" "f v > 0"
  shows "\<exists>s2. vfs_close ops v s1 = Done s2 \<and> since E s (\<lambda>w. f w - one v w) s2"
  using since_decref [OF assms] unfolding vfs_close_def by metis

text \<open>Two vnodes in hand.\<close>

lemma use_and_drop2:
  assumes "since E s (\<lambda>x. one v x + one w x) s1"
    and "vnodes_ok s1 \<Longrightarrow> I s1 \<Longrightarrow> ref s1 v > 0 \<Longrightarrow> ref s1 w > 0 \<Longrightarrow> returns I no_refs s1 m"
    and "c = v \<or> c = w"
  shows "returns I no_refs s (obind (same_fs v w s1) (\<lambda>same.
     obind (if \<not> same then Done (Some EXDEV, s1) else obind (vnode_check c s1) (\<lambda>_. m)) (\<lambda>(r, s).
     obind (decref2 ops w v s) (\<lambda>s. Done (r, s)))))"
proof -
  have pos: "one v v + one w v > 0" "one v w + one w w > 0" by (simp_all add: one_def)
  have r: "ref s1 v > 0" "ref s1 w > 0" "vnodes_ok s1" "I s1"
    using since_facts(3) [OF assms(1) pos(1)] since_facts(3) [OF assms(1) pos(2)] since_facts(1,2) [OF assms(1)] by simp_all
  obtain same where same: "same_fs v w s1 = Done same" using r by (auto simp: same_fs_def ref_pos_iff)
  obtain q s2 where m: "m = Done (q, s2)" "since E s (\<lambda>x. one v x + one w x + no_refs q x) s2"
    using since_op [OF assms(1) assms(2) [OF r(3,4,1,2)]] by (metis handed_simps(1) none_nonneg)
  have drop: "returns I no_refs s (obind (decref2 ops w v s') (\<lambda>s. Done (r, s)))"
    if h: "since E s (\<lambda>x. one v x + one w x) s'" for s' and r :: "errno option"
  proof -
    obtain t where t: "vnode_decref ops w s' = Done t" "since E s (\<lambda>x. one v x + one w x - one w x) t"
      using since_decref [OF h pos(2)] .
    then have tv: "since E s (one v) t" by simp
    obtain t' where t': "vnode_decref ops v t = Done t'" "since E s (\<lambda>x. one v x - one v x) t'"
      using since_decref [OF tv] by (metis one_self zero_less_one)
    have "(\<lambda>x. one v x - one v x) = none" by (simp add: none_def fun_eq_iff)
    then show ?thesis using t(1) t' unfolding decref2_def by (intro returnsI [where E = E], simp, simp)
  qed
  have "(\<lambda>x. one v x + one w x + no_refs q x) = (\<lambda>x. one v x + one w x)" by (simp add: none_def)
  moreover have "vnode_check c s1 = Done ()" using assms(3) vnode_check_ok [OF r(3)] r(1,2) by auto
  ultimately show ?thesis using same m drop [OF assms(1)] drop [of s2] by simp
qed

lemma rename_returns:
  assumes "vfs_ok E s" "I s"
  shows "returns I no_refs s (vfs_rename ops oldpath newpath s)"
proof -
  obtain r s1 where g: "vfs_lookparent ops oldpath (NAME_MAX + 1) s = Done (r, s1)" "since E s (handed_dir r) s1"
    using sinceE [OF assms(1) lookparent_returns [OF assms]] handed_dir_nonneg by metis
  show ?thesis
  proof (cases r)
    case (Inl e)
    then show ?thesis using g unfolding vfs_rename_def by (intro returnsI [where E = E], simp, simp)
  next
    case (Inr p)
    obtain v nm where p: "p = (v, nm)" by (cases p)
    have v: "since E s (one v) s1" using g(2) Inr p by simp
    obtain q s2 where q: "vfs_lookparent ops newpath (NAME_MAX + 1) s1 = Done (q, s2)"
      "since E s (\<lambda>x. one v x + handed_dir q x) s2"
      using since_op [OF v lookparent_returns [OF since_ok [OF v] since_facts(1) [OF v]]] handed_dir_nonneg by metis
    show ?thesis
    proof (cases q)
      case (Inl e)
      then have "since E s (one v) s2" using q(2) by simp
      then obtain s3 where "vnode_decref ops v s2 = Done s3" "since E s (\<lambda>x. one v x - one v x) s3"
        using since_decref by (metis one_self zero_less_one)
      moreover have "(\<lambda>x. one v x - one v x) = none" by (simp add: none_def fun_eq_iff)
      ultimately show ?thesis using g(1) q(1) Inl \<open>r = Inr p\<close> p unfolding vfs_rename_def
        by (intro returnsI [where E = E], simp, simp)
    next
      case (Inr p')
      obtain w nm' where p': "p' = (w, nm')" by (cases p')
      then have "since E s (\<lambda>x. one v x + one w x) s2" using q(2) Inr by simp
      from use_and_drop2 [OF this rename_law, of v] show ?thesis
        unfolding vfs_rename_def using g(1) q(1) Inr \<open>r = Inr p\<close> p p' by simp
    qed
  qed
qed

end

context filesystem
begin

lemma link_returns:
  assumes "vfs_ok E s" "I s"
  shows "returns I no_refs s (vfs_link ops oldpath newpath s)"
proof -
  obtain r s1 where g: "vfs_lookup ops oldpath s = Done (r, s1)" "since E s (handed r) s1"
    using sinceE [OF assms(1) lookup_returns [OF assms] handed_nonneg] .
  show ?thesis
  proof (cases r)
    case (Inl e)
    then show ?thesis using g unfolding vfs_link_def by (intro returnsI [where E = E], simp, simp)
  next
    case (Inr v)
    have v: "since E s (one v) s1" using g(2) Inr by simp
    obtain q s2 where q: "vfs_lookparent ops newpath (NAME_MAX + 1) s1 = Done (q, s2)"
      "since E s (\<lambda>x. one v x + handed_dir q x) s2"
      using since_op [OF v lookparent_returns [OF since_ok [OF v] since_facts(1) [OF v]] handed_dir_nonneg] .
    show ?thesis
    proof (cases q)
      case (Inl e)
      then have "since E s (one v) s2" using q(2) by simp
      then obtain s3 where "vnode_decref ops v s2 = Done s3" "since E s (\<lambda>x. one v x - one v x) s3"
        using since_decref by (metis one_self zero_less_one)
      moreover have "(\<lambda>x. one v x - one v x) = none" by (simp add: none_def fun_eq_iff)
      ultimately show ?thesis using g(1) q(1) Inl \<open>r = Inr v\<close> unfolding vfs_link_def
        by (intro returnsI [where E = E], simp, simp)
    next
      case (Inr p')
      obtain w nm where p': "p' = (w, nm)" by (cases p')
      have "since E s (\<lambda>x. one v x + one w x) s2" using q(2) Inr p' by simp
      from use_and_drop2 [OF this, of "vop_link ops w nm v s2" w]
      have "returns I no_refs s (obind (same_fs v w s2) (\<lambda>same.
        obind (if \<not> same then Done (Some EXDEV, s2) else obind (vnode_check w s2) (\<lambda>_. vop_link ops w nm v s2)) (\<lambda>(r, s).
        obind (decref2 ops w v s) (\<lambda>s. Done (r, s)))))"
        using link_law by simp
      then show ?thesis
        unfolding vfs_link_def using g(1) q(1) Inr \<open>r = Inr v\<close> p' by simp
    qed
  qed
qed

end

section \<open>Current directories\<close>

text \<open>Moving one of the references that the layer holds: the current directory of a process.\<close>

lemma card_cwd_update:
  assumes "finite {q. m q \<noteq> None}"
  shows "int (card {q. (m(p := x)) q = Some v}) =
    int (card {q. m q = Some v}) + (if x = Some v then 1 else 0) - (if m p = Some v then 1 else 0)"
proof -
  let ?A = "{q. m q = Some v} - {p}"
  have fin: "finite {q. m q = Some v}" by (rule finite_subset [OF _ assms]) auto
  have new: "card {q. (m(p := x)) q = Some v} = (if x = Some v then card ?A + 1 else card ?A)"
  proof (cases "x = Some v")
    case True
    then have "{q. (m(p := x)) q = Some v} = insert p ?A" by (auto simp: fun_upd_apply)
    moreover have "card (insert p ?A) = card ?A + 1" using card_insert_disjoint [of ?A p] fin by (simp only: finite_Diff) simp
    ultimately show ?thesis using True by (simp only:) simp
  next
    case False
    then have "{q. (m(p := x)) q = Some v} = ?A" by (auto simp: fun_upd_apply)
    then show ?thesis using False by (simp only:) simp
  qed
  have old: "card {q. m q = Some v} = (if m p = Some v then card ?A + 1 else card ?A)"
  proof (cases "m p = Some v")
    case True
    then have "p \<in> {q. m q = Some v}" by simp
    from card_Suc_Diff1 [OF fin this] show ?thesis using True by (simp only:) simp
  next
    case False
    then have "?A = {q. m q = Some v}" by auto
    then show ?thesis using False by (simp only:) simp
  qed
  show ?thesis unfolding new old by simp
qed

definition same_env :: "'x vfs \<Rightarrow> 'x vfs \<Rightarrow> bool" where
  "same_env s s' \<longleftrightarrow> knowndevs s' = knowndevs s \<and> vfs_biglock s' = vfs_biglock s \<and>
     vfs_biglock_depth s' = vfs_biglock_depth s \<and> curthread s' = curthread s \<and> curproc s' = curproc s"

definition from_opt :: "nat option \<Rightarrow> nat \<Rightarrow> int" where
  "from_opt x = (case x of None \<Rightarrow> none | Some v \<Rightarrow> one v)"

lemma from_opt_simp: "from_opt x w = (if x = Some w then 1 else 0)"
  by (auto simp: from_opt_def none_def one_def split: option.splits)

lemma swap_cwd:
  assumes "vfs_ok (\<lambda>w. E w + from_opt x w) s" "\<And>w. 0 \<le> E w"
    and "\<And>v. x = Some v \<Longrightarrow> \<exists>n. vnodes s v = Some n \<and> vn_fs n \<noteq> None"
  shows "vfs_ok (\<lambda>w. E w + from_opt (cwd s p) w) (s\<lparr>cwd := (cwd s)(p := x)\<rparr>)"
    and "fs_same s (s\<lparr>cwd := (cwd s)(p := x)\<rparr>)"
proof -
  let ?s = "s\<lparr>cwd := (cwd s)(p := x)\<rparr>"
  have fin: "finite {q. cwd s q \<noteq> None}" using assms(1) by (simp add: vfs_ok_def)
  have h: "held ?s w + from_opt (cwd s p) w = held s w + from_opt x w" for w
    using card_cwd_update [OF fin, of p x w] by (simp add: held_def from_opt_simp)
  have "{q. ((cwd s)(p := x)) q \<noteq> None} \<subseteq> insert p {q. cwd s q \<noteq> None}" by (auto simp: fun_upd_apply split: if_splits)
  then have "finite {q. ((cwd s)(p := x)) q \<noteq> None}" using fin by (meson finite.insertI finite_subset)
  moreover have "0 \<le> E w + from_opt (cwd s p) w \<and> held ?s w + (E w + from_opt (cwd s p) w) \<le> ref ?s w" for w
    using vfs_okD(4) [OF assms(1), of w] assms(2) [of w] h [of w] by (simp add: from_opt_simp ref_def)
  moreover have "\<exists>n. vnodes ?s v = Some n \<and> vn_fs n \<noteq> None" if "cwd ?s q = Some v" for q v
    using that vfs_okD(6) [OF assms(1)] assms(3) by (auto simp: fun_upd_apply split: if_splits)
  ultimately show "vfs_ok (\<lambda>w. E w + from_opt (cwd s p) w) ?s"
    using assms(1) by (simp add: vfs_ok_def vnodes_ok_def lock_ok_def)
  show "fs_same s ?s" by (simp add: fs_same_def ref_def)
qed

context filesystem
begin

lemma decref_ok:
  assumes "vfs_ok (\<lambda>w. E w + one v w) s" "I s" "\<And>w. 0 \<le> E w"
  shows "\<exists>s'. vnode_decref ops v s = Done s' \<and> vfs_ok E s' \<and> I s' \<and> same_ctx s s'"
proof -
  have vo: "vnodes_ok s" and h: "held s v + E v + 1 \<le> ref s v"
    using vfs_okD(1) [OF assms(1)] vfs_okD(4) [OF assms(1), of v] by simp_all
  obtain n where n: "vnodes s v = Some n" "vn_refcount n > 0" "ref s v = vn_refcount n"
    using h held_nonneg [of s v] assms(3) [of v] by (auto simp: ref_def split: option.splits)
  show ?thesis
  proof (cases "vn_refcount n > 1")
    case True
    let ?s = "s\<lparr>vnodes := (vnodes s)(v \<mapsto> n\<lparr>vn_refcount := vn_refcount n - 1\<rparr>)\<rparr>"
    have "fs_step s ?s (\<lambda>w. if w = v then vn_refcount n - 1 - vn_refcount n else 0)" "fs_same s ?s"
      using set_count [OF n(1,2) _ vo, of "vn_refcount n - 1"] True by auto
    moreover have "(\<lambda>w. if w = v then vn_refcount n - 1 - vn_refcount n else 0) = (\<lambda>w. - one v w)" by (auto simp: one_def)
    ultimately have st: "fs_step s ?s (\<lambda>w. - one v w)" "fs_same s ?s" by simp_all
    have "vfs_ok (\<lambda>w. E w + one v w + - one v w) ?s"
      by (rule vfs_ok_step [OF assms(1) st(1)]) (simp add: assms(3))
    then show ?thesis using n True I_same [OF assms(2) st(2)] st(1) by (simp add: vnode_decref_def fs_step_def)
  next
    case False
    then have one: "ref s v = 1" using n by simp
    then have z: "held s v = 0" "E v = 0" using h held_nonneg [of s v] assms(3) [of v] by linarith+
    obtain r s' where h: "vop_reclaim ops v s = Done (r, s')" "I s'" "same_ctx s s'" "same_fs_of s s'" "vnodes_ok s'"
      "\<And>w. w \<noteq> v \<Longrightarrow> ref s' w = ref s w" "0 \<le> ref s' v" "ref s' v \<le> 1"
      using reclaim_law [OF vo assms(2) one] by blast
    have ctx: "knowndevs s' = knowndevs s" "cwd s' = cwd s" "lock_ok s'" "held s' w = held s w" for w
      using h(3) vfs_okD(2) [OF assms(1)] by (auto simp: same_ctx_def held_def lock_ok_def)
    have r: "held s' w + E w \<le> ref s' w" for w
      using vfs_okD(4) [OF assms(1), of w] h(6,7) ctx(4) [of w] z by (cases "w = v") (auto simp: one_def)
    have "\<exists>n. vnodes s' w = Some n \<and> vn_fs n \<noteq> None" if c: "cwd s p = Some w" for p w
    proof -
      have fin: "finite {p. cwd s p = Some w}"
        using assms(1) unfolding vfs_ok_def by (auto elim!: rev_finite_subset)
      have "0 < held s w" using c fin by (auto simp: held_def card_gt_0_iff intro!: add_pos_nonneg)
      then have wv: "w \<noteq> v" and "0 < ref s' w" using z r [of w] ctx(4) [of w] assms(3) [of w] by auto
      moreover have "0 < ref s w" using h(6) [OF wv] \<open>0 < ref s' w\<close> by simp
      ultimately show ?thesis using vfs_okD(6) [OF assms(1) c] h(4) unfolding same_fs_of_def ref_pos_iff by fastforce
    qed
    then have "vfs_ok E s'" using assms h(5) ctx r by (simp add: vfs_ok_def)
    then show ?thesis using n False h(1-3) vnode_check_ok [OF vo] by (simp add: vnode_decref_def)
  qed
qed

lemma drop_old_ok:
  assumes "vfs_ok (\<lambda>w. E w + from_opt old w) s" "I s" "\<And>w. 0 \<le> E w"
  shows "\<exists>s'. drop_old ops old s = Done s' \<and> vfs_ok E s' \<and> I s' \<and> same_ctx s s'"
proof (cases old)
  case None
  then show ?thesis using assms by (simp add: drop_old_def from_opt_def same_ctx_def)
next
  case (Some v)
  then show ?thesis using decref_ok [of E v s] assms by (simp add: drop_old_def from_opt_def)
qed

lemma setcurdir_ok:
  assumes "vfs_ok E s" "I s" "ref s dir > 0"
  shows "\<exists>r s'. vfs_setcurdir ops dir s = Done (r, s') \<and> vfs_ok E s' \<and> I s' \<and>
    cwd s' = (if r = None then (cwd s)(curproc s := Some dir) else cwd s) \<and> same_env s s'"
proof -
  have vo: "vnodes_ok s" and E: "0 \<le> E w" for w using assms(1) by (auto simp: vfs_ok_def)
  obtain ty s1 where g: "vop_gettype ops dir s = Done (ty, s1)" "since E s none s1"
    by (rule since_op [OF since_start [OF assms(1,2)] gettype_law [OF vo assms(2,3)]]) (simp_all add: none_def [abs_def])
  note ok1 = since_ok [OF g(2), simplified]
  have I1: "I s1" and r1: "ref s1 dir > 0" and c1: "cwd s1 = cwd s" "same_env s s1"
    using since_facts [OF g(2)] assms(3) g(2) by (auto simp: since_def fs_step_def same_ctx_def same_env_def)
  show ?thesis
  proof (cases "ty = Inr S_IFDIR")
    case False
    then show ?thesis using g(1) ok1 I1 c1 vnode_check_ok [OF vo assms(3)]
      by (cases ty) (auto simp: vfs_setcurdir_def)
  next
    case True
    obtain n where n: "vnodes s1 dir = Some n" "vn_fs n \<noteq> None" "vn_refcount n > 0"
      using dir_law [OF vo assms(2,3)] g(1) True r1 by (auto simp: ref_pos_iff)
    obtain s2 where s2: "vnode_incref dir s1 = Done s2" "fs_step s1 s2 (one dir)" "fs_same s1 s2"
      using vnode_incref_ok [OF vfs_okD(1) [OF ok1] r1] by blast
    have ok2: "vfs_ok (\<lambda>w. E w + from_opt (Some dir) w) s2"
      using vfs_ok_step [OF ok1 s2(2)] E by (simp add: from_opt_def)
    have "\<exists>n. vnodes s2 dir = Some n \<and> vn_fs n \<noteq> None"
    proof -
      have "map_option vnode_static (vnodes s2 dir) = Some (vnode_static n)" using s2(3) n(1) by (simp add: fs_same_def)
      then show ?thesis using n(2) by (auto simp: vnode_static_def)
    qed
    then have "vfs_ok (\<lambda>w. E w + from_opt (cwd s2 p) w) (s2\<lparr>cwd := (cwd s2)(p := Some dir)\<rparr>)"
      "fs_same s2 (s2\<lparr>cwd := (cwd s2)(p := Some dir)\<rparr>)" for p
      using swap_cwd [OF ok2, of p] E by auto
    then obtain s3 where "drop_old ops (cwd s2 (curproc s2)) (s2\<lparr>cwd := (cwd s2)(curproc s2 := Some dir)\<rparr>) = Done s3"
      "vfs_ok E s3" "I s3" "same_ctx (s2\<lparr>cwd := (cwd s2)(curproc s2 := Some dir)\<rparr>) s3"
      using drop_old_ok [of E "cwd s2 (curproc s2)"] I_same [OF I_same [OF I1 s2(3)]] E by blast
    moreover have "cwd s2 = cwd s" "same_env s s2" using c1 s2(2) by (auto simp: fs_step_def same_ctx_def same_env_def)
    ultimately show ?thesis using True g(1) s2(1) vnode_check_ok [OF vo assms(3)]
      by (auto simp: vfs_setcurdir_def Let_def same_ctx_def same_env_def)
  qed
qed

end

text \<open>The same for the boot file system, and for the operations that move these references.\<close>

lemma swap_bootfs:
  assumes "vfs_ok (\<lambda>w. E w + from_opt x w) s" "\<And>w. 0 \<le> E w"
  shows "vfs_ok (\<lambda>w. E w + from_opt (bootfs_vnode s) w) (s\<lparr>bootfs_vnode := x\<rparr>)"
    and "fs_same s (s\<lparr>bootfs_vnode := x\<rparr>)"
proof -
  have "held (s\<lparr>bootfs_vnode := x\<rparr>) w + from_opt (bootfs_vnode s) w = held s w + from_opt x w" for w
    by (simp add: held_def from_opt_simp)
  then have "held (s\<lparr>bootfs_vnode := x\<rparr>) w + (E w + from_opt (bootfs_vnode s) w) \<le> ref s w" for w
    using vfs_okD(4) [OF assms(1), of w] by (simp add: algebra_simps)
  moreover have "ref (s\<lparr>bootfs_vnode := x\<rparr>) w = ref s w" for w by (simp add: ref_def)
  moreover have "0 \<le> E w + from_opt (bootfs_vnode s) w" for w using assms(2) [of w] by (simp add: from_opt_simp)
  ultimately show "vfs_ok (\<lambda>w. E w + from_opt (bootfs_vnode s) w) (s\<lparr>bootfs_vnode := x\<rparr>)"
    using assms(1) by (simp add: vfs_ok_def vnodes_ok_def lock_ok_def)
  show "fs_same s (s\<lparr>bootfs_vnode := x\<rparr>)" by (simp add: fs_same_def ref_def)
qed

context filesystem
begin

definition keeps :: "(nat \<Rightarrow> int) \<Rightarrow> 'x vfs \<Rightarrow> ('r \<times> 'x vfs) outcome \<Rightarrow> bool" where
  "keeps E s m \<longleftrightarrow> (\<exists>r s'. m = Done (r, s') \<and> vfs_ok E s' \<and> I s' \<and> same_env s s')"

lemma keepsI: "m = Done (r, s') \<Longrightarrow> vfs_ok E s' \<Longrightarrow> I s' \<Longrightarrow> same_env s s' \<Longrightarrow> keeps E s m"
  by (auto simp: keeps_def)

lemma same_env_trans: "same_env s s1 \<Longrightarrow> same_env s1 s2 \<Longrightarrow> same_env s s2"
  by (simp add: same_env_def)

lemma ctx_env: "same_ctx s s' \<Longrightarrow> same_env s s'"
  by (simp add: same_ctx_def same_env_def)

lemma since_env: "since E s f s1 \<Longrightarrow> same_env s s1"
  by (simp add: since_def fs_step_def ctx_env)

lemma biglock_keeps:
  assumes "vfs_ok E s" "I s"
    and body: "\<And>s1. vfs_ok E s1 \<Longrightarrow> I s1 \<Longrightarrow> keeps E s1 (body s1)"
  shows "keeps E s (with_biglock body s)"
proof -
  let ?s1 = "s\<lparr>vfs_biglock := Some (curthread s), vfs_biglock_depth := vfs_biglock_depth s + 1\<rparr>"
  have lk: "lock_ok s" by (rule vfs_okD(2) [OF assms(1)])
  then have acq: "vfs_biglock_acquire s = Done ?s1"
    by (auto simp: vfs_biglock_acquire_def vfs_biglock_do_i_hold_def lock_ok_def)
  have "lock_ok ?s1" by (simp add: lock_ok_def)
  note r1 = relock [OF assms(1) this]
  obtain r s2 where b: "body ?s1 = Done (r, s2)" "vfs_ok E s2" "I s2" "same_env ?s1 s2"
    using body [OF r1(1) I_same [OF assms(2) r1(2)]] by (auto simp: keeps_def)
  let ?s3 = "s2\<lparr>vfs_biglock := vfs_biglock s, vfs_biglock_depth := vfs_biglock_depth s\<rparr>"
  have rel: "vfs_biglock_release s2 = Done ?s3"
    using b(4) lk by (auto simp: vfs_biglock_release_def vfs_biglock_do_i_hold_def kassert_def Let_def same_env_def lock_ok_def)
  have "lock_ok ?s3" using lk b(4) by (simp add: lock_ok_def same_env_def)
  note r3 = relock [OF b(2) this]
  have "same_env s ?s3" using b(4) by (simp add: same_env_def)
  then show ?thesis unfolding with_biglock_def acq
    using b(1) rel r3(1) I_same [OF b(3) r3(2)] by (intro keepsI [of _ r ?s3], simp, simp, simp, simp)
qed

lemma chdir_keeps:
  assumes "vfs_ok E s" "I s"
  shows "keeps E s (vfs_chdir ops path s)"
proof -
  have E: "0 \<le> E w" for w using assms(1) by (simp add: vfs_ok_def)
  obtain r s1 where g: "vfs_lookup ops path s = Done (r, s1)" "since E s (handed r) s1"
    using sinceE [OF assms(1) lookup_returns [OF assms] handed_nonneg] .
  note ok1 = since_ok [OF g(2)] and I1 = since_facts(1) [OF g(2)] and env1 = since_env [OF g(2)]
  show ?thesis
  proof (cases r)
    case (Inl e)
    then show ?thesis using ok1 g(1) I1 env1 unfolding vfs_chdir_def by (intro keepsI [of _ "Some e" s1], simp_all)
  next
    case (Inr v)
    have "ref s1 v > 0" using since_facts(3) [OF g(2), of v] Inr by simp
    then obtain q s2 where s2: "vfs_setcurdir ops v s1 = Done (q, s2)" "vfs_ok (\<lambda>w. E w + handed r w) s2" "I s2" "same_env s1 s2"
      using setcurdir_ok [OF ok1 I1, of v] by auto
    then obtain s3 where "vnode_decref ops v s2 = Done s3" "vfs_ok E s3" "I s3" "same_ctx s2 s3"
      using decref_ok [of E v s2] E Inr by auto
    then show ?thesis using g(1) Inr s2(1) same_env_trans [OF env1 same_env_trans [OF s2(4) ctx_env]]
      unfolding vfs_chdir_def by (intro keepsI [of _ q s3], simp_all)
  qed
qed

lemma change_bootfs_ok:
  assumes "vfs_ok (\<lambda>w. E w + from_opt x w) s" "I s" "\<And>w. 0 \<le> E w"
  shows "\<exists>s'. change_bootfs ops x s = Done s' \<and> vfs_ok E s' \<and> I s' \<and> same_env s s'"
proof -
  note sw = swap_bootfs [OF assms(1,3)]
  obtain s' where "drop_old ops (bootfs_vnode s) (s\<lparr>bootfs_vnode := x\<rparr>) = Done s'" "vfs_ok E s'" "I s'"
    "same_ctx (s\<lparr>bootfs_vnode := x\<rparr>) s'"
    using drop_old_ok [OF sw(1) I_same [OF assms(2) sw(2)] assms(3)] by blast
  then show ?thesis by (auto simp: change_bootfs_def Let_def same_ctx_def same_env_def)
qed

lemma setbootfs_keeps:
  assumes "vfs_ok E s" "I s"
  shows "keeps E s (vfs_setbootfs ops nm s)"
  unfolding vfs_setbootfs_def
proof (rule biglock_keeps [OF assms])
  fix s1 assume s1: "vfs_ok E s1" "I s1"
  have E: "0 \<le> E w" for w using assms(1) by (simp add: vfs_ok_def)
  let ?tmp = "take (NAME_MAX - 1) nm"
  obtain r s2 where c: "vfs_chdir ops (?tmp @ '':'') s1 = Done (r, s2)" "vfs_ok E s2" "I s2" "same_env s1 s2"
    using chdir_keeps [OF s1, of "?tmp @ '':''"] unfolding keeps_def by blast
  obtain q s3 where d: "vfs_getcurdir s2 = Done (q, s3)" "since E s2 (handed q) s3"
    using sinceE [OF c(2) getcurdir_returns [OF c(2,3)] handed_nonneg] .
  note ok3 = since_ok [OF d(2)] and I3 = since_facts(1) [OF d(2)]
  have env3: "same_env s1 s3" by (rule same_env_trans [OF c(4) since_env [OF d(2)]])
  have set: "\<exists>s4. change_bootfs ops (Some v) s3 = Done s4 \<and> vfs_ok E s4 \<and> I s4 \<and> same_env s1 s4" if "q = Inr v" for v
    using change_bootfs_ok [of E "Some v" s3] ok3 I3 E that same_env_trans [OF env3] by (auto simp: from_opt_def)
  have "keeps E s1 (Done (Some EINVAL, s1))" using s1 by (intro keepsI [of _ "Some EINVAL" s1]) (simp_all add: same_env_def)
  moreover have "keeps E s1 (Done (r, s2))" using c by (intro keepsI [of _ r s2]) simp_all
  moreover have "keeps E s1 (Done (Some e, s3))" if "q = Inl e" for e
    using that ok3 I3 env3 by (intro keepsI [of _ "Some e" s3]) simp_all
  ultimately show "keeps E s1 (let tmp = ?tmp; at_colon = dropWhile (\<lambda>c. c \<noteq> CHR '':'') tmp in
     if at_colon \<noteq> [] \<and> length at_colon > 0 then Done (Some EINVAL, s1) else
     let tmp = tmp @ '':'' in
     obind (vfs_chdir ops tmp s1) (\<lambda>(r, s). if r \<noteq> None then Done (r, s) else
     obind (vfs_getcurdir s) (\<lambda>(r, s). case r of Inl e \<Rightarrow> Done (Some e, s) | Inr newguy \<Rightarrow>
     obind (change_bootfs ops (Some newguy) s) (\<lambda>s. Done (None, s)))))"
    using c(1) d(1) set unfolding Let_def keeps_def by (cases q) auto
qed

lemma clearbootfs_keeps:
  assumes "vfs_ok E s" "I s"
  shows "\<exists>s'. vfs_clearbootfs ops s = Done s' \<and> vfs_ok E s' \<and> I s' \<and> same_env s s'"
proof -
  have "keeps E s (with_biglock (\<lambda>s. obind (change_bootfs ops None s) (\<lambda>s. Done ((), s))) s)"
  proof (rule biglock_keeps [OF assms])
    fix s1 assume s1: "vfs_ok E s1" "I s1"
    then obtain s' where "change_bootfs ops None s1 = Done s'" "vfs_ok E s'" "I s'" "same_env s1 s'"
      using change_bootfs_ok [of E None s1] assms(1) by (auto simp: from_opt_def vfs_ok_def)
    then show "keeps E s1 (obind (change_bootfs ops None s1) (\<lambda>s. Done ((), s)))" by (simp add: keeps_def)
  qed
  then show ?thesis by (auto simp: keeps_def vfs_clearbootfs_def)
qed

lemma clearcurdir_keeps:
  assumes "vfs_ok E s" "I s"
  shows "keeps E s (vfs_clearcurdir ops s)"
proof -
  have E: "0 \<le> E w" for w using assms(1) by (simp add: vfs_ok_def)
  have "vfs_ok (\<lambda>w. E w + from_opt None w) s" using assms(1) by (simp add: from_opt_def)
  note sw = swap_cwd [OF this, of "curproc s", simplified, OF E]
  obtain s' where "drop_old ops (cwd s (curproc s)) (s\<lparr>cwd := (cwd s)(curproc s := None)\<rparr>) = Done s'" "vfs_ok E s'" "I s'"
    "same_ctx (s\<lparr>cwd := (cwd s)(curproc s := None)\<rparr>) s'"
    using drop_old_ok [OF sw(1) I_same [OF assms(2) sw(2)] E] by blast
  then show ?thesis unfolding vfs_clearcurdir_def Let_def
    by (intro keepsI [of _ None s']) (auto simp: same_ctx_def same_env_def)
qed

end

section \<open>Sequences of calls\<close>

text \<open>A client of the layer: it opens and closes files and calls the operations on pathnames, in
  any order, and holds one reference for each vnode it has open.\<close>

datatype vfs_call =
    VOpen string u32 u32
  | VClose nat
  | VRemove string
  | VMkdir string u32
  | VRmdir string
  | VSymlink string string
  | VLink string string
  | VRename string string
  | VChdir string
  | VClearcurdir
  | VSetbootfs string
  | VClearbootfs

definition drop_result :: "nat list \<Rightarrow> ('r \<times> 'x vfs) outcome \<Rightarrow> (nat list \<times> 'x vfs) outcome" where
  "drop_result opened m = obind m (\<lambda>(r, s). Done (opened, s))"

fun vfs_do :: "'x vnode_ops \<Rightarrow> vfs_call \<Rightarrow> nat list \<times> 'x vfs \<Rightarrow> (nat list \<times> 'x vfs) outcome" where
  "vfs_do ops (VOpen path fl mode) (opened, s) =
     obind (vfs_open ops path fl mode s) (\<lambda>(r, s).
     Done (case r of Inl e \<Rightarrow> opened | Inr v \<Rightarrow> v # opened, s))"
| "vfs_do ops (VClose i) (opened, s) =
     (if i < length opened
      then obind (vfs_close ops (opened ! i) s) (\<lambda>s. Done (take i opened @ drop (Suc i) opened, s))
      else Done (opened, s))"
| "vfs_do ops (VRemove path) (opened, s) = drop_result opened (vfs_remove ops path s)"
| "vfs_do ops (VMkdir path mode) (opened, s) = drop_result opened (vfs_mkdir ops path mode s)"
| "vfs_do ops (VRmdir path) (opened, s) = drop_result opened (vfs_rmdir ops path s)"
| "vfs_do ops (VSymlink contents path) (opened, s) = drop_result opened (vfs_symlink ops contents path s)"
| "vfs_do ops (VLink old new) (opened, s) = drop_result opened (vfs_link ops old new s)"
| "vfs_do ops (VRename old new) (opened, s) = drop_result opened (vfs_rename ops old new s)"
| "vfs_do ops (VChdir path) (opened, s) = drop_result opened (vfs_chdir ops path s)"
| "vfs_do ops VClearcurdir (opened, s) = drop_result opened (vfs_clearcurdir ops s)"
| "vfs_do ops (VSetbootfs nm) (opened, s) = drop_result opened (vfs_setbootfs ops nm s)"
| "vfs_do ops VClearbootfs (opened, s) = obind (vfs_clearbootfs ops s) (\<lambda>s. Done (opened, s))"

fun vfs_run :: "'x vnode_ops \<Rightarrow> vfs_call list \<Rightarrow> nat list \<times> 'x vfs \<Rightarrow> (nat list \<times> 'x vfs) outcome" where
  "vfs_run ops [] st = Done st"
| "vfs_run ops (c # cs) st = obind (vfs_do ops c st) (vfs_run ops cs)"

definition open_refs :: "nat list \<Rightarrow> nat \<Rightarrow> int" where
  "open_refs opened v = int (count_list opened v)"

lemma open_refs_Cons: "open_refs (v # opened) = (\<lambda>w. open_refs opened w + one v w)"
  by (auto simp: open_refs_def one_def)

lemma open_refs_take_drop:
  assumes "i < length xs"
  shows "open_refs xs = (\<lambda>w. open_refs (take i xs @ drop (Suc i) xs) w + one (xs ! i) w)"
proof -
  have "open_refs xs w = open_refs (take i xs @ xs ! i # drop (Suc i) xs) w" for w
    using id_take_nth_drop [OF assms] by simp
  then show ?thesis by (auto simp: open_refs_def one_def)
qed

context filesystem
begin

lemma keeps_run:
  assumes "keeps (open_refs opened) s m"
  shows "\<exists>opened' s'. drop_result opened m = Done (opened', s') \<and> vfs_ok (open_refs opened') s' \<and> I s'"
  using assms by (auto simp: keeps_def drop_result_def)

lemma returns_run:
  assumes "vfs_ok (open_refs opened) s" "returns I no_refs s m"
  shows "\<exists>opened' s'. drop_result opened m = Done (opened', s') \<and> vfs_ok (open_refs opened') s' \<and> I s'"
proof -
  obtain r s' where r: "m = Done (r, s')" "I s'" "fs_step s s' none"
    using assms(2) by (auto simp: returns_def)
  then show ?thesis using vfs_ok_step [OF assms(1) r(3)] vfs_okD(3) [OF assms(1)] by (simp add: drop_result_def)
qed

lemma parent_ops_return:
  assumes "vfs_ok E s" "I s"
  shows "returns I no_refs s (vfs_remove ops path s)" "returns I no_refs s (vfs_mkdir ops path mode s)"
    "returns I no_refs s (vfs_rmdir ops path s)" "returns I no_refs s (vfs_symlink ops contents path s)"
  unfolding vfs_remove_def vfs_mkdir_def vfs_rmdir_def vfs_symlink_def
  by (intro in_parent_returns [OF assms] remove_law mkdir_law rmdir_law symlink_law; assumption)+

lemma vfs_do_ok:
  assumes "vfs_ok (open_refs opened) s" "I s"
  shows "\<exists>opened' s'. vfs_do ops c (opened, s) = Done (opened', s') \<and> vfs_ok (open_refs opened') s' \<and> I s'"
proof (cases c)
  case (VOpen path fl mode)
  obtain r s' where r: "vfs_open ops path fl mode s = Done (r, s')" "since (open_refs opened) s (handed r) s'"
    using sinceE [OF assms(1) open_returns [OF assms] handed_nonneg] .
  then show ?thesis using VOpen since_ok [OF r(2)] since_facts(1) [OF r(2)]
    by (cases r) (simp_all add: open_refs_Cons)
next
  case (VClose i)
  show ?thesis
  proof (cases "i < length opened")
    case True
    let ?rest = "take i opened @ drop (Suc i) opened"
    obtain s' where "vnode_decref ops (opened ! i) s = Done s'" "vfs_ok (open_refs ?rest) s'" "I s'"
      using decref_ok [of "open_refs ?rest" "opened ! i" s] assms open_refs_take_drop [OF True]
      by (auto simp: open_refs_def [of ?rest])
    then show ?thesis using VClose True by (intro exI [of _ ?rest] exI [of _ s']) (simp add: vfs_close_def)
  qed (use VClose assms in simp)
next
  case VClearbootfs
  then show ?thesis using clearbootfs_keeps [OF assms] by auto
qed (simp_all add: returns_run [OF assms(1)] parent_ops_return [OF assms] link_returns [OF assms] rename_returns [OF assms]
    keeps_run [OF chdir_keeps [OF assms]] keeps_run [OF clearcurdir_keeps [OF assms]] keeps_run [OF setbootfs_keeps [OF assms]])

lemma vfs_run_ok:
  assumes "vfs_ok (open_refs opened) s" "I s"
  shows "\<exists>opened' s'. vfs_run ops cs (opened, s) = Done (opened', s') \<and> vfs_ok (open_refs opened') s' \<and> I s'"
  using assms
proof (induction cs arbitrary: opened s)
  case (Cons c cs)
  obtain opened' s' where "vfs_do ops c (opened, s) = Done (opened', s')" "vfs_ok (open_refs opened') s'" "I s'"
    using vfs_do_ok [OF Cons.prems] by blast
  then show ?case using Cons.IH by simp
qed simp

end

end
