(* ===== verification/Device.thy ===== *)
theory Device
  imports VfsRefs
begin

text \<open>
  Vnodes of devices (\<^verbatim>\<open>kern/vfs/device.c\<close>, \<^verbatim>\<open>kern/vfs/vfsfail.c\<close>) and the null device
  (\<^verbatim>\<open>kern/vfs/devnull.c\<close>).  The private state of the layer is the table of devices and the
  state \<open>'d\<close> of the drivers, whose operations are the argument \<open>dops\<close>.  Devices satisfy the
  contract that the VFS layer expects of a file system.
\<close>

unbundle bit_operations_syntax

record device =
  d_blocks :: u32
  d_blocksize :: u32

record 'd devs =
  dev_tab :: "nat \<rightharpoonup> device"
  drv :: 'd

record 'd device_ops =
  devop_eachopen :: "nat \<Rightarrow> u32 \<Rightarrow> 'd devs vop"
  devop_io :: "nat \<Rightarrow> 'd devs vop_uio"
  devop_ioctl :: "nat \<Rightarrow> u32 \<Rightarrow> u32 \<Rightarrow> 'd devs vop"

text \<open>\<^verbatim>\<open>v->vn_data\<close>\<close>

definition dev_of :: "nat \<Rightarrow> 'd devs vfs \<Rightarrow> (nat \<times> device) outcome" where
  "dev_of v s =
     obind (deref (vnodes s v)) (\<lambda>n.
     obind (deref (vn_data n)) (\<lambda>d.
     obind (deref (dev_tab (fsx s) d)) (\<lambda>dv. Done (d, dv))))"

definition dev_eachopen :: "'d device_ops \<Rightarrow> nat \<Rightarrow> u32 \<Rightarrow> 'd devs vop" where
  "dev_eachopen dops v flags s =
     obind (dev_of v s) (\<lambda>(d, dv).
     if flags AND (O_CREAT OR O_TRUNC OR O_EXCL OR O_APPEND) \<noteq> 0 then Done (Some EINVAL, s)
     else devop_eachopen dops d flags s)"

definition dev_reclaim :: "nat \<Rightarrow> 'd devs vop" where
  "dev_reclaim v s = Done (None, s)"

definition dev_tryseek :: "device \<Rightarrow> u64 \<Rightarrow> errno option outcome" where
  "dev_tryseek dv pos =
     (if d_blocks dv > 0 then
        (if d_blocksize dv = 0 then Stop Fault
         else if sint pos mod uint (d_blocksize dv) \<noteq> 0 then Done (Some EINVAL)
         else if sint pos div uint (d_blocksize dv) \<ge> uint (d_blocks dv) then Done (Some EINVAL)
         else Done None)
      else Done None)"

definition dev_io :: "'d device_ops \<Rightarrow> uio_rw \<Rightarrow> nat \<Rightarrow> 'd devs vop_uio" where
  "dev_io dops rw v u m s =
     obind (dev_of v s) (\<lambda>(d, dv).
     obind (dev_tryseek dv (uio_offset u)) (\<lambda>r.
     if r \<noteq> None then Done (r, u, m, s) else
     obind (kassert (uio_rw u = rw)) (\<lambda>_. devop_io dops d u m s)))"

definition dev_read :: "'d device_ops \<Rightarrow> nat \<Rightarrow> 'd devs vop_uio" where
  "dev_read dops = dev_io dops UIO_READ"

definition dev_write :: "'d device_ops \<Rightarrow> nat \<Rightarrow> 'd devs vop_uio" where
  "dev_write dops = dev_io dops UIO_WRITE"

definition dev_ioctl :: "'d device_ops \<Rightarrow> nat \<Rightarrow> u32 \<Rightarrow> u32 \<Rightarrow> 'd devs vop" where
  "dev_ioctl dops v op data s = obind (dev_of v s) (\<lambda>(d, dv). devop_ioctl dops d op data s)"

definition dev_gettype :: "nat \<Rightarrow> ('d devs, u32) vop_ret" where
  "dev_gettype v s =
     obind (dev_of v s) (\<lambda>(d, dv). Done (Inr (if d_blocks dv > 0 then S_IFBLK else S_IFCHR), s))"

definition dev_stat :: "nat \<Rightarrow> ('d devs, stat) vop_ret" where
  "dev_stat v s =
     obind (dev_of v s) (\<lambda>(d, dv).
     obind (vnode_check v s) (\<lambda>_.
     obind (dev_gettype v s) (\<lambda>(r, s). case r of Inl e \<Rightarrow> Done (Inl e, s) | Inr ty \<Rightarrow>
     Done (Inr \<lparr>st_size = (if d_blocks dv > 0 then ucast (d_blocks dv * d_blocksize dv) else 0),
                st_mode = ty OR 0x180, st_nlink = 1, st_blocks = d_blocks dv, st_dev = 0,
                st_rdev = d_devnumber s d,
                st_blksize = (if d_blocks dv > 0 then d_blocksize dv else 0)\<rparr>, s))))"

definition dev_isseekable :: "nat \<Rightarrow> 'd devs vfs \<Rightarrow> bool" where
  "dev_isseekable v s =
     (case dev_of v s of Done (d, dv) \<Rightarrow> d_blocks dv \<noteq> 0 | Stop _ \<Rightarrow> False)"

definition null_fsync :: "nat \<Rightarrow> 'd devs vop" where
  "null_fsync v s = Done (None, s)"

definition dev_mmap :: "nat \<Rightarrow> 'd devs vop" where
  "dev_mmap v s = Done (Some ENOSYS, s)"

definition dev_truncate :: "nat \<Rightarrow> u64 \<Rightarrow> 'd devs vop" where
  "dev_truncate v len s =
     obind (dev_of v s) (\<lambda>(d, dv).
     Done (if d_blocks dv > 0 \<and> ucast (d_blocks dv * d_blocksize dv) = len then None else Some EINVAL, s))"

definition dev_namefile :: "nat \<Rightarrow> 'd devs vop_uio" where
  "dev_namefile v u m s = Done (None, u, m, s)"

definition dev_lookup :: "nat \<Rightarrow> string \<Rightarrow> ('d devs, nat) vop_ret" where
  "dev_lookup dir pathname s =
     (if length pathname > 0 then Done (Inl ENOENT, s)
      else obind (vnode_incref dir s) (\<lambda>s. Done (Inr dir, s)))"

text \<open>The stubs of \<^verbatim>\<open>vfsfail.c\<close> that the table uses.\<close>

definition vopfail_uio_inval :: "nat \<Rightarrow> 'x vop_uio" where
  "vopfail_uio_inval v u m s = Done (Some EINVAL, u, m, s)"

definition vopfail_uio_notdir :: "nat \<Rightarrow> 'x vop_uio" where
  "vopfail_uio_notdir v u m s = Done (Some ENOTDIR, u, m, s)"

definition vopfail_creat_notdir :: "nat \<Rightarrow> string \<Rightarrow> bool \<Rightarrow> u32 \<Rightarrow> ('x, nat) vop_ret" where
  "vopfail_creat_notdir v name excl mode s = Done (Inl ENOTDIR, s)"

definition vopfail_symlink_notdir :: "nat \<Rightarrow> string \<Rightarrow> string \<Rightarrow> 'x vop" where
  "vopfail_symlink_notdir v contents name s = Done (Some ENOTDIR, s)"

definition vopfail_mkdir_notdir :: "nat \<Rightarrow> string \<Rightarrow> u32 \<Rightarrow> 'x vop" where
  "vopfail_mkdir_notdir v name mode s = Done (Some ENOTDIR, s)"

definition vopfail_link_notdir :: "nat \<Rightarrow> string \<Rightarrow> nat \<Rightarrow> 'x vop" where
  "vopfail_link_notdir v name file s = Done (Some ENOTDIR, s)"

definition vopfail_string_notdir :: "nat \<Rightarrow> string \<Rightarrow> 'x vop" where
  "vopfail_string_notdir v name s = Done (Some ENOTDIR, s)"

definition vopfail_rename_notdir :: "nat \<Rightarrow> string \<Rightarrow> nat \<Rightarrow> string \<Rightarrow> 'x vop" where
  "vopfail_rename_notdir v name w name' s = Done (Some ENOTDIR, s)"

definition vopfail_lookparent_notdir :: "nat \<Rightarrow> string \<Rightarrow> nat \<Rightarrow> ('x, nat \<times> string) vop_ret" where
  "vopfail_lookparent_notdir v path len s = Done (Inl ENOTDIR, s)"

text \<open>The function table; the operations on file systems are those of \<open>F\<close>, as a device has none.\<close>

definition dev_vnode_ops :: "'d device_ops \<Rightarrow> 'd devs vnode_ops \<Rightarrow> 'd devs vnode_ops" where
  "dev_vnode_ops dops F =
     \<lparr>vop_eachopen = dev_eachopen dops, vop_reclaim = dev_reclaim, vop_read = dev_read dops,
      vop_readlink = vopfail_uio_inval, vop_getdirentry = vopfail_uio_notdir, vop_write = dev_write dops,
      vop_ioctl = dev_ioctl dops, vop_stat = dev_stat, vop_gettype = dev_gettype, vop_isseekable = dev_isseekable,
      vop_fsync = null_fsync, vop_mmap = dev_mmap, vop_truncate = dev_truncate, vop_namefile = dev_namefile,
      vop_creat = vopfail_creat_notdir, vop_symlink = vopfail_symlink_notdir,
      vop_mkdir = vopfail_mkdir_notdir, vop_link = vopfail_link_notdir, vop_remove = vopfail_string_notdir,
      vop_rmdir = vopfail_string_notdir, vop_rename = vopfail_rename_notdir, vop_lookup = dev_lookup,
      vop_lookparent = vopfail_lookparent_notdir, fsop_getvolname = fsop_getvolname F,
      fsop_getroot = fsop_getroot F, fsop_sync = fsop_sync F, fsop_unmount = fsop_unmount F\<rparr>"

section \<open>The null device\<close>

definition nullopen :: "nat \<Rightarrow> u32 \<Rightarrow> 'd devs vop" where
  "nullopen dev openflags s = Done (None, s)"

definition nullio :: "nat \<Rightarrow> 'd devs vop_uio" where
  "nullio dev u m s =
     Done (None, if uio_rw u = UIO_WRITE then u\<lparr>uio_resid := 0\<rparr> else u, m, s)"

definition nullioctl :: "nat \<Rightarrow> u32 \<Rightarrow> u32 \<Rightarrow> 'd devs vop" where
  "nullioctl dev op data s = Done (Some EINVAL, s)"

definition null_devops :: "'d device_ops" where
  "null_devops = \<lparr>devop_eachopen = nullopen, devop_io = nullio, devop_ioctl = nullioctl\<rparr>"

text \<open>The new device gets the number \<open>dev\<close>, the block that \<^verbatim>\<open>kmalloc\<close> returned.\<close>

definition devnull_create :: "'d devs vnode_ops \<Rightarrow> 'd devs vfs \<Rightarrow> 'd devs vfs outcome" where
  "devnull_create ops s =
     (case kmalloc_vfs s of
        (None, s) \<Rightarrow> Stop Panic
      | (Some dev, s) \<Rightarrow>
          let s = s\<lparr>fsx := (fsx s)\<lparr>dev_tab := (dev_tab (fsx s))(dev \<mapsto> \<lparr>d_blocks = 0, d_blocksize = 1\<rparr>)\<rparr>,
                    d_devnumber := (d_devnumber s)(dev := 0)\<rparr> in
          obind (vfs_adddev ops ''null'' dev False s) (\<lambda>(r, s). if r \<noteq> None then Stop Panic else Done s))"

section \<open>Devices satisfy the contract\<close>

text \<open>The state of a system whose only vnodes are devices, all of the kind \<open>K\<close>.\<close>

definition dev_inv :: "(device \<Rightarrow> bool) \<Rightarrow> 'd devs vfs \<Rightarrow> bool" where
  "dev_inv K s \<longleftrightarrow> (\<forall>fs. \<not> fs_live s fs) \<and> (\<forall>d dv. dev_tab (fsx s) d = Some dv \<longrightarrow> K dv) \<and>
     (\<forall>v n. vnodes s v = Some n \<longrightarrow> vn_refcount n > 0 \<longrightarrow>
        (\<exists>d dv. vn_data n = Some d \<and> dev_tab (fsx s) d = Some dv))"

text \<open>What the layer relies on of a driver: opening a device returns and touches no vnode.\<close>

locale device_driver =
  fixes dops :: "'d device_ops" and F :: "'d devs vnode_ops" and K :: "device \<Rightarrow> bool"
  assumes open_law: "vnodes_ok s \<Longrightarrow> dev_inv K s \<Longrightarrow> dev_tab (fsx s) d = Some dv \<Longrightarrow>
    returns (dev_inv K) no_refs s (devop_eachopen dops d fl s)"

lemma dev_of_ok:
  "dev_inv K s \<Longrightarrow> ref s v > 0 \<Longrightarrow> \<exists>d dv. dev_of v s = Done (d, dv) \<and> dev_tab (fsx s) d = Some dv"
  by (fastforce simp: dev_inv_def ref_pos_iff dev_of_def)

lemma returns_same: "vnodes_ok s \<Longrightarrow> I s \<Longrightarrow> Q r = none \<Longrightarrow> returns I Q s (Done (r, s))"
  using fs_step_refl by (auto simp: returns_def)

lemma dev_inv_same:
  assumes "dev_inv K s" "fs_same s s'"
  shows "dev_inv K s'"
proof -
  have st: "map_option vnode_static (vnodes s' v) = map_option vnode_static (vnodes s v)"
    and r: "ref s' v > 0 \<longleftrightarrow> ref s v > 0" and k: "knowndevs s' = knowndevs s" "fsx s' = fsx s" for v
    using assms(2) by (auto simp: fs_same_def)
  have old: "\<exists>m. vnodes s v = Some m \<and> vn_refcount m > 0 \<and> vnode_static m = vnode_static n"
    if "vnodes s' v = Some n" "vn_refcount n > 0" for v n
  proof -
    have "ref s v > 0" using that r [of v] by (auto simp: ref_pos_iff)
    then obtain m where "vnodes s v = Some m" "vn_refcount m > 0" by (auto simp: ref_pos_iff)
    then show ?thesis using st [of v] that by auto
  qed
  have "\<not> fs_live s' fs" for fs
  proof
    assume "fs_live s' fs"
    then have "fs_live s fs" using old k unfolding fs_live_def vnode_static_def by fastforce
    then show False using assms(1) by (simp add: dev_inv_def)
  qed
  moreover have "\<exists>d dv. vn_data n = Some d \<and> dev_tab (fsx s') d = Some dv"
    if h: "vnodes s' v = Some n" "vn_refcount n > 0" for v n
  proof -
    obtain m where m: "vnodes s v = Some m" "vn_refcount m > 0" "vn_data m = vn_data n"
      using old [OF h] by (auto simp: vnode_static_def)
    then show ?thesis using assms(1) k unfolding dev_inv_def by metis
  qed
  moreover have "K dv" if "dev_tab (fsx s') d = Some dv" for d dv using assms(1) that k by (simp add: dev_inv_def)
  ultimately show ?thesis unfolding dev_inv_def by blast
qed

lemmas dev_fails = vopfail_creat_notdir_def vopfail_symlink_notdir_def vopfail_mkdir_notdir_def
  vopfail_link_notdir_def vopfail_string_notdir_def vopfail_rename_notdir_def vopfail_lookparent_notdir_def

sublocale device_driver \<subseteq> filesystem "dev_vnode_ops dops F" "dev_inv K"
proof
  fix s s' :: "'d devs vfs" and v w d len nm nm' c md ex fl n fs
  assume "dev_inv K s" "fs_same s s'"
  then show "dev_inv K s'" by (rule dev_inv_same)
next
  fix s :: "'d devs vfs" and v
  assume ok: "vnodes_ok s" "dev_inv K s" "ref s v = 1"
  then show "\<exists>r s'. vop_reclaim (dev_vnode_ops dops F) v s = Done (r, s') \<and> dev_inv K s' \<and> same_ctx s s' \<and>
      same_fs_of s s' \<and> vnodes_ok s' \<and> (\<forall>w. w \<noteq> v \<longrightarrow> ref s' w = ref s w) \<and> 0 \<le> ref s' v \<and> ref s' v \<le> 1"
    using fs_step_refl [OF ok(1)] by (simp add: dev_vnode_ops_def dev_reclaim_def fs_step_def)
next
  fix s :: "'d devs vfs" and v fl
  assume ok: "vnodes_ok s" "dev_inv K s" "ref s v > 0"
  obtain d dv where "dev_of v s = Done (d, dv)" "dev_tab (fsx s) d = Some dv" using dev_of_ok [OF ok(2,3)] by blast
  then show "returns (dev_inv K) no_refs s (vop_eachopen (dev_vnode_ops dops F) v fl s)"
    using ok open_law by (auto simp: dev_vnode_ops_def dev_eachopen_def returns_same)
next
  fix s :: "'d devs vfs" and v n
  assume ok: "vnodes_ok s" "dev_inv K s" "ref s v > 0"
  then show "returns (dev_inv K) no_refs s (vop_truncate (dev_vnode_ops dops F) v n s)"
    using dev_of_ok [OF ok(2,3)] by (auto simp: dev_vnode_ops_def dev_truncate_def returns_same)
  show "returns (dev_inv K) no_refs s (vop_gettype (dev_vnode_ops dops F) v s)"
    using dev_of_ok [OF ok(2,3)] ok by (auto simp: dev_vnode_ops_def dev_gettype_def returns_same)
next
  fix s s' :: "'d devs vfs" and v
  assume ok: "vnodes_ok s" "dev_inv K s" "ref s v > 0" "vop_gettype (dev_vnode_ops dops F) v s = Done (Inr S_IFDIR, s')"
  then show "\<exists>n. vnodes s' v = Some n \<and> vn_fs n \<noteq> None"
    using dev_of_ok [OF ok(2,3)]
    by (auto simp: dev_vnode_ops_def dev_gettype_def S_IFDIR_def S_IFBLK_def S_IFCHR_def split: if_splits)
next
  fix s :: "'d devs vfs" and v w nm nm' c md ex len
  assume ok: "vnodes_ok s" "dev_inv K s" "ref s v > 0"
  show "returns (dev_inv K) no_refs s (vop_symlink (dev_vnode_ops dops F) v nm c s)"
    "returns (dev_inv K) no_refs s (vop_mkdir (dev_vnode_ops dops F) v nm md s)"
    "returns (dev_inv K) no_refs s (vop_remove (dev_vnode_ops dops F) v nm s)"
    "returns (dev_inv K) no_refs s (vop_rmdir (dev_vnode_ops dops F) v nm s)"
    "returns (dev_inv K) no_refs s (vop_link (dev_vnode_ops dops F) v nm w s)"
    "returns (dev_inv K) no_refs s (vop_rename (dev_vnode_ops dops F) v nm w nm' s)"
    "returns (dev_inv K) handed s (vop_creat (dev_vnode_ops dops F) v nm ex md s)"
    "returns (dev_inv K) handed_dir s (vop_lookparent (dev_vnode_ops dops F) v nm len s)"
    using ok by (simp_all add: dev_vnode_ops_def dev_fails returns_same)
next
  fix s :: "'d devs vfs" and v p
  assume ok: "vnodes_ok s" "dev_inv K s" "ref s v > 0"
  show "returns (dev_inv K) handed s (vop_lookup (dev_vnode_ops dops F) v p s)"
    using ok vnode_incref_ok [OF ok(1,3)] dev_inv_same [OF ok(2)]
    by (auto simp: dev_vnode_ops_def dev_lookup_def returns_def fs_step_refl)
next
  fix s :: "'d devs vfs" and fs
  assume "dev_inv K s" "fs_live s fs"
  then show "returns (dev_inv K) handed s (fsop_getroot (dev_vnode_ops dops F) fs s)" by (simp add: dev_inv_def)
qed

interpretation null_device: device_driver null_devops F K for F K
  by unfold_locales (simp add: null_devops_def nullopen_def returns_same)


section \<open>Properties of the VFS layer\<close>


definition demo_devs :: "unit devs vfs" where
  "demo_devs = \<lparr>vnodes = [7 \<mapsto> \<lparr>vn_refcount = 1, vn_fs = None, vn_data = Some 3, vn_ops = Some DevOps\<rparr>],
     knowndevs = [\<lparr>kd_name = ''null'', kd_rawname = None, kd_device = Some 3, kd_vnode = 7, kd_fs = None\<rparr>],
     kd_room = (\<lambda>n. True), d_devnumber = (\<lambda>d. 1), vfs_biglock = None, vfs_biglock_depth = 0,
     bootfs_vnode = None, cwd = (\<lambda>p. None), curthread = 0, curproc = 0,
     vfsheap = \<lparr>kh_next = 8, kh_live = [7, 3], kh_avail = (\<lambda>n. True)\<rparr>,
     fsx = \<lparr>dev_tab = [3 \<mapsto> \<lparr>d_blocks = 0, d_blocksize = 1\<rparr>], drv = ()\<rparr>\<rparr>"

text \<open>A kernel without file systems besides the device.\<close>

definition demo_fs :: "unit devs vnode_ops" where
  "demo_fs = (dev_vnode_ops null_devops undefined)
     \<lparr>fsop_getvolname := (\<lambda>fs s. None), fsop_getroot := (\<lambda>fs s. Done (Inl ENODEV, s)),
      fsop_sync := (\<lambda>fs s. Done (None, s)), fsop_unmount := (\<lambda>fs s. Done (Some EBUSY, s))\<rparr>"

lemma demo_devs_ok: "vfs_ok none demo_devs" "dev_inv (\<lambda>dv. d_blocks dv = 0) demo_devs"
  by (auto simp: vfs_ok_def vnodes_ok_def lock_ok_def held_def ref_def none_def kd_ok_def demo_devs_def
      dev_inv_def fs_live_def fun_upd_apply split: if_splits option.splits)

lemma open_refs_Nil: "open_refs [] = none"
  by (simp add: open_refs_def none_def fun_eq_iff)

lemma demo_filesystem: "filesystem (dev_vnode_ops null_devops F) (dev_inv K)"
  by (rule null_device.filesystem_axioms)


text \<open>C10: opening a file takes one reference on the vnode it returns, on failure none, and leaves
  every other count as it was, whichever of its steps failed; closing gives it back.\<close>

theorem vfs_open_close_balanced:
  assumes "filesystem ops I" "vfs_ok E s" "I s"
  shows "\<exists>r s1. vfs_open ops path fl mode s = Done (r, s1) \<and> vfs_ok (\<lambda>w. E w + handed r w) s1 \<and>
    (\<forall>w. 0 < ref s w \<longrightarrow> ref s1 w = ref s w + handed r w) \<and>
    (\<forall>v. r = Inr v \<longrightarrow> (\<exists>s2. vfs_close ops v s1 = Done s2 \<and> vfs_ok E s2 \<and> (\<forall>w. 0 < ref s w \<longrightarrow> ref s2 w = ref s w)))"
proof -
  note L = filesystem.since_ok [OF assms(1)] and D = filesystem.since_def [OF assms(1)]
  obtain r s1 where r: "vfs_open ops path fl mode s = Done (r, s1)" "filesystem.since I E s (handed r) s1"
    using filesystem.sinceE [OF assms(1,2) filesystem.open_returns [OF assms] handed_nonneg] .
  have "\<exists>s2. vfs_close ops v s1 = Done s2 \<and> vfs_ok E s2 \<and> (\<forall>w. 0 < ref s w \<longrightarrow> ref s2 w = ref s w)" if v: "r = Inr v" for v
  proof -
    obtain s2 where s2: "vfs_close ops v s1 = Done s2" "filesystem.since I E s (\<lambda>w. handed r w - one v w) s2"
      using filesystem.close_drops [OF assms(1) r(2), of v] v by auto
    have "(\<lambda>w. handed r w - one v w) = none" using v by (simp add: none_def fun_eq_iff)
    then have n: "filesystem.since I E s none s2" using s2(2) by simp
    then have "\<forall>w. 0 < ref s w \<longrightarrow> ref s2 w = ref s w" using acctD(1) [of s s2 none] by (simp add: D fs_step_def none_def)
    then show ?thesis using s2(1) L [OF n] by simp
  qed
  then show ?thesis using r L [OF r(2)] acctD(1) [of s s1 "handed r"] by (auto simp: D fs_step_def)
qed

theorem vfs_open_close_balanced_witness:
  "\<exists>r s1. vfs_open (dev_vnode_ops null_devops demo_fs) ''null:'' O_WRONLY 0 demo_devs = Done (r, s1) \<and>
     ref s1 7 = 1 + handed r 7"
proof -
  have "ref demo_devs 7 = 1" by (simp add: ref_def demo_devs_def fun_upd_apply)
  then show ?thesis
    using vfs_open_close_balanced [OF demo_filesystem demo_devs_ok, of demo_fs "''null:''" O_WRONLY 0] by fastforce
qed

text \<open>C11: removing, linking, renaming and making files and directories gives back every reference
  taken on the way, on success and on every error.\<close>

theorem vfs_path_ops_balanced:
  assumes "filesystem ops I" "vfs_ok E s" "I s"
    and "m \<in> {vfs_remove ops path, vfs_mkdir ops path mode, vfs_rmdir ops path, vfs_symlink ops path' path,
      vfs_link ops path path', vfs_rename ops path path'}"
  shows "\<exists>r s'. m s = Done (r, s') \<and> vfs_ok E s' \<and> same_ctx s s' \<and> (\<forall>w. 0 < ref s w \<longrightarrow> ref s' w = ref s w)"
proof -
  have "returns I no_refs s (m s)"
    using assms(4) filesystem.parent_ops_return [OF assms(1-3)] filesystem.link_returns [OF assms(1-3)]
      filesystem.rename_returns [OF assms(1-3)] by auto
  then obtain r s' where r: "m s = Done (r, s')" "fs_step s s' none" by (auto simp: returns_def)
  have "vfs_ok (\<lambda>w. E w + none w) s'" by (rule vfs_ok_step [OF assms(2) r(2)]) (simp add: vfs_okD(3) [OF assms(2)] none_def)
  then show ?thesis using r acctD(1) [of s s' none] by (simp add: fs_step_def none_def)
qed

theorem vfs_path_ops_balanced_witness:
  "\<exists>r s'. vfs_rename (dev_vnode_ops null_devops demo_fs) ''null:a'' ''null:'' demo_devs = Done (r, s') \<and> ref s' 7 = 1"
proof -
  have "ref demo_devs 7 = 1" by (simp add: ref_def demo_devs_def fun_upd_apply)
  then show ?thesis
    using vfs_path_ops_balanced [OF demo_filesystem demo_devs_ok, of "vfs_rename _ ''null:a'' ''null:''"] by fastforce
qed

text \<open>\<^verbatim>\<open>vfs_setbootfs\<close> refuses every name with a colon, also when the colon is at the end, where
  the comment of the code allows it.\<close>

theorem vfs_setbootfs_colon:
  assumes "lock_ok s" "CHR '':'' \<in> set (take (NAME_MAX - 1) nm)"
  shows "vfs_setbootfs ops nm s = Done (Some EINVAL, s)"
proof -
  have "dropWhile (\<lambda>c. c \<noteq> CHR '':'') (take (NAME_MAX - 1) nm) \<noteq> []" using assms(2) by (simp add: dropWhile_eq_Nil_conv)
  then show ?thesis using assms(1)
    by (auto simp: vfs_setbootfs_def with_biglock_def vfs_biglock_acquire_def vfs_biglock_do_i_hold_def
        vfs_biglock_release_def lock_ok_def kassert_def Let_def)
qed

theorem vfs_setbootfs_colon_witness:
  "vfs_setbootfs (dev_vnode_ops null_devops demo_fs) ''emu0:'' demo_devs = Done (Some EINVAL, demo_devs)"
proof (rule vfs_setbootfs_colon)
  show "lock_ok demo_devs" by (simp add: lock_ok_def demo_devs_def)
  show "CHR '':'' \<in> set (take (NAME_MAX - 1) ''emu0:'')" by (simp add: NAME_MAX_def)
qed

end
