(* ===== verification/VfsList.thy ===== *)
theory VfsList
  imports Device
begin

text \<open>
  The list of named devices (\<^verbatim>\<open>kern/vfs/vfslist.c\<close>): adding a device is all or nothing, and no two
  devices answer to the same name.
\<close>

definition kd_names :: "knowndev \<Rightarrow> string set" where
  "kd_names kd = insert (kd_name kd) (set_option (kd_rawname kd))"

definition names_distinct :: "'x vfs \<Rightarrow> bool" where
  "names_distinct s \<longleftrightarrow>
     (\<forall>i < length (knowndevs s). \<forall>j < i. kd_names (knowndevs s ! i) \<inter> kd_names (knowndevs s ! j) = {})"

text \<open>Blocks not allocated yet hold no vnode.\<close>

definition vheap_ok :: "'x vfs \<Rightarrow> bool" where
  "vheap_ok s \<longleftrightarrow> kheap_ok (vfsheap s) \<and> (\<forall>n. kh_next (vfsheap s) \<le> n \<longrightarrow> vnodes s n = None)"

lemma badnames_in_member:
  "\<not> badnames_in ops s kds n1 n2 n3 \<Longrightarrow> kd \<in> set kds \<Longrightarrow>
   \<not> samestring3 (kd_rawname kd) n1 n2 n3 \<and> \<not> samestring3 (Some (kd_name kd)) n1 n2 n3"
  by (induction kds) auto

lemma badnames_in_False:
  assumes "\<not> badnames_in ops s kds (Some n1) n2 n3" "kd \<in> set kds"
  shows "kd_names kd \<inter> insert n1 (set_option n2) = {}"
  using badnames_in_member [OF assms]
  by (cases "kd_rawname kd"; cases n2) (auto simp: kd_names_def samestring3_def samestring_def)

text \<open>The failure exit undoes any prefix of the allocations.\<close>

definition undone :: "'x vfs \<Rightarrow> 'x vfs \<Rightarrow> bool" where
  "undone s s' \<longleftrightarrow> vnodes s' = vnodes s \<and> knowndevs s' = knowndevs s \<and> d_devnumber s' = d_devnumber s \<and>
     cwd s' = cwd s \<and> bootfs_vnode s' = bootfs_vnode s \<and> fsx s' = fsx s \<and>
     vfs_biglock s' = vfs_biglock s \<and> vfs_biglock_depth s' = vfs_biglock_depth s \<and>
     curthread s' = curthread s \<and> kh_live (vfsheap s') = kh_live (vfsheap s)"

lemma kmalloc_vfs_cases:
  assumes "kheap_ok (vfsheap s)"
  obtains h where "kmalloc_vfs s = (None, s\<lparr>vfsheap := h\<rparr>)" "kh_live h = kh_live (vfsheap s)" "kheap_ok h"
  | n h where "kmalloc_vfs s = (Some n, s\<lparr>vfsheap := h\<rparr>)" "kh_live h = n # kh_live (vfsheap s)" "kheap_ok h"
      "kh_next (vfsheap s) \<le> n" "n < kh_next h"
proof (cases "kh_avail (vfsheap s) (kh_next (vfsheap s))")
  case True
  let ?h = "vfsheap s" and ?g = "(vfsheap s)\<lparr>kh_next := kh_next (vfsheap s) + 1, kh_live := kh_next (vfsheap s) # kh_live (vfsheap s)\<rparr>"
  have k: "kmalloc ?h = (Some (kh_next ?h), ?g)" using True by (simp add: kmalloc_def Let_def)
  have "kheap_ok ?g" using kmalloc_ok [OF assms] k by simp
  then show thesis using k by (intro that(2) [of "kh_next ?h" ?g]) (simp_all add: kmalloc_vfs_def)
next
  case False
  then have "kmalloc (vfsheap s) = (None, (vfsheap s)\<lparr>kh_next := kh_next (vfsheap s) + 1\<rparr>)" by (simp add: kmalloc_def Let_def)
  then show thesis using kmalloc_ok [OF assms]
    by (intro that(1) [of "(vfsheap s)\<lparr>kh_next := kh_next (vfsheap s) + 1\<rparr>"]) (simp_all add: kmalloc_vfs_def)
qed

lemma kfree_vfs_Some:
  "n \<in> set (kh_live (vfsheap s)) \<Longrightarrow>
   kfree_vfs (Some n) s = Done (s\<lparr>vfsheap := (vfsheap s)\<lparr>kh_live := remove1 n (kh_live (vfsheap s))\<rparr>\<rparr>)"
  by (simp add: kfree_vfs_def kfree_def)

lemma kfree_vfs_None: "kfree_vfs None s = Done s"
  by (simp add: kfree_vfs_def kfree_def)

lemma dev_create_alt:
  "dev_create_vnode dev s = (case kmalloc_vfs s of (None, s) \<Rightarrow> (None, s) | (Some v, s) \<Rightarrow> (Some v, vnode_init v DevOps None dev s))"
  by (simp add: dev_create_vnode_def kmalloc_vfs_def split: prod.splits option.splits)

definition opt_list :: "'a option \<Rightarrow> 'a list" where
  "opt_list x = (case x of None \<Rightarrow> [] | Some a \<Rightarrow> [a])"

lemma opt_list_simps [simp]: "opt_list None = []" "opt_list (Some a) = [a]"
  by (simp_all add: opt_list_def)

definition dev_vnode :: "nat option \<Rightarrow> vnode" where
  "dev_vnode dev = \<lparr>vn_refcount = 1, vn_fs = None, vn_data = dev, vn_ops = Some DevOps\<rparr>"

lemma doadd_fail_undoes:
  assumes "distinct (opt_list kd @ opt_list vn @ opt_list raw @ opt_list nm @ live)"
  shows "\<exists>s'. doadd_fail e nm raw vn kd
      (s\<lparr>vfsheap := h\<lparr>kh_live := opt_list kd @ opt_list vn @ opt_list raw @ opt_list nm @ live\<rparr>,
         vnodes := (case vn of None \<Rightarrow> vnodes s | Some v \<Rightarrow> (vnodes s)(v \<mapsto> dev_vnode dev))\<rparr>) = Done (Some e, s') \<and>
    s' = s\<lparr>vfsheap := h\<lparr>kh_live := live\<rparr>, vnodes := (case vn of None \<Rightarrow> vnodes s | Some v \<Rightarrow> (vnodes s)(v := None))\<rparr>"
  using assms
  by (cases nm; cases raw; cases vn; cases kd)
    (simp_all add: doadd_fail_def kfree_vfs_None kfree_vfs_Some dev_uncreate_vnode_def vnode_cleanup_def dev_vnode_def
      kassert_def remove1_append)

text \<open>What a successful call adds.\<close>

definition added :: "string \<Rightarrow> bool \<Rightarrow> nat option \<Rightarrow> nat option \<Rightarrow> 'x vfs \<Rightarrow> 'x vfs \<Rightarrow> bool" where
  "added dname mountable dev fs s s' \<longleftrightarrow> (\<exists>vn. vnodes s vn = None \<and> vnodes s' = (vnodes s)(vn \<mapsto> dev_vnode dev) \<and>
     knowndevs s' = knowndevs s @ [\<lparr>kd_name = dname, kd_rawname = (if mountable then Some (dname @ ''raw'') else None),
       kd_device = dev, kd_vnode = vn, kd_fs = map_option MountedFs fs\<rparr>])"

lemma names_distinct_added:
  assumes "names_distinct s" "added dname mountable dev fs s s'"
    and "\<not> badnames_in ops t (knowndevs s) (Some dname) (if mountable then Some (dname @ ''raw'') else None) v"
  shows "names_distinct s'"
  unfolding names_distinct_def
proof (intro allI impI)
  fix i j assume ij: "i < length (knowndevs s')" "j < i"
  let ?new = "insert dname (set_option (if mountable then Some (dname @ ''raw'') else None))"
  obtain kd where kd: "knowndevs s' = knowndevs s @ [kd]" "kd_names kd = ?new"
    using assms(2) by (auto simp: added_def kd_names_def)
  show "kd_names (knowndevs s' ! i) \<inter> kd_names (knowndevs s' ! j) = {}"
  proof (cases "i < length (knowndevs s)")
    case True
    then show ?thesis using assms(1) ij kd by (simp add: names_distinct_def nth_append)
  next
    case False
    then have "j < length (knowndevs s)" "knowndevs s' ! i = kd" "knowndevs s' ! j = knowndevs s ! j" using ij kd by (auto simp: nth_append)
    then show ?thesis using badnames_in_False [OF assms(3), of "knowndevs s ! j"] kd(2) by auto
  qed
qed

lemma doadd_fail_ok:
  assumes "kh_live h = opt_list kd @ opt_list vn @ opt_list raw @ opt_list nm @ kh_live (vfsheap s)" "kheap_ok h"
    and "\<And>v. vn = Some v \<Longrightarrow> vnodes s v = None"
  shows "\<exists>s'. doadd_fail e nm raw vn kd
      (s\<lparr>vfsheap := h, vnodes := (case vn of None \<Rightarrow> vnodes s | Some v \<Rightarrow> (vnodes s)(v \<mapsto> dev_vnode dev))\<rparr>) = Done (Some e, s') \<and>
    undone s s'"
proof -
  have d: "distinct (opt_list kd @ opt_list vn @ opt_list raw @ opt_list nm @ kh_live (vfsheap s))"
    using assms(1,2) by (simp add: kheap_ok_def)
  have "h\<lparr>kh_live := opt_list kd @ opt_list vn @ opt_list raw @ opt_list nm @ kh_live (vfsheap s)\<rparr> = h"
    using assms(1) by simp
  moreover have "(case vn of None \<Rightarrow> vnodes s | Some v \<Rightarrow> (vnodes s)(v := None)) = vnodes s"
    using assms(3) by (auto simp: fun_upd_apply fun_eq_iff split: option.splits)
  ultimately show ?thesis using doadd_fail_undoes [OF d, where e = e and s = s and h = h and dev = dev] by (auto simp: undone_def)
qed

definition doadd_post :: "string \<Rightarrow> bool \<Rightarrow> nat option \<Rightarrow> nat option \<Rightarrow> 'x vfs \<Rightarrow> (errno option \<times> 'x vfs) outcome \<Rightarrow> bool" where
  "doadd_post dname mountable dev fs s m \<longleftrightarrow> (\<exists>r s'. m = Done (r, s') \<and> vfs_biglock s' = vfs_biglock s \<and>
     vfs_biglock_depth s' = vfs_biglock_depth s \<and> curthread s' = curthread s \<and>
     (if r \<noteq> None then undone s s'
      else added dname mountable dev fs s s' \<and> (names_distinct s \<longrightarrow> names_distinct s')))"

lemma doadd_fail_post:
  assumes "kh_live h = opt_list kd @ opt_list vn @ opt_list raw @ opt_list nm @ kh_live (vfsheap s)" "kheap_ok h"
    "\<And>v. vn = Some v \<Longrightarrow> vnodes s v = None"
    "t = s\<lparr>vfsheap := h, vnodes := (case vn of None \<Rightarrow> vnodes s | Some v \<Rightarrow> (vnodes s)(v \<mapsto> dev_vnode dev))\<rparr>"
  shows "doadd_post dname mountable dev fs s (doadd_fail e nm raw vn kd t)"
  using doadd_fail_ok [OF assms(1-3), where e = e and dev = dev] assms(4) by (auto simp: undone_def doadd_post_def)

lemma doadd_enter_ok:
  assumes "kh_live h = opt_list kd @ [vn] @ opt_list raw @ opt_list nm @ kh_live (vfsheap s)" "kheap_ok h"
    "vnodes s vn = None" "vfs_biglock_do_i_hold s"
    and t: "t = s\<lparr>vfsheap := h, vnodes := (vnodes s)(vn \<mapsto> dev_vnode dev)\<rparr>"
  shows "doadd_post dname mountable dev fs s (doadd_enter ops dname mountable dev fs nm raw vn kd t)"
proof -
  let ?raw = "if mountable then Some (dname @ ''raw'') else None"
  let ?vol = "case fs of None \<Rightarrow> None | Some f \<Rightarrow> fsop_getvolname ops f t"
  let ?entry = "\<lparr>kd_name = dname, kd_rawname = ?raw, kd_device = dev, kd_vnode = vn, kd_fs = map_option MountedFs fs\<rparr>"
  let ?s1 = "t\<lparr>knowndevs := knowndevs t @ [?entry]\<rparr>"
  let ?s2 = "case dev of None \<Rightarrow> ?s1 | Some d \<Rightarrow> ?s1\<lparr>d_devnumber := (d_devnumber ?s1)(d := length (knowndevs t) + 1)\<rparr>"
  have fail: "doadd_post dname mountable dev fs s (doadd_fail e nm raw (Some vn) kd t)" for e
    by (rule doadd_fail_post [of h]) (use assms in simp_all)
  have add: "added dname mountable dev fs s ?s2" using assms(3) t by (auto simp: added_def split: option.splits)
  have bad: "badnames ops (Some dname) ?raw ?vol t = Done (badnames_in ops t (knowndevs s) (Some dname) ?raw ?vol)"
    using assms(4) t by (simp add: badnames_def vfs_biglock_do_i_hold_def kassert_def)
  have "doadd_post dname mountable dev fs s (Done (None, ?s2))" if "\<not> badnames_in ops t (knowndevs s) (Some dname) ?raw ?vol"
    using names_distinct_added [OF _ add that] add t by (auto simp: doadd_post_def split: option.splits)
  then show ?thesis using bad fail unfolding doadd_enter_def Let_def by simp
qed

lemma doadd_vnode_ok:
  assumes "kh_live h = opt_list raw @ opt_list nm @ kh_live (vfsheap s)" "kheap_ok h" "vheap_ok s"
    "vfs_biglock_do_i_hold s" "kh_next (vfsheap s) \<le> kh_next h"
  shows "doadd_post dname mountable dev fs s (doadd_vnode ops dname mountable dev fs nm raw (s\<lparr>vfsheap := h\<rparr>))"
proof -
  have fresh: "\<And>n. kh_next (vfsheap s) \<le> n \<Longrightarrow> vnodes s n = None" using assms(3) by (auto simp: vheap_ok_def)
  have okh: "kheap_ok (vfsheap (s\<lparr>vfsheap := h\<rparr>))" using assms(2) by simp
  from okh show ?thesis
  proof (cases rule: kmalloc_vfs_cases)
    case (1 g)
    then show ?thesis using assms(1) by (simp add: doadd_vnode_def dev_create_alt) (rule doadd_fail_post [of g], simp_all)
  next
    case (2 vn g)
    let ?t = "s\<lparr>vfsheap := g, vnodes := (vnodes s)(vn \<mapsto> dev_vnode dev)\<rparr>"
    have vn: "dev_create_vnode dev (s\<lparr>vfsheap := h\<rparr>) = (Some vn, ?t)" "vnodes s vn = None"
      using 2 assms(5) fresh by (auto simp: dev_create_alt vnode_init_def dev_vnode_def)
    have okg: "kheap_ok (vfsheap ?t)" using 2 by simp
    from okg show ?thesis
    proof (cases rule: kmalloc_vfs_cases)
      case (1 g')
      then show ?thesis using assms(1) vn 2 by (simp add: doadd_vnode_def) (rule doadd_fail_post [of g'], simp_all)
    next
      case (2 kd g')
      then show ?thesis using assms(1,4) vn \<open>kh_live g = _\<close>
        by (simp add: doadd_vnode_def) (rule doadd_enter_ok [of g'], simp_all)
    qed
  qed
qed

lemma doadd_locked_ok:
  assumes "vheap_ok s" "vfs_biglock_do_i_hold s"
  shows "doadd_post dname mountable dev fs s (vfs_doadd_locked ops dname mountable dev fs s)"
proof -
  have "kheap_ok (vfsheap s)" using assms(1) by (simp add: vheap_ok_def)
  then show ?thesis
  proof (cases rule: kmalloc_vfs_cases)
    case (1 h)
    then show ?thesis by (simp add: vfs_doadd_locked_def) (rule doadd_fail_post [of h], simp_all)
  next
    case (2 nm h)
    note nm = 2
    have okh: "kheap_ok (vfsheap (s\<lparr>vfsheap := h\<rparr>))" using nm by simp
    show ?thesis
    proof (cases mountable)
      case False
      then show ?thesis using nm assms by (simp add: vfs_doadd_locked_def doadd_vnode_ok)
    next
      case True
      from okh show ?thesis
      proof (cases rule: kmalloc_vfs_cases)
        case (1 g)
        then show ?thesis using nm True by (simp add: vfs_doadd_locked_def) (rule doadd_fail_post [of g], simp_all)
      next
        case (2 raw g)
        then have "kh_live g = opt_list (Some raw) @ opt_list (Some nm) @ kh_live (vfsheap s)" "kh_next (vfsheap s) \<le> kh_next g"
          using nm by simp_all
        then show ?thesis using doadd_vnode_ok [of g "Some raw" "Some nm" s] 2 nm True assms by (simp add: vfs_doadd_locked_def)
      qed
    qed
  qed
qed

lemma vheap_ok_relock: "vheap_ok (s\<lparr>vfs_biglock := l, vfs_biglock_depth := d\<rparr>) = vheap_ok s"
  by (simp add: vheap_ok_def)


definition boot_vfs :: "(nat \<Rightarrow> bool) \<Rightarrow> unit devs vfs" where
  "boot_vfs avail = \<lparr>vnodes = (\<lambda>v. None), knowndevs = [], kd_room = (\<lambda>n. True), d_devnumber = (\<lambda>d. 0),
     vfs_biglock = None, vfs_biglock_depth = 0, bootfs_vnode = None, cwd = (\<lambda>p. None), curthread = 0, curproc = 0,
     vfsheap = \<lparr>kh_next = 0, kh_live = [], kh_avail = avail\<rparr>, fsx = \<lparr>dev_tab = (\<lambda>d. None), drv = ()\<rparr>\<rparr>"


end
