(* ===== verification/FileSys.thy ===== *)
theory FileSys
  imports Device Synch
begin

text \<open>
  The file system calls (\<^verbatim>\<open>kern/syscall/file_syscalls.c\<close>): the table of open files, the file
  tables of the processes and the calls on descriptors, over the VFS layer.

  A pointer to \<^verbatim>\<open>struct openfile\<close> is an entry of \<^verbatim>\<open>systemFileTable\<close> or a block of its own (the
  standard descriptors).  The blocks this layer allocates, buffers and locks, live in \<open>fheap\<close>;
  a fresh buffer is filled with zeros, which every caller overwrites before reading.  A lock is
  known by the block of its \<^verbatim>\<open>struct lock\<close>; a call that would wait for another thread is
  \<open>Blocked\<close>.
\<close>

unbundle bit_operations_syntax

section \<open>State\<close>

definition OPEN_MAX :: nat where "OPEN_MAX = 128"
definition SYSTEM_OPEN_MAX :: nat where "SYSTEM_OPEN_MAX = 10 * OPEN_MAX"
definition PATH_MAX :: u32 where "PATH_MAX = 1024"
definition STDERR_FILENO :: nat where "STDERR_FILENO = 2"
definition SEEK_SET :: int where "SEEK_SET = 0"
definition SEEK_CUR :: int where "SEEK_CUR = 1"
definition SEEK_END :: int where "SEEK_END = 2"

datatype ofptr = SysFile nat | HeapFile nat

record openfile =
  of_vn :: "nat option"
  of_offset :: u64
  of_mode :: u32
  countRef :: u32
  of_lock :: "nat option"

record 'x fsys =
  fv :: "'x vfs"
  fmem :: memory
  fheap :: kheap
  ofiles :: "ofptr \<rightharpoonup> openfile"
  fileTables :: "nat \<Rightarrow> ofptr option list"
  flocks :: "nat \<rightharpoonup> lock"

text \<open>\<^verbatim>\<open>curproc->fileTable\<close> and updates of the entries.\<close>

definition curtab :: "'x fsys \<Rightarrow> ofptr option list" where
  "curtab s = fileTables s (curproc (fv s))"

definition set_fd :: "nat \<Rightarrow> ofptr option \<Rightarrow> 'x fsys \<Rightarrow> 'x fsys" where
  "set_fd fd e s = s\<lparr>fileTables := (fileTables s)(curproc (fv s) := (curtab s)[fd := e])\<rparr>"

definition set_of :: "ofptr \<Rightarrow> (openfile \<Rightarrow> openfile) \<Rightarrow> 'x fsys \<Rightarrow> 'x fsys outcome" where
  "set_of p f s = obind (deref (ofiles s p)) (\<lambda>x. Done (s\<lparr>ofiles := (ofiles s)(p \<mapsto> f x)\<rparr>))"

section \<open>Memory, locks and vnode operations as the calls use them\<close>

definition kalloc :: "u32 \<Rightarrow> 'x fsys \<Rightarrow> nat option \<times> 'x fsys" where
  "kalloc len s =
     (case kmalloc (fheap s) of
        (None, h) \<Rightarrow> (None, s\<lparr>fheap := h\<rparr>)
      | (Some b, h) \<Rightarrow> (Some b, s\<lparr>fheap := h,
          fmem := (fmem s)\<lparr>kobj := (kobj (fmem s))(b \<mapsto> replicate (unat len) 0)\<rparr>\<rparr>))"

definition kfree_buf :: "nat \<Rightarrow> 'x fsys \<Rightarrow> 'x fsys outcome" where
  "kfree_buf b s =
     obind (kfree (Some b) (fheap s)) (\<lambda>h.
     Done (s\<lparr>fheap := h, fmem := (fmem s)\<lparr>kobj := (kobj (fmem s))(b := None)\<rparr>\<rparr>))"

definition flock_acquire :: "nat option \<Rightarrow> 'x fsys \<Rightarrow> 'x fsys outcome" where
  "flock_acquire l s =
     (case l of None \<Rightarrow> Stop Panic | Some p \<Rightarrow>
      obind (deref (flocks s p)) (\<lambda>lk.
      obind (kassert (lk_owner lk \<noteq> Some (curthread (fv s)))) (\<lambda>_.
      if lk_owner lk = None
      then Done (s\<lparr>flocks := (flocks s)(p \<mapsto> lk\<lparr>lk_owner := Some (curthread (fv s))\<rparr>)\<rparr>)
      else Stop Blocked)))"

definition flock_release :: "nat option \<Rightarrow> 'x fsys \<Rightarrow> 'x fsys outcome" where
  "flock_release l s =
     (case l of None \<Rightarrow> Stop Panic | Some p \<Rightarrow>
      obind (deref (flocks s p)) (\<lambda>lk.
      obind (kassert (lk_owner lk = Some (curthread (fv s)))) (\<lambda>_.
      Done (s\<lparr>flocks := (flocks s)(p \<mapsto> lk\<lparr>lk_owner := None\<rparr>)\<rparr>))))"

definition flock_create :: "'x fsys \<Rightarrow> (nat option \<times> 'x fsys) outcome" where
  "flock_create s =
     obind (lock_create (fheap s)) (\<lambda>(l, h).
     case l of None \<Rightarrow> Done (None, s\<lparr>fheap := h\<rparr>)
     | Some lk \<Rightarrow> Done (Some (lk_self lk), s\<lparr>fheap := h, flocks := (flocks s)(lk_self lk \<mapsto> lk)\<rparr>))"

definition flock_destroy :: "nat option \<Rightarrow> 'x fsys \<Rightarrow> 'x fsys outcome" where
  "flock_destroy l s =
     (case l of None \<Rightarrow> Stop Panic | Some p \<Rightarrow>
      obind (deref (flocks s p)) (\<lambda>lk.
      obind (lock_destroy (Some lk) (fheap s)) (\<lambda>h.
      Done (s\<lparr>fheap := h, flocks := (flocks s)(p := None)\<rparr>))))"

definition in_vfs :: "('x vfs \<Rightarrow> ('r \<times> 'x vfs) outcome) \<Rightarrow> 'x fsys \<Rightarrow> ('r \<times> 'x fsys) outcome" where
  "in_vfs f s = obind (f (fv s)) (\<lambda>(r, v). Done (r, s\<lparr>fv := v\<rparr>))"

definition close_vnode :: "'x vnode_ops \<Rightarrow> nat option \<Rightarrow> 'x fsys \<Rightarrow> 'x fsys outcome" where
  "close_vnode ops vn s =
     (case vn of None \<Rightarrow> Stop Panic | Some v \<Rightarrow> obind (vfs_close ops v (fv s)) (\<lambda>x. Done (s\<lparr>fv := x\<rparr>)))"

definition vop_io ::
  "(nat \<Rightarrow> 'x vop_uio) \<Rightarrow> nat \<Rightarrow> uio \<Rightarrow> 'x fsys \<Rightarrow> (errno option \<times> uio \<times> 'x fsys) outcome" where
  "vop_io f v u s =
     obind (vnode_check v (fv s)) (\<lambda>_.
     obind (f v u (fmem s) (fv s)) (\<lambda>(r, u, m, x). Done (r, u, s\<lparr>fmem := m, fv := x\<rparr>)))"

definition checked :: "nat \<Rightarrow> ('x vfs \<Rightarrow> ('r \<times> 'x vfs) outcome) \<Rightarrow> 'x vfs \<Rightarrow> ('r \<times> 'x vfs) outcome" where
  "checked v f x = obind (vnode_check v x) (\<lambda>_. f x)"

section \<open>Reading and writing\<close>

text \<open>The part from the filled buffer on.\<close>

definition write_locked ::
  "'x vnode_ops \<Rightarrow> ofptr \<Rightarrow> openfile \<Rightarrow> nat \<Rightarrow> nat \<Rightarrow> u32 \<Rightarrow> 'x fsys \<Rightarrow> ((errno + u32) \<times> 'x fsys) outcome" where
  "write_locked ops p f vn kbuf len s =
     obind (flock_acquire (of_lock f) s) (\<lambda>s.
     obind (deref (ofiles s p)) (\<lambda>g.
     obind (vop_io (vop_write ops) vn (uio_kinit (KPtr kbuf 0) len (of_offset g) UIO_WRITE) s) (\<lambda>(r, u, s).
     case r of Some e \<Rightarrow> obind (kfree_buf kbuf s) (\<lambda>s. Done (Inl e, s)) | None \<Rightarrow>
     obind (kfree_buf kbuf s) (\<lambda>s.
     obind (set_of p (\<lambda>f. f\<lparr>of_offset := uio_offset u\<rparr>) s) (\<lambda>s.
     obind (flock_release (of_lock f) s) (\<lambda>s.
     Done (Inr (len - uio_resid u), s)))))))"

definition sys_write ::
  "'x vnode_ops \<Rightarrow> int \<Rightarrow> u32 \<Rightarrow> u32 \<Rightarrow> 'x fsys \<Rightarrow> ((errno + u32) \<times> 'x fsys) outcome" where
  "sys_write ops fd buf len s =
     (if fd < 0 \<or> fd > int OPEN_MAX then Done (Inl EBADF, s) else
      obind (nth_or_fault (curtab s) (nat fd)) (\<lambda>e. case e of None \<Rightarrow> Done (Inl EBADF, s) | Some p \<Rightarrow>
      obind (deref (ofiles s p)) (\<lambda>f.
      if of_mode f \<noteq> O_WRONLY \<and> of_mode f \<noteq> O_RDWR then Done (Inl EBADF, s) else
      (case of_vn f of None \<Rightarrow> Done (Inl EBADF, s) | Some vn \<Rightarrow>
      (case kalloc len s of (None, s) \<Rightarrow> Done (Inl ENOMEM, s) | (Some kbuf, s) \<Rightarrow>
      obind (copyin buf (KPtr kbuf 0) len (fmem s)) (\<lambda>(r, m).
      let s = s\<lparr>fmem := m\<rparr> in
      if r \<noteq> None then obind (kfree_buf kbuf s) (\<lambda>s. Done (Inl EFAULT, s))
      else write_locked ops p f vn kbuf len s))))))"

definition read_locked ::
  "'x vnode_ops \<Rightarrow> ofptr \<Rightarrow> openfile \<Rightarrow> nat \<Rightarrow> nat \<Rightarrow> u32 \<Rightarrow> u32 \<Rightarrow> 'x fsys \<Rightarrow> ((errno + u32) \<times> 'x fsys) outcome" where
  "read_locked ops p f vn kbuf buf len s =
     obind (flock_acquire (of_lock f) s) (\<lambda>s.
     obind (deref (ofiles s p)) (\<lambda>g.
     obind (vop_io (vop_read ops) vn (uio_kinit (KPtr kbuf 0) len (of_offset g) UIO_READ) s) (\<lambda>(r, u, s).
     case r of Some e \<Rightarrow> obind (kfree_buf kbuf s) (\<lambda>s. Done (Inl e, s)) | None \<Rightarrow>
     obind (set_of p (\<lambda>f. f\<lparr>of_offset := uio_offset u\<rparr>) s) (\<lambda>s.
     let nread = len - uio_resid u in
     obind (copyout (KPtr kbuf 0) buf nread (fmem s)) (\<lambda>(r, m).
     let s = s\<lparr>fmem := m\<rparr> in
     if r \<noteq> None then Done (Inl EFAULT, s) else
     obind (flock_release (of_lock f) s) (\<lambda>s.
     obind (kfree_buf kbuf s) (\<lambda>s.
     Done (Inr nread, s))))))))"

definition sys_read ::
  "'x vnode_ops \<Rightarrow> int \<Rightarrow> u32 \<Rightarrow> u32 \<Rightarrow> 'x fsys \<Rightarrow> ((errno + u32) \<times> 'x fsys) outcome" where
  "sys_read ops fd buf len s =
     (if fd < 0 \<or> fd \<ge> int OPEN_MAX then Done (Inl EBADF, s) else
      obind (nth_or_fault (curtab s) (nat fd)) (\<lambda>e. case e of None \<Rightarrow> Done (Inl EBADF, s) | Some p \<Rightarrow>
      obind (deref (ofiles s p)) (\<lambda>f.
      if of_mode f \<noteq> O_RDONLY \<and> of_mode f \<noteq> O_RDWR then Done (Inl EBADF, s) else
      (case of_vn f of None \<Rightarrow> Done (Inl EBADF, s) | Some vn \<Rightarrow>
      (case kalloc len s of (None, s) \<Rightarrow> Done (Inl ENOMEM, s) | (Some kbuf, s) \<Rightarrow>
      obind (copyin buf (KPtr kbuf 0) len (fmem s)) (\<lambda>(r, m).
      let s = s\<lparr>fmem := m\<rparr> in
      if r \<noteq> None then obind (kfree_buf kbuf s) (\<lambda>s. Done (Inl EFAULT, s))
      else read_locked ops p f vn kbuf buf len s))))))"

section \<open>Opening and closing\<close>

text \<open>The string in a kernel buffer.\<close>

definition kstring :: "nat \<Rightarrow> memory \<Rightarrow> string" where
  "kstring b m = (case kobj m b of None \<Rightarrow> [] | Some xs \<Rightarrow> map (\<lambda>x. char_of (unat x)) (takeWhile (\<lambda>x. x \<noteq> 0) xs))"

definition slot_free :: "'x fsys \<Rightarrow> nat \<Rightarrow> bool" where
  "slot_free s i = (case ofiles s (SysFile i) of None \<Rightarrow> False | Some f \<Rightarrow> of_vn f = None)"

definition find_slot :: "'x fsys \<Rightarrow> nat option" where
  "find_slot s = find (slot_free s) [0..<SYSTEM_OPEN_MAX]"

definition find_fd :: "'x fsys \<Rightarrow> nat option" where
  "find_fd s = find (\<lambda>fd. curtab s ! fd = None) [STDERR_FILENO + 1..<OPEN_MAX]"

text \<open>From the vnode on: \<open>open_mode\<close> is the tail from the seek position on, with descriptor \<open>fd\<close>
  taken.  The failing branches clear the descriptor and close the vnode; one of them clears it
  first, the others afterwards, which makes no difference, as closing does not look at the table.\<close>

definition open_fail :: "'x vnode_ops \<Rightarrow> nat \<Rightarrow> nat \<Rightarrow> errno \<Rightarrow> 'x fsys \<Rightarrow> ((errno + nat) \<times> 'x fsys) outcome" where
  "open_fail ops v fd e s = obind (close_vnode ops (Some v) (set_fd fd None s)) (\<lambda>s. Done (Inl e, s))"

definition open_mode ::
  "'x vnode_ops \<Rightarrow> nat \<Rightarrow> u32 \<Rightarrow> ofptr \<Rightarrow> nat \<Rightarrow> 'x fsys \<Rightarrow> ((errno + nat) \<times> 'x fsys) outcome" where
  "open_mode ops v openflags p fd s =
     obind (if openflags AND O_APPEND \<noteq> 0 then in_vfs (checked v (vop_stat ops v)) s
            else Done (Inr \<lparr>st_size = 0, st_mode = 0, st_nlink = 0, st_blocks = 0, st_dev = 0, st_rdev = 0, st_blksize = 0\<rparr>, s))
       (\<lambda>(r, s).
     case r of Inl e \<Rightarrow> open_fail ops v fd e s | Inr filest \<Rightarrow>
     obind (set_of p (\<lambda>f. f\<lparr>of_offset := (if openflags AND O_APPEND \<noteq> 0 then st_size filest else 0)\<rparr>) s) (\<lambda>s.
     let acc = openflags AND O_ACCMODE in
     if acc \<noteq> O_RDONLY \<and> acc \<noteq> O_WRONLY \<and> acc \<noteq> O_RDWR then open_fail ops v fd EINVAL s else
     obind (set_of p (\<lambda>f. f\<lparr>of_mode := acc\<rparr>) s) (\<lambda>s.
     obind (flock_create s) (\<lambda>(l, s).
     obind (set_of p (\<lambda>f. f\<lparr>of_lock := l\<rparr>) s) (\<lambda>s.
     if l = None then open_fail ops v fd ENOMEM s else
     obind (set_of p (\<lambda>f. f\<lparr>countRef := 1\<rparr>) s) (\<lambda>s. Done (Inr fd, s)))))))"

definition open_slot ::
  "'x vnode_ops \<Rightarrow> nat \<Rightarrow> u32 \<Rightarrow> 'x fsys \<Rightarrow> ((errno + nat) \<times> 'x fsys) outcome" where
  "open_slot ops v openflags s =
     (case find_slot s of
        None \<Rightarrow> obind (close_vnode ops (Some v) s) (\<lambda>s. Done (Inl ENFILE, s))
      | Some i \<Rightarrow>
          obind (set_of (SysFile i) (\<lambda>f. f\<lparr>of_vn := Some v, of_offset := 0\<rparr>) s) (\<lambda>s.
          case find_fd s of
            None \<Rightarrow> obind (close_vnode ops (Some v) s) (\<lambda>s. Done (Inl EMFILE, s))
          | Some fd \<Rightarrow> open_mode ops v openflags (SysFile i) fd (set_fd fd (Some (SysFile i)) s)))"

definition sys_open ::
  "'x vnode_ops \<Rightarrow> u32 \<Rightarrow> u32 \<Rightarrow> u32 \<Rightarrow> 'x fsys \<Rightarrow> ((errno + nat) \<times> 'x fsys) outcome" where
  "sys_open ops pathname openflags mode s =
     (if pathname = 0 then Done (Inl EFAULT, s) else
      (case kalloc PATH_MAX s of (None, s) \<Rightarrow> Done (Inl ENOMEM, s) | (Some kbuffer, s) \<Rightarrow>
      obind (copyinstr pathname (KPtr kbuffer 0) PATH_MAX (fmem s)) (\<lambda>(r, m).
      let s = s\<lparr>fmem := m\<rparr> in
      if isl r then obind (kfree_buf kbuffer s) (\<lambda>s. Done (Inl EFAULT, s)) else
      if pathname \<ge> 0x80000000 then obind (kfree_buf kbuffer s) (\<lambda>s. Done (Inl EFAULT, s)) else
      obind (in_vfs (vfs_open ops (kstring kbuffer m) openflags mode) s) (\<lambda>(r, s).
      obind (kfree_buf kbuffer s) (\<lambda>s.
      case r of Inl e \<Rightarrow> Done (Inl e, s) | Inr v \<Rightarrow> open_slot ops v openflags s)))))"

definition sys_close :: "'x vnode_ops \<Rightarrow> int \<Rightarrow> 'x fsys \<Rightarrow> (errno option \<times> 'x fsys) outcome" where
  "sys_close ops fd s =
     (if fd < 0 \<or> fd \<ge> int OPEN_MAX then Done (Some EBADF, s) else
      obind (nth_or_fault (curtab s) (nat fd)) (\<lambda>e. case e of None \<Rightarrow> Done (Some EBADF, s) | Some p \<Rightarrow>
      obind (deref (ofiles s p)) (\<lambda>f.
      obind (flock_acquire (of_lock f) s) (\<lambda>s.
      obind (set_of p (\<lambda>f. f\<lparr>countRef := countRef f - 1\<rparr>) s) (\<lambda>s.
      let s = set_fd (nat fd) None s in
      obind (deref (ofiles s p)) (\<lambda>f.
      if countRef f = 0 then
        obind (close_vnode ops (of_vn f) s) (\<lambda>s.
        obind (flock_release (of_lock f) s) (\<lambda>s.
        obind (flock_destroy (of_lock f) s) (\<lambda>s. Done (None, s))))
      else obind (flock_release (of_lock f) s) (\<lambda>s. Done (None, s))))))))"

text \<open>Closing the file that \<open>new_fd\<close> had.\<close>

definition dup2_close :: "'x vnode_ops \<Rightarrow> nat \<Rightarrow> 'x fsys \<Rightarrow> 'x fsys outcome" where
  "dup2_close ops new_fd s =
     obind (nth_or_fault (curtab s) new_fd) (\<lambda>e. case e of None \<Rightarrow> Done s | Some p \<Rightarrow>
     obind (deref (ofiles s p)) (\<lambda>f.
     obind (flock_acquire (of_lock f) s) (\<lambda>s.
     let s = set_fd new_fd None s in
     obind (set_of p (\<lambda>f. f\<lparr>countRef := countRef f - 1\<rparr>) s) (\<lambda>s.
     obind (if countRef f - 1 = 0
            then obind (set_of p (\<lambda>f. f\<lparr>of_vn := None\<rparr>) s) (\<lambda>s. close_vnode ops (of_vn f) s)
            else Done s) (\<lambda>s.
     flock_release (of_lock f) s)))))"

definition sys_dup2 :: "'x vnode_ops \<Rightarrow> int \<Rightarrow> int \<Rightarrow> 'x fsys \<Rightarrow> ((errno + int) \<times> 'x fsys) outcome" where
  "sys_dup2 ops old_fd new_fd s =
     (if old_fd < 0 \<or> old_fd \<ge> int OPEN_MAX \<or> new_fd < 0 \<or> new_fd \<ge> int OPEN_MAX then Done (Inl EBADF, s) else
      obind (nth_or_fault (curtab s) (nat old_fd)) (\<lambda>e.
      if e = None then Done (Inl EBADF, s)
      else if old_fd = new_fd then Done (Inr old_fd, s) else
      obind (dup2_close ops (nat new_fd) s) (\<lambda>s.
      obind (nth_or_fault (curtab s) (nat old_fd)) (\<lambda>e.
      obind (deref e) (\<lambda>p.
      obind (deref (ofiles s p)) (\<lambda>f.
      obind (flock_acquire (of_lock f) s) (\<lambda>s.
      obind (set_of p (\<lambda>f. f\<lparr>countRef := countRef f + 1\<rparr>) s) (\<lambda>s.
      obind (flock_release (of_lock f) s) (\<lambda>s.
      Done (Inr new_fd, set_fd (nat new_fd) (Some p) s))))))))))"

section \<open>Positions and directories\<close>

text \<open>The new position, or the error; \<open>stat\<close> is consulted for \<^verbatim>\<open>SEEK_END\<close> only.\<close>

definition seek_from :: "u64 \<Rightarrow> u64 \<Rightarrow> errno + u64" where
  "seek_from base pos = (if sint pos < 0 \<and> sint (- pos) > sint base then Inl EINVAL else Inr (base + pos))"

definition lseek_target ::
  "'x vnode_ops \<Rightarrow> nat \<Rightarrow> openfile \<Rightarrow> u64 \<Rightarrow> int \<Rightarrow> 'x fsys \<Rightarrow> ((errno + u64) \<times> 'x fsys) outcome" where
  "lseek_target ops vn f pos whence s =
     (if whence = SEEK_SET then Done (if sint pos < 0 then Inl EINVAL else Inr pos, s)
      else if whence = SEEK_CUR then Done (seek_from (of_offset f) pos, s)
      else if whence = SEEK_END then
        obind (in_vfs (checked vn (vop_stat ops vn)) s) (\<lambda>(r, s).
        Done (case r of Inl e \<Rightarrow> Inl e | Inr info \<Rightarrow> seek_from (st_size info) pos, s))
      else Done (Inl EINVAL, s))"

text \<open>\<^verbatim>\<open>int new_off\<close>: the position is cut to 32 bits and sign-extended again.\<close>

definition sys_lseek ::
  "'x vnode_ops \<Rightarrow> int \<Rightarrow> u64 \<Rightarrow> int \<Rightarrow> 'x fsys \<Rightarrow> ((errno + u64) \<times> 'x fsys) outcome" where
  "sys_lseek ops fd pos whence s =
     (if fd < 0 \<or> fd \<ge> int OPEN_MAX then Done (Inl EBADF, s) else
      obind (nth_or_fault (curtab s) (nat fd)) (\<lambda>e. case e of None \<Rightarrow> Done (Inl EBADF, s) | Some p \<Rightarrow>
      obind (deref (ofiles s p)) (\<lambda>f.
      case of_vn f of None \<Rightarrow> Stop Panic | Some vn \<Rightarrow>
      obind (vnode_check vn (fv s)) (\<lambda>_.
      if \<not> vop_isseekable ops vn (fv s) then Done (Inl ESPIPE, s) else
      obind (flock_acquire (of_lock f) s) (\<lambda>s.
      obind (lseek_target ops vn f pos whence s) (\<lambda>(r, s).
      case r of Inl e \<Rightarrow> obind (flock_release (of_lock f) s) (\<lambda>s. Done (Inl e, s)) | Inr off \<Rightarrow>
      let new_off = (scast (ucast off :: u32) :: u64) in
      obind (set_of p (\<lambda>f. f\<lparr>of_offset := new_off\<rparr>) s) (\<lambda>s.
      obind (flock_release (of_lock f) s) (\<lambda>s.
      Done (Inr new_off, s)))))))))"

definition sys_chdir :: "'x vnode_ops \<Rightarrow> u32 \<Rightarrow> 'x fsys \<Rightarrow> (errno option \<times> 'x fsys) outcome" where
  "sys_chdir ops pathname s =
     (case kalloc PATH_MAX s of (None, s) \<Rightarrow> Done (Some ENOMEM, s) | (Some kbuffer, s) \<Rightarrow>
      obind (copyinstr pathname (KPtr kbuffer 0) PATH_MAX (fmem s)) (\<lambda>(r, m).
      let s = s\<lparr>fmem := m\<rparr> in
      case r of Inl e \<Rightarrow> obind (kfree_buf kbuffer s) (\<lambda>s. Done (Some e, s)) | Inr _ \<Rightarrow>
      obind (in_vfs (vfs_open ops (kstring kbuffer m) O_RDONLY 0x1a4) s) (\<lambda>(r, s).
      obind (kfree_buf kbuffer s) (\<lambda>s.
      case r of Inl e \<Rightarrow> Done (Some e, s) | Inr vn \<Rightarrow>
      obind (in_vfs (vfs_setcurdir ops vn) s) (\<lambda>(r, s).
      obind (close_vnode ops (Some vn) s) (\<lambda>s. Done (r, s)))))))"

definition sys_getcwd ::
  "'x vnode_ops \<Rightarrow> nat option \<Rightarrow> nat \<Rightarrow> nat \<Rightarrow> u32 \<Rightarrow> u32 \<Rightarrow> 'x fsys \<Rightarrow> ((errno + u32) \<times> 'x fsys) outcome" where
  "sys_getcwd ops curas name_ob colon_ob buf buflen s =
     (let u = \<lparr>uio_iov = [\<lparr>iov_base = UPtr buf, iov_len = buflen\<rparr>], uio_iovcnt = 1, uio_offset = 0,
               uio_resid = buflen, uio_segflg = UIO_USERSPACE, uio_rw = UIO_READ, uio_space = curas\<rparr> in
      obind (vfs_getcwd ops curas name_ob colon_ob u (fmem s) (fv s)) (\<lambda>(r, u, m, x).
      let s = s\<lparr>fmem := m, fv := x\<rparr> in
      Done (case r of Some e \<Rightarrow> Inl e | None \<Rightarrow> Inr (buflen - uio_resid u), s)))"

end
