(* ===== verification/FileInv.thy ===== *)
theory FileInv
  imports FileSys
begin

text \<open>
  Correctness of the file system calls: reference counts of open files, locks and vnodes over
  any sequence of calls of any processes.
\<close>

section \<open>The invariant of the file tables\<close>

definition refd :: "'x fsys \<Rightarrow> ofptr set" where
  "refd s = {p. \<exists>q. Some p \<in> set (fileTables s q)}"

definition lk_blocks :: "lock \<Rightarrow> nat list" where
  "lk_blocks lk = [lk_self lk, lk_name lk, sem_self (lk_sem lk), sem_name (lk_sem lk), sem_wchan (lk_sem lk)]"

definition lock_good :: "kheap \<Rightarrow> lock \<Rightarrow> bool" where
  "lock_good h lk \<longleftrightarrow> lk_owner lk = None \<and> \<not> lk_locked lk \<and> \<not> sem_locked (lk_sem lk) \<and> sem_waiters (lk_sem lk) = [] \<and>
     distinct (lk_blocks lk) \<and> set (lk_blocks lk) \<subseteq> set (kh_live h)"

text \<open>An open file that process \<open>q\<close> has descriptors for: its count is the number of them.\<close>

definition file_ok :: "'x fsys \<Rightarrow> nat \<Rightarrow> ofptr \<Rightarrow> bool" where
  "file_ok s q p \<longleftrightarrow> (\<exists>f lk. ofiles s p = Some f \<and> of_vn f \<noteq> None \<and>
     countRef f = of_nat (count_list (fileTables s q) (Some p)) \<and>
     of_lock f = Some (lk_self lk) \<and> flocks s (lk_self lk) = Some lk \<and> lock_good (fheap s) lk)"

definition lock_blocks :: "'x fsys \<Rightarrow> ofptr \<Rightarrow> nat set" where
  "lock_blocks s p =
     (case ofiles s p of None \<Rightarrow> {} | Some f \<Rightarrow>
      (case of_lock f of None \<Rightarrow> {} | Some l \<Rightarrow>
      (case flocks s l of None \<Rightarrow> {} | Some lk \<Rightarrow> set (lk_blocks lk))))"

definition tables_ok :: "'x fsys \<Rightarrow> bool" where
  "tables_ok s \<longleftrightarrow> (\<forall>q. length (fileTables s q) = OPEN_MAX) \<and> finite (refd s) \<and>
     (\<forall>i < SYSTEM_OPEN_MAX. ofiles s (SysFile i) \<noteq> None) \<and>
     (\<forall>q q' p. Some p \<in> set (fileTables s q) \<longrightarrow> Some p \<in> set (fileTables s q') \<longrightarrow> q = q') \<and>
     (\<forall>q p. Some p \<in> set (fileTables s q) \<longrightarrow> file_ok s q p) \<and>
     (\<forall>p\<in>refd s. \<forall>p'\<in>refd s. p \<noteq> p' \<longrightarrow> lock_blocks s p \<inter> lock_blocks s p' = {})"

text \<open>One reference on the vnode for each open file in use.\<close>

definition files_on :: "'x fsys \<Rightarrow> nat \<Rightarrow> ofptr set" where
  "files_on s v = {p\<in>refd s. \<exists>f. ofiles s p = Some f \<and> of_vn f = Some v}"

definition fref :: "'x fsys \<Rightarrow> nat \<Rightarrow> int" where
  "fref s v = int (card (files_on s v))"

definition file_inv :: "('x vfs \<Rightarrow> bool) \<Rightarrow> 'x fsys \<Rightarrow> bool" where
  "file_inv I s \<longleftrightarrow> I (fv s) \<and> vfs_ok (fref s) (fv s) \<and> vfs_biglock (fv s) = None \<and> kheap_ok (fheap s) \<and>
     \<not> tm_badfaultfunc (fmem s) \<and> tables_ok s"

lemma lock_good_mono: "lock_good h lk \<Longrightarrow> set (kh_live h) \<subseteq> set (kh_live h') \<Longrightarrow> lock_good h' lk"
  by (auto simp: lock_good_def)

text \<open>Steps that touch no table.\<close>

lemma same_tables:
  assumes "fileTables s' = fileTables s" "ofiles s' = ofiles s" "flocks s' = flocks s"
  shows "refd s' = refd s" "lock_blocks s' p = lock_blocks s p" "files_on s' v = files_on s v" "fref s' = fref s"
proof -
  show r: "refd s' = refd s" and "lock_blocks s' p = lock_blocks s p" for p
    unfolding refd_def lock_blocks_def assms by (rule refl)+
  show "files_on s' v = files_on s v" for v unfolding files_on_def r assms(2) by (rule refl)
  then show "fref s' = fref s" by (simp add: fref_def fun_eq_iff)
qed

lemma tables_ok_cong:
  assumes "tables_ok s" "fileTables s' = fileTables s" "ofiles s' = ofiles s" "flocks s' = flocks s"
    "set (kh_live (fheap s)) \<subseteq> set (kh_live (fheap s'))"
  shows "tables_ok s'"
proof -
  have "file_ok s' q p" if "file_ok s q p" for q p
    using that lock_good_mono [OF _ assms(5)] assms(2-4) by (fastforce simp: file_ok_def)
  then show ?thesis using assms by (simp add: tables_ok_def same_tables [OF assms(2-4)])
qed

lemma tables_okD:
  assumes "tables_ok s"
  shows "length (fileTables s q) = OPEN_MAX" "finite (refd s)" "i < SYSTEM_OPEN_MAX \<Longrightarrow> ofiles s (SysFile i) \<noteq> None"
    "Some p \<in> set (fileTables s q) \<Longrightarrow> Some p \<in> set (fileTables s q') \<Longrightarrow> q = q'"
    "Some p \<in> set (fileTables s q) \<Longrightarrow> file_ok s q p"
    "p \<in> refd s \<Longrightarrow> p' \<in> refd s \<Longrightarrow> p \<noteq> p' \<Longrightarrow> lock_blocks s p \<inter> lock_blocks s p' = {}"
  using assms unfolding tables_ok_def by blast+

lemma finite_files_on: "tables_ok s \<Longrightarrow> finite (files_on s v)"
  by (simp add: files_on_def tables_okD(2))

text \<open>Changing a field that the invariant does not speak of.\<close>

lemma tables_ok_set_of:
  assumes "tables_ok s" "ofiles s p = Some f"
    "of_vn (g f) = of_vn f" "countRef (g f) = countRef f" "of_lock (g f) = of_lock f"
  shows "tables_ok (s\<lparr>ofiles := (ofiles s)(p \<mapsto> g f)\<rparr>)" "fref (s\<lparr>ofiles := (ofiles s)(p \<mapsto> g f)\<rparr>) = fref s"
proof -
  let ?s = "s\<lparr>ofiles := (ofiles s)(p \<mapsto> g f)\<rparr>"
  have r: "refd ?s = refd s" by (simp add: refd_def)
  have lb: "lock_blocks ?s q = lock_blocks s q" for q
    using assms by (simp add: lock_blocks_def fun_upd_apply cong: option.case_cong)
  have fo: "file_ok ?s q o' = file_ok s q o'" for q o'
    using assms by (auto simp: file_ok_def fun_upd_apply)
  show "tables_ok ?s" using assms(1) unfolding tables_ok_def r lb fo by (auto simp: fun_upd_apply)
  have "files_on ?s v = files_on s v" for v using assms(2,3) r by (auto simp: files_on_def fun_upd_apply)
  then show "fref ?s = fref s" by (simp add: fref_def fun_eq_iff)
qed

text \<open>What a descriptor gives.\<close>

lemma fd_file:
  assumes "tables_ok s" "0 \<le> fd" "fd < int OPEN_MAX" "curtab s ! nat fd = Some p"
  obtains f lk v where "ofiles s p = Some f" "of_vn f = Some v" "of_lock f = Some (lk_self lk)"
    "flocks s (lk_self lk) = Some lk" "lock_good (fheap s) lk" "p \<in> refd s" "p \<in> files_on s v"
    "countRef f = of_nat (count_list (curtab s) (Some p))" "Some p \<in> set (curtab s)"
proof -
  have "nat fd < length (curtab s)" using assms by (simp add: curtab_def tables_okD(1))
  then have m: "Some p \<in> set (curtab s)" using assms(4) nth_mem by metis
  then have "file_ok s (curproc (fv s)) p" using tables_okD(5) [OF assms(1)] by (simp add: curtab_def)
  moreover have "p \<in> refd s" using m by (auto simp: refd_def curtab_def)
  ultimately show thesis using that m by (auto simp: file_ok_def curtab_def files_on_def)
qed

lemma fd_nth:
  assumes "tables_ok s" "0 \<le> fd" "fd < int OPEN_MAX"
  shows "nth_or_fault (curtab s) (nat fd) = Done (curtab s ! nat fd)"
  using assms by (simp add: nth_or_fault_def curtab_def tables_okD(1))

lemma files_on_ref:
  assumes "file_inv I s" "p \<in> files_on s v"
  shows "ref (fv s) v > 0"
proof -
  have "finite (files_on s v)" using assms(1) finite_files_on by (auto simp: file_inv_def)
  then have "fref s v > 0" using assms(2) by (auto simp: fref_def card_gt_0_iff)
  then show ?thesis using assms(1) vfs_ok_refs(4) by (auto simp: file_inv_def)
qed

section \<open>Buffers and locks\<close>

lemma kalloc_cases:
  assumes "kheap_ok (fheap s)"
  obtains h where "kalloc len s = (None, s\<lparr>fheap := h\<rparr>)" "kheap_ok h" "kh_live h = kh_live (fheap s)"
  | b h where "kalloc len s = (Some b, s\<lparr>fheap := h, fmem := (fmem s)\<lparr>kobj := (kobj (fmem s))(b \<mapsto> replicate (unat len) 0)\<rparr>\<rparr>)"
      "kheap_ok h" "kh_live h = b # kh_live (fheap s)"
  using assms by (cases rule: kmalloc_cases) (auto simp: kalloc_def)

lemma kfree_buf_live:
  assumes "kh_live (fheap s) = b # L"
  shows "kfree_buf b s = Done (s\<lparr>fheap := (fheap s)\<lparr>kh_live := L\<rparr>, fmem := (fmem s)\<lparr>kobj := (kobj (fmem s))(b := None)\<rparr>\<rparr>)"
  using assms by (simp add: kfree_buf_def kfree_def)

lemma kheap_ok_tail: "kheap_ok h \<Longrightarrow> kh_live h = b # L \<Longrightarrow> kheap_ok (h\<lparr>kh_live := L\<rparr>)"
  by (auto simp: kheap_ok_def)

lemma flock_acquire_ok:
  assumes "flocks s l = Some lk" "lk_owner lk = None"
  shows "flock_acquire (Some l) s = Done (s\<lparr>flocks := (flocks s)(l \<mapsto> lk\<lparr>lk_owner := Some (curthread (fv s))\<rparr>)\<rparr>)"
  using assms by (simp add: flock_acquire_def kassert_def)

lemma flock_release_ok:
  assumes "flocks s l = Some (lk\<lparr>lk_owner := Some (curthread (fv s))\<rparr>)" "lk_owner lk = None"
  shows "flock_release (Some l) s = Done (s\<lparr>flocks := (flocks s)(l \<mapsto> lk)\<rparr>)"
proof -
  have "lk\<lparr>lk_owner := None\<rparr> = lk" using assms(2) by simp
  then show ?thesis using assms(1) by (simp add: flock_release_def kassert_def)
qed

section \<open>Descriptors come and go\<close>

lemma count_list_update:
  assumes "i < length xs"
  shows "count_list (xs[i := y]) z + (if xs ! i = z then 1 else 0) = count_list xs z + (if y = z then 1 else 0)"
proof -
  have a: "xs[i := y] = take i xs @ y # drop (Suc i) xs" using assms by (simp add: upd_conv_take_nth_drop)
  have b: "xs = take i xs @ xs ! i # drop (Suc i) xs" by (rule id_take_nth_drop [OF assms])
  have "count_list xs z = count_list (take i xs) z + (if xs ! i = z then 1 else 0) + count_list (drop (Suc i) xs) z"
    by (subst b) (simp only: count_list_append count_list.simps, simp)
  moreover have "count_list (xs[i := y]) z = count_list (take i xs) z + (if y = z then 1 else 0) + count_list (drop (Suc i) xs) z"
    by (subst a) (simp only: count_list_append count_list.simps, simp)
  ultimately show ?thesis by simp
qed

lemma in_set_count: "x \<in> set xs \<longleftrightarrow> 0 < count_list xs x"
  unfolding neq0_conv [symmetric] count_list_0_iff by simp

lemma in_update:
  assumes "i < length xs" "x \<noteq> y" "xs ! i = x \<Longrightarrow> count_list xs x = 1"
  shows "x \<in> set (xs[i := y]) \<longleftrightarrow> x \<in> set xs \<and> xs ! i \<noteq> x"
  using count_list_update [OF assms(1), of y x] assms(2,3) unfolding in_set_count by (cases "xs ! i = x") auto

lemma lock_self_distinct:
  assumes "tables_ok s" "p \<in> refd s" "p' \<in> refd s" "p \<noteq> p'" "ofiles s p = Some f" "of_lock f = Some (lk_self lk)"
    "flocks s (lk_self lk) = Some lk" "ofiles s p' = Some f'" "of_lock f' = Some (lk_self lk')" "flocks s (lk_self lk') = Some lk'"
  shows "lk_self lk \<noteq> lk_self lk'" "set (lk_blocks lk) \<inter> set (lk_blocks lk') = {}"
proof -
  show "set (lk_blocks lk) \<inter> set (lk_blocks lk') = {}" using tables_okD(6) [OF assms(1-4)] assms by (simp add: lock_blocks_def)
  then show "lk_self lk \<noteq> lk_self lk'" by (auto simp: lk_blocks_def)
qed

text \<open>The last descriptor of an open file: from then on the entry and its lock are free to change.\<close>

lemma tables_drop_last:
  assumes ok: "tables_ok s" and fd: "fd < OPEN_MAX" "fileTables s q ! fd = Some p" "count_list (fileTables s q) (Some p) = 1"
    and f: "ofiles s p = Some f" "of_vn f = Some v" "of_lock f = Some (lk_self lk)" "flocks s (lk_self lk) = Some lk"
    and s': "fileTables s' = (fileTables s)(q := (fileTables s q)[fd := None])" "ofiles s' = (ofiles s)(p \<mapsto> f')"
      "\<And>l. l \<noteq> lk_self lk \<Longrightarrow> flocks s' l = flocks s l" "set (kh_live (fheap s)) - set (lk_blocks lk) \<subseteq> set (kh_live (fheap s'))"
  shows "tables_ok s'" "refd s' = refd s - {p}" "fref s = (\<lambda>w. fref s' w + one v w)"
proof -
  have len: "fd < length (fileTables s q)" using tables_okD(1) [OF ok] fd(1) by simp
  have pin: "Some p \<in> set (fileTables s q)" using fd(2) len nth_mem by metis
  have mem: "Some p' \<in> set (fileTables s' q') \<longleftrightarrow> Some p' \<in> set (fileTables s q') \<and> p' \<noteq> p" for p' q'
  proof (cases "q' = q")
    case True
    then show ?thesis using in_update [OF len, of "Some p'" None] fd(2,3) s'(1) by (auto simp: fun_upd_apply)
  next
    case False
    then show ?thesis using tables_okD(4) [OF ok pin, of q'] s'(1) by (auto simp: fun_upd_apply)
  qed
  show r: "refd s' = refd s - {p}" using mem by (auto simp: refd_def)
  have pr: "p \<in> refd s" using pin by (auto simp: refd_def)
  have cnt: "count_list (fileTables s' q') (Some p') = count_list (fileTables s q') (Some p')" if "p' \<noteq> p" for p' q'
    using count_list_update [OF len, of None "Some p'"] that fd(2) s'(1) by (auto simp: fun_upd_apply)
  have lk: "flocks s' (lk_self lk') = flocks s (lk_self lk')" "set (lk_blocks lk) \<inter> set (lk_blocks lk') = {}"
    if "p' \<in> refd s" "p' \<noteq> p" "ofiles s p' = Some f2" "of_lock f2 = Some (lk_self lk')" "flocks s (lk_self lk') = Some lk'" for p' f2 lk'
    using lock_self_distinct [OF ok pr that(1) _ f(1,3,4) that(3-5)] that(2) s'(3) by auto
  have fo: "file_ok s' q' p'" if h: "Some p' \<in> set (fileTables s q')" "p' \<noteq> p" for q' p'
  proof -
    have r': "p' \<in> refd s" using h(1) by (auto simp: refd_def)
    obtain f2 lk' where g: "ofiles s p' = Some f2" "of_vn f2 \<noteq> None" "countRef f2 = of_nat (count_list (fileTables s q') (Some p'))"
      "of_lock f2 = Some (lk_self lk')" "flocks s (lk_self lk') = Some lk'" "lock_good (fheap s) lk'"
      using tables_okD(5) [OF ok h(1)] by (auto simp: file_ok_def)
    have "set (lk_blocks lk') \<subseteq> set (kh_live (fheap s'))" using lk(2) [OF r' h(2) g(1,4,5)] g(6) s'(4) by (auto simp: lock_good_def)
    then have "lock_good (fheap s') lk'" using g(6) by (simp add: lock_good_def)
    then show ?thesis using g lk(1) [OF r' h(2) g(1,4,5)] cnt [OF h(2)] h(2) s'(2) by (auto simp: file_ok_def fun_upd_apply)
  qed
  have lb: "lock_blocks s' p' = lock_blocks s p'" if h: "p' \<in> refd s" "p' \<noteq> p" for p'
  proof -
    obtain q' where q': "Some p' \<in> set (fileTables s q')" using h(1) by (auto simp: refd_def)
    obtain f2 lk' where g: "ofiles s p' = Some f2" "of_lock f2 = Some (lk_self lk')" "flocks s (lk_self lk') = Some lk'"
      using tables_okD(5) [OF ok q'] by (auto simp: file_ok_def)
    then show ?thesis using lk(1) [OF h g] s'(2) h(2) by (simp add: lock_blocks_def fun_upd_apply)
  qed
  show "tables_ok s'"
    unfolding tables_ok_def
  proof (intro conjI allI impI ballI)
    show "length (fileTables s' q') = OPEN_MAX" for q' using tables_okD(1) [OF ok] s'(1) by (simp add: fun_upd_apply)
    show "finite (refd s')" using r tables_okD(2) [OF ok] by simp
    show "ofiles s' (SysFile i) \<noteq> None" if "i < SYSTEM_OPEN_MAX" for i using tables_okD(3) [OF ok that] s'(2) by (simp add: fun_upd_apply)
    show "q1 = q2" if "Some p' \<in> set (fileTables s' q1)" "Some p' \<in> set (fileTables s' q2)" for q1 q2 p'
      using that mem tables_okD(4) [OF ok] by blast
    show "file_ok s' q' p'" if "Some p' \<in> set (fileTables s' q')" for q' p' using that mem fo by blast
    show "lock_blocks s' p1 \<inter> lock_blocks s' p2 = {}" if "p1 \<in> refd s'" "p2 \<in> refd s'" "p1 \<noteq> p2" for p1 p2
      using that lb tables_okD(6) [OF ok] r by auto
  qed
  have fin: "finite (files_on s' w)" for w using r tables_okD(2) [OF ok] by (simp add: files_on_def)
  have new: "p \<notin> files_on s' w" for w using r by (simp add: files_on_def)
  have on: "files_on s v = insert p (files_on s' v)"
    using pr f(1,2) r s'(2) by (auto simp: files_on_def fun_upd_apply split: if_splits)
  have off: "files_on s w = files_on s' w" if "w \<noteq> v" for w
  proof (rule set_eqI)
    fix x show "x \<in> files_on s w \<longleftrightarrow> x \<in> files_on s' w"
      using that f(1,2) by (cases "x = p") (simp_all add: files_on_def r s'(2) fun_upd_apply)
  qed
  show "fref s = (\<lambda>w. fref s' w + one v w)"
  proof
    fix w show "fref s w = fref s' w + one v w"
      using card_insert_disjoint [OF fin new] on off by (cases "w = v") (simp_all add: fref_def one_def)
  qed
qed

text \<open>A descriptor of a file that keeps others, before or after: the count follows, the rest stays.\<close>

lemma tables_recount:
  assumes ok: "tables_ok s" and fd: "fd < OPEN_MAX" and p: "Some p \<in> set (fileTables s q)"
    and f: "ofiles s p = Some f" "of_vn f' = of_vn f" "of_lock f' = of_lock f"
    and others: "\<And>p'. p' \<noteq> p \<Longrightarrow> e \<noteq> Some p' \<and> fileTables s q ! fd \<noteq> Some p'"
    and keep: "Some p \<in> set ((fileTables s q)[fd := e])"
    and c: "countRef f' = of_nat (count_list ((fileTables s q)[fd := e]) (Some p))"
    and s': "fileTables s' = (fileTables s)(q := (fileTables s q)[fd := e])" "ofiles s' = (ofiles s)(p \<mapsto> f')"
      "flocks s' = flocks s" "set (kh_live (fheap s)) \<subseteq> set (kh_live (fheap s'))"
  shows "tables_ok s'" "fref s' = fref s"
proof -
  have len: "fd < length (fileTables s q)" using tables_okD(1) [OF ok] fd by simp
  have cnt: "count_list (fileTables s' q') (Some p') = count_list (fileTables s q') (Some p')" if "p' \<noteq> p" for p' q'
    using count_list_update [OF len, of e "Some p'"] others [OF that] s'(1) by (auto simp: fun_upd_apply)
  have mem: "Some p' \<in> set (fileTables s' q') \<longleftrightarrow> Some p' \<in> set (fileTables s q')" for p' q'
  proof (cases "p' = p \<and> q' = q")
    case True
    then show ?thesis using keep p s'(1) by (simp add: fun_upd_apply)
  next
    case False
    then show ?thesis using cnt [of p' q'] s'(1) unfolding in_set_count by (cases "p' = p") (auto simp: fun_upd_apply)
  qed
  have r: "refd s' = refd s" unfolding refd_def mem by (rule refl)
  have lb: "lock_blocks s' p' = lock_blocks s p'" for p'
    using f s'(2,3) by (simp add: lock_blocks_def fun_upd_apply cong: option.case_cong)
  have fo: "file_ok s' q' p'" if h: "Some p' \<in> set (fileTables s q')" for q' p'
  proof -
    obtain f2 lk' where g: "ofiles s p' = Some f2" "of_vn f2 \<noteq> None" "countRef f2 = of_nat (count_list (fileTables s q') (Some p'))"
      "of_lock f2 = Some (lk_self lk')" "flocks s (lk_self lk') = Some lk'" "lock_good (fheap s) lk'"
      using tables_okD(5) [OF ok h] by (auto simp: file_ok_def)
    have lg: "lock_good (fheap s') lk'" by (rule lock_good_mono [OF g(6) s'(4)])
    show ?thesis
    proof (cases "p' = p")
      case True
      then have "q' = q" using tables_okD(4) [OF ok p] h by auto
      then show ?thesis using True g lg f c s' by (auto simp: file_ok_def fun_upd_apply)
    next
      case False
      then show ?thesis using g lg cnt [OF False] s' by (auto simp: file_ok_def fun_upd_apply)
    qed
  qed
  show "tables_ok s'"
    unfolding tables_ok_def r lb mem
  proof (intro conjI allI impI ballI)
    show "length (fileTables s' q') = OPEN_MAX" for q' using tables_okD(1) [OF ok] s'(1) by (simp add: fun_upd_apply)
    show "ofiles s' (SysFile i) \<noteq> None" if "i < SYSTEM_OPEN_MAX" for i using tables_okD(3) [OF ok that] s'(2) by (simp add: fun_upd_apply)
    show "file_ok s' q' p'" if "Some p' \<in> set (fileTables s q')" for q' p' by (rule fo [OF that])
  qed (use tables_okD(2,4,6) [OF ok] in auto)
  have "files_on s' v = files_on s v" for v
  proof (rule set_eqI)
    fix x show "x \<in> files_on s' v \<longleftrightarrow> x \<in> files_on s v"
      using f by (cases "x = p") (simp_all add: files_on_def r s'(2) fun_upd_apply)
  qed
  then show "fref s' = fref s" by (simp add: fref_def fun_eq_iff)
qed

text \<open>An entry without descriptors may hold anything.\<close>

lemma tables_unref:
  assumes ok: "tables_ok s" and p: "p \<notin> refd s"
    and s': "fileTables s' = fileTables s" "ofiles s' = (ofiles s)(p \<mapsto> f')"
      "\<And>l lk. flocks s l = Some lk \<Longrightarrow> lock_good (fheap s) lk \<Longrightarrow> flocks s' l = Some lk" "set (kh_live (fheap s)) \<subseteq> set (kh_live (fheap s'))"
  shows "tables_ok s'" "fref s' = fref s"
proof -
  have r: "refd s' = refd s" unfolding refd_def s'(1) by (rule refl)
  have ref: "p' \<noteq> p" "p' \<in> refd s" if "Some p' \<in> set (fileTables s q')" for p' q' using that p by (auto simp: refd_def)
  have ex: "\<exists>f2 lk'. ofiles s p' = Some f2 \<and> of_vn f2 \<noteq> None \<and> countRef f2 = of_nat (count_list (fileTables s q') (Some p')) \<and>
      of_lock f2 = Some (lk_self lk') \<and> flocks s (lk_self lk') = Some lk' \<and> lock_good (fheap s) lk'"
    if "Some p' \<in> set (fileTables s q')" for p' q'
    using tables_okD(5) [OF ok that] by (simp add: file_ok_def)
  have fo: "file_ok s' q' p'" if h: "Some p' \<in> set (fileTables s q')" for q' p'
  proof -
    obtain f2 lk' where g: "ofiles s p' = Some f2" "of_vn f2 \<noteq> None" "countRef f2 = of_nat (count_list (fileTables s q') (Some p'))"
      "of_lock f2 = Some (lk_self lk')" "flocks s (lk_self lk') = Some lk'" "lock_good (fheap s) lk'" using ex [OF h] by blast
    show ?thesis using g s'(3) [OF g(5,6)] lock_good_mono [OF g(6) s'(4)] ref(1) [OF h] s'(1,2) by (auto simp: file_ok_def fun_upd_apply)
  qed
  have lb: "lock_blocks s' p' = lock_blocks s p'" if "p' \<in> refd s" for p'
  proof -
    obtain q' where h: "Some p' \<in> set (fileTables s q')" using \<open>p' \<in> refd s\<close> by (auto simp: refd_def)
    obtain f2 lk' where g: "ofiles s p' = Some f2" "of_lock f2 = Some (lk_self lk')" "flocks s (lk_self lk') = Some lk'"
      "lock_good (fheap s) lk'" using ex [OF h] by blast
    show ?thesis using g s'(3) [OF g(3,4)] ref(1) [OF h] s'(2) by (simp add: lock_blocks_def fun_upd_apply)
  qed
  show "tables_ok s'"
    unfolding tables_ok_def r s'(1)
  proof (intro conjI allI impI ballI)
    show "ofiles s' (SysFile i) \<noteq> None" if "i < SYSTEM_OPEN_MAX" for i using tables_okD(3) [OF ok that] s'(2) by (simp add: fun_upd_apply)
    show "file_ok s' q' p'" if "Some p' \<in> set (fileTables s q')" for q' p' by (rule fo [OF that])
    show "lock_blocks s' p1 \<inter> lock_blocks s' p2 = {}" if "p1 \<in> refd s" "p2 \<in> refd s" "p1 \<noteq> p2" for p1 p2
      using that lb tables_okD(6) [OF ok] by simp
  qed (use tables_okD(1,2,4) [OF ok] in auto)
  have "files_on s' v = files_on s v" for v
  proof (rule set_eqI)
    fix x show "x \<in> files_on s' v \<longleftrightarrow> x \<in> files_on s v"
      using p by (cases "x = p") (simp_all add: files_on_def r s'(2) fun_upd_apply)
  qed
  then show "fref s' = fref s" by (simp add: fref_def fun_eq_iff)
qed

text \<open>The first descriptor of a new open file, with a lock made of fresh blocks.\<close>

lemma tables_add_new:
  assumes ok: "tables_ok s" and p: "p \<notin> refd s" and fd: "fd < OPEN_MAX" "fileTables s q ! fd = None"
    and f: "of_vn f = Some v" "countRef f = 1" "of_lock f = Some (lk_self lk)" "lock_good (fheap s') lk"
    and fresh: "set (lk_blocks lk) \<inter> set (kh_live (fheap s)) = {}"
    and s': "fileTables s' = (fileTables s)(q := (fileTables s q)[fd := Some p])" "ofiles s' = (ofiles s)(p \<mapsto> f)"
      "flocks s' = (flocks s)(lk_self lk \<mapsto> lk)" "set (kh_live (fheap s)) \<subseteq> set (kh_live (fheap s'))"
  shows "tables_ok s'" "fref s' = (\<lambda>w. fref s w + one v w)"
proof -
  have len: "fd < length (fileTables s q)" using tables_okD(1) [OF ok] fd(1) by simp
  have notin: "Some p \<notin> set (fileTables s q')" for q' using p by (auto simp: refd_def)
  have cnt: "count_list (fileTables s' q') (Some p') = count_list (fileTables s q') (Some p')" if "p' \<noteq> p" for p' q'
    using count_list_update [OF len, of "Some p" "Some p'"] that fd(2) s'(1) by (auto simp: fun_upd_apply)
  have "count_list (fileTables s q) (Some p) = 0" using notin [of q] by (simp add: count_list_0_iff)
  then have one: "count_list (fileTables s' q) (Some p) = 1"
    using count_list_update [OF len, of "Some p" "Some p"] fd(2) s'(1) by (simp add: fun_upd_apply)
  have mem: "Some p' \<in> set (fileTables s' q') \<longleftrightarrow> (if p' = p then q' = q else Some p' \<in> set (fileTables s q'))" for p' q'
  proof (cases "p' = p")
    case True
    then show ?thesis using one notin [of q'] s'(1) by (cases "q' = q") (auto simp: in_set_count fun_upd_apply)
  next
    case False
    then show ?thesis using cnt [OF False, of q'] unfolding in_set_count by simp
  qed
  have r: "refd s' = insert p (refd s)" using mem by (auto simp: refd_def split: if_splits)
  have ex: "\<exists>f2 lk'. ofiles s p' = Some f2 \<and> of_vn f2 \<noteq> None \<and> countRef f2 = of_nat (count_list (fileTables s q') (Some p')) \<and>
      of_lock f2 = Some (lk_self lk') \<and> flocks s' (lk_self lk') = Some lk' \<and> flocks s (lk_self lk') = Some lk' \<and>
      lock_good (fheap s) lk' \<and> set (lk_blocks lk) \<inter> set (lk_blocks lk') = {}"
    if h: "Some p' \<in> set (fileTables s q')" for p' q'
  proof -
    obtain f2 lk' where g: "ofiles s p' = Some f2" "of_vn f2 \<noteq> None" "countRef f2 = of_nat (count_list (fileTables s q') (Some p'))"
      "of_lock f2 = Some (lk_self lk')" "flocks s (lk_self lk') = Some lk'" "lock_good (fheap s) lk'"
      using tables_okD(5) [OF ok h] by (auto simp: file_ok_def)
    have d: "set (lk_blocks lk) \<inter> set (lk_blocks lk') = {}" using g(6) fresh by (auto simp: lock_good_def)
    then have "lk_self lk \<noteq> lk_self lk'" by (auto simp: lk_blocks_def)
    then have "flocks s' (lk_self lk') = Some lk'" using g(5) s'(3) by (simp add: fun_upd_apply)
    then show ?thesis using g d by blast
  qed
  have newlb: "lock_blocks s' p = set (lk_blocks lk)" using f(3) s'(2,3) by (simp add: lock_blocks_def fun_upd_apply)
  have lb: "lock_blocks s' p' = lock_blocks s p' \<and> lock_blocks s' p' \<inter> set (lk_blocks lk) = {}" if pr: "p' \<in> refd s" for p'
  proof -
    obtain q' where h: "Some p' \<in> set (fileTables s q')" using pr by (auto simp: refd_def)
    obtain f2 lk' where "ofiles s p' = Some f2" "of_lock f2 = Some (lk_self lk')" "flocks s (lk_self lk') = Some lk'"
      "flocks s' (lk_self lk') = Some lk'" "set (lk_blocks lk) \<inter> set (lk_blocks lk') = {}" using ex [OF h] by blast
    moreover have "p' \<noteq> p" using pr p by auto
    ultimately show ?thesis using s'(2) by (auto simp: lock_blocks_def fun_upd_apply)
  qed
  show "tables_ok s'"
    unfolding tables_ok_def
  proof (intro conjI allI impI ballI)
    show "length (fileTables s' q') = OPEN_MAX" for q' using tables_okD(1) [OF ok] s'(1) by (simp add: fun_upd_apply)
    show "finite (refd s')" using r tables_okD(2) [OF ok] by simp
    show "ofiles s' (SysFile i) \<noteq> None" if "i < SYSTEM_OPEN_MAX" for i using tables_okD(3) [OF ok that] s'(2) by (simp add: fun_upd_apply)
    show "q1 = q2" if "Some p' \<in> set (fileTables s' q1)" "Some p' \<in> set (fileTables s' q2)" for q1 q2 p'
      using that tables_okD(4) [OF ok] unfolding mem by (cases "p' = p") simp_all
    show "file_ok s' q' p'" if h: "Some p' \<in> set (fileTables s' q')" for q' p'
    proof (cases "p' = p")
      case True
      then have "q' = q" using h unfolding mem by simp
      then show ?thesis using True f one s' by (auto simp: file_ok_def fun_upd_apply)
    next
      case False
      then have h': "Some p' \<in> set (fileTables s q')" using h unfolding mem by simp
      show ?thesis using ex [OF h'] cnt [OF False, of q'] False s'(2) lock_good_mono [OF _ s'(4)] unfolding file_ok_def
        by (fastforce simp: fun_upd_apply)
    qed
    show "lock_blocks s' p1 \<inter> lock_blocks s' p2 = {}" if h: "p1 \<in> refd s'" "p2 \<in> refd s'" "p1 \<noteq> p2" for p1 p2
    proof -
      consider "p1 = p" "p2 \<in> refd s" | "p2 = p" "p1 \<in> refd s" | "p1 \<in> refd s" "p2 \<in> refd s" using h r by auto
      then show ?thesis
      proof cases
        case 1 then show ?thesis using lb [OF 1(2)] newlb by blast
      next
        case 2 then show ?thesis using lb [OF 2(2)] newlb by blast
      next
        case 3 then show ?thesis using lb [OF 3(1)] lb [OF 3(2)] tables_okD(6) [OF ok 3 h(3)] by simp
      qed
    qed
  qed
  have fin: "finite (files_on s w)" "p \<notin> files_on s w" for w using p tables_okD(2) [OF ok] by (simp_all add: files_on_def)
  have on: "x \<in> files_on s' w \<longleftrightarrow> x = p \<and> w = v \<or> x \<in> files_on s w" for x w
    using p f(1) by (cases "x = p") (auto simp: files_on_def r s'(2) fun_upd_apply)
  have "files_on s' v = insert p (files_on s v)" "w \<noteq> v \<Longrightarrow> files_on s' w = files_on s w" for w using on by blast+
  then show "fref s' = (\<lambda>w. fref s w + one v w)"
    using card_insert_disjoint [OF fin(1,2)] by (auto simp: fref_def one_def fun_eq_iff)
qed

end
