(* ===== verification/FileIo.thy ===== *)
theory FileIo
  imports FileInv
begin

text \<open>
  What the file system calls need of a file system, and the transfer of data: buffers, locks of
  open files and \<^verbatim>\<open>sys_write\<close>.
\<close>

section \<open>Locks of open files\<close>

lemma lock_create_fresh:
  assumes "kheap_ok h"
  shows "(\<exists>h'. lock_create h = Done (None, h') \<and> kheap_ok h' \<and> kh_live h' = kh_live h) \<or>
    (\<exists>lk h'. lock_create h = Done (Some lk, h') \<and> kheap_ok h' \<and> set (kh_live h) \<subseteq> set (kh_live h') \<and>
       lock_good h' lk \<and> set (lk_blocks lk) \<inter> set (kh_live h) = {})"
proof (cases rule: kmalloc_cases [OF assms])
  case (1 h1)
  then show ?thesis by (simp add: lock_create_def)
next
  case (2 k h1)
  show ?thesis
  proof (cases rule: kmalloc_cases [OF 2(2)])
    case (1 h2)
    then show ?thesis using 2 by (auto simp: lock_create_def kfree_def kheap_ok_def)
  next
    case nm: (2 nm h2)
    show ?thesis
    proof (cases "\<exists>h'. sem_create 1 h2 = Done (None, h')")
      case True
      then obtain h3 where "sem_create 1 h2 = Done (None, h3)" "kheap_ok h3" "kh_live h3 = kh_live h2"
        using sem_create_spec [OF nm(2), of 1] by auto
      then show ?thesis using 2 nm by (auto simp: lock_create_def kfree_def kheap_ok_def)
    next
      case False
      then obtain sm h3 where s: "sem_create 1 h2 = Done (Some sm, h3)" "kheap_ok h3" "sem_waiters sm = []" "\<not> sem_locked sm"
        "kh_live h3 = [sem_wchan sm, sem_name sm, sem_self sm] @ kh_live h2"
        using sem_create_spec [OF nm(2), of 1] by auto
      let ?lk = "\<lparr>lk_self = k, lk_name = nm, lk_sem = sm, lk_locked = False, lk_owner = None\<rparr>"
      have "distinct (kh_live h3)" using s(2) by (simp add: kheap_ok_def)
      then have "lock_good h3 ?lk" "set (lk_blocks ?lk) \<inter> set (kh_live h) = {}" "set (kh_live h) \<subseteq> set (kh_live h3)"
        using s 2 nm by (auto simp: lock_good_def lk_blocks_def)
      then show ?thesis using s(1,2) 2 nm by (auto simp: lock_create_def)
    qed
  qed
qed

lemma kfree_set:
  assumes "kheap_ok h" "n \<in> set (kh_live h)"
  obtains h' where "kfree (Some n) h = Done h'" "kheap_ok h'" "set (kh_live h') = set (kh_live h) - {n}"
proof -
  have "kfree (Some n) h = Done (h\<lparr>kh_live := remove1 n (kh_live h)\<rparr>)" using assms(2) by (simp add: kfree_def)
  moreover have "set (remove1 n (kh_live h)) = set (kh_live h) - {n}" using assms(1) by (simp add: kheap_ok_def set_remove1_eq)
  ultimately show thesis using that kfree_ok [OF assms(1)] by fastforce
qed

lemma lock_destroy_good:
  assumes "kheap_ok h" "lock_good h lk"
  obtains h' where "lock_destroy (Some lk) h = Done h'" "kheap_ok h'" "set (kh_live h') = set (kh_live h) - set (lk_blocks lk)"
proof -
  have d: "distinct (lk_blocks lk)" "set (lk_blocks lk) \<subseteq> set (kh_live h)" "\<not> lk_locked lk" "\<not> sem_locked (lk_sem lk)"
    "sem_waiters (lk_sem lk) = []" using assms(2) by (auto simp: lock_good_def)
  obtain h1 where h1: "kfree (Some (sem_wchan (lk_sem lk))) h = Done h1" "kheap_ok h1" "set (kh_live h1) = set (kh_live h) - {sem_wchan (lk_sem lk)}"
    using kfree_set [OF assms(1)] d(2) by (auto simp: lk_blocks_def)
  obtain h2 where h2: "kfree (Some (sem_name (lk_sem lk))) h1 = Done h2" "kheap_ok h2" "set (kh_live h2) = set (kh_live h1) - {sem_name (lk_sem lk)}"
    using kfree_set [OF h1(2), of "sem_name (lk_sem lk)"] h1(3) d(1,2) by (auto simp: lk_blocks_def)
  obtain h3 where h3: "kfree (Some (sem_self (lk_sem lk))) h2 = Done h3" "kheap_ok h3" "set (kh_live h3) = set (kh_live h2) - {sem_self (lk_sem lk)}"
    using kfree_set [OF h2(2), of "sem_self (lk_sem lk)"] h1(3) h2(3) d(1,2) by (auto simp: lk_blocks_def)
  obtain h4 where h4: "kfree (Some (lk_name lk)) h3 = Done h4" "kheap_ok h4" "set (kh_live h4) = set (kh_live h3) - {lk_name lk}"
    using kfree_set [OF h3(2), of "lk_name lk"] h1(3) h2(3) h3(3) d(1,2) by (auto simp: lk_blocks_def)
  obtain h5 where h5: "kfree (Some (lk_self lk)) h4 = Done h5" "kheap_ok h5" "set (kh_live h5) = set (kh_live h4) - {lk_self lk}"
    using kfree_set [OF h4(2), of "lk_self lk"] h1(3) h2(3) h3(3) h4(3) d(1,2) by (auto simp: lk_blocks_def)
  have "lock_destroy (Some lk) h = Done h5" using d(3-5) h1(1) h2(1) h3(1) h4(1) h5(1)
    by (simp add: lock_destroy_def sem_destroy_def kassert_def)
  then show thesis using that h5 h1(3) h2(3) h3(3) h4(3) by (auto simp: lk_blocks_def)
qed

section \<open>What the calls rely on\<close>

text \<open>On top of the contract of a file system: \<^verbatim>\<open>VOP_STAT\<close> returns, and reading and writing a kernel
  buffer return without an error, move no more than was asked and leave other memory alone.\<close>

definition buf_frame :: "memory \<Rightarrow> memory \<Rightarrow> bool" where
  "buf_frame m m' \<longleftrightarrow> vmem m' = vmem m \<and> tm_badfaultfunc m' = tm_badfaultfunc m \<and>
     (\<forall>ob. map_option length (kobj m' ob) = map_option length (kobj m ob))"

locale file_service = filesystem ops I for ops :: "'x vnode_ops" and I +
  assumes stat_law: "vnodes_ok s \<Longrightarrow> I s \<Longrightarrow> ref s v > 0 \<Longrightarrow> returns I no_refs s (vop_stat ops v s)"
    and read_law: "vnodes_ok s \<Longrightarrow> I s \<Longrightarrow> ref s v > 0 \<Longrightarrow> kobj m b = Some xs \<Longrightarrow> length xs = unat len \<Longrightarrow>
      \<exists>u m' s'. vop_read ops v (uio_kinit (KPtr b 0) len off UIO_READ) m s = Done (None, u, m', s') \<and>
        I s' \<and> fs_step s s' none \<and> uio_resid u \<le> len \<and> buf_frame m m'"
    and write_law: "vnodes_ok s \<Longrightarrow> I s \<Longrightarrow> ref s v > 0 \<Longrightarrow> kobj m b = Some xs \<Longrightarrow> length xs = unat len \<Longrightarrow>
      \<exists>u m' s'. vop_write ops v (uio_kinit (KPtr b 0) len off UIO_WRITE) m s = Done (None, u, m', s') \<and>
        I s' \<and> fs_step s s' none \<and> uio_resid u \<le> len \<and> buf_frame m m'"

section \<open>Rebuilding the invariant\<close>

lemma file_invD:
  assumes "file_inv I s"
  shows "I (fv s)" "vfs_ok (fref s) (fv s)" "vfs_biglock (fv s) = None" "kheap_ok (fheap s)" "\<not> tm_badfaultfunc (fmem s)"
    "tables_ok s" "vnodes_ok (fv s)"
  using assms by (auto simp: file_inv_def vfs_ok_def)

definition same_who :: "'x fsys \<Rightarrow> 'x fsys \<Rightarrow> bool" where
  "same_who s s' \<longleftrightarrow> curthread (fv s') = curthread (fv s) \<and> curproc (fv s') = curproc (fv s)"

lemma file_inv_frame:
  assumes "file_inv I s" "fileTables s' = fileTables s" "ofiles s' = ofiles s" "flocks s' = flocks s"
    "set (kh_live (fheap s)) \<subseteq> set (kh_live (fheap s'))" "kheap_ok (fheap s')" "\<not> tm_badfaultfunc (fmem s')"
    "I (fv s')" "vfs_ok (fref s) (fv s')" "vfs_biglock (fv s') = None"
  shows "file_inv I s'"
  using assms tables_ok_cong [OF file_invD(6) [OF assms(1)] assms(2-5)] same_tables(4) [OF assms(2-4)]
  by (simp add: file_inv_def)

lemma file_inv_set_of:
  assumes "file_inv I s" "ofiles s p = Some f" "of_vn (g f) = of_vn f" "countRef (g f) = countRef f" "of_lock (g f) = of_lock f"
  shows "file_inv I (s\<lparr>ofiles := (ofiles s)(p \<mapsto> g f)\<rparr>)"
  using assms(1) tables_ok_set_of [where g = g, OF file_invD(6) [OF assms(1)] assms(2-5)] by (simp add: file_inv_def)

text \<open>A step of the VFS layer that hands out no reference.\<close>

lemma vfs_frame:
  assumes "file_inv I s" "fs_step (fv s) x none"
  shows "vfs_ok (fref s) x" "vfs_biglock x = None" "curthread x = curthread (fv s)" "curproc x = curproc (fv s)"
proof -
  have "vfs_ok (\<lambda>v. fref s v + none v) x"
    using vfs_ok_step [OF file_invD(2) [OF assms(1)] assms(2)] by (simp add: fref_def none_def)
  then show "vfs_ok (fref s) x" by simp
qed (use assms file_invD(3) in \<open>auto simp: fs_step_def same_ctx_def\<close>)

lemma flock_back: "m l = Some lk \<Longrightarrow> (m(l \<mapsto> x))(l \<mapsto> lk) = m"
  by (auto simp: fun_upd_apply fun_eq_iff)

text \<open>A call that returns with the invariant, still on behalf of the same thread.\<close>

definition done_inv :: "('x vfs \<Rightarrow> bool) \<Rightarrow> 'x fsys \<Rightarrow> ('r \<times> 'x fsys) outcome \<Rightarrow> bool" where
  "done_inv I s m \<longleftrightarrow> (\<exists>r s'. m = Done (r, s') \<and> file_inv I s' \<and> same_who s s')"

lemma done_invI: "m = Done (r, s') \<Longrightarrow> file_inv I s' \<Longrightarrow> same_who s s' \<Longrightarrow> done_inv I s m"
  by (auto simp: done_inv_def)

lemma done_same: "file_inv I s \<Longrightarrow> done_inv I s (Done (r, s))"
  by (simp add: done_inv_def same_who_def)

text \<open>Allocating and giving back a buffer.\<close>

lemma free_buffer:
  assumes "file_inv I s" "kh_live (fheap t) = b # kh_live (fheap s)" "kheap_ok (fheap t)" "fileTables t = fileTables s"
    "ofiles t = ofiles s" "flocks t = flocks s" "\<not> tm_badfaultfunc (fmem t)" "I (fv t)" "vfs_ok (fref s) (fv t)"
    "vfs_biglock (fv t) = None"
  obtains t' where "kfree_buf b t = Done t'" "file_inv I t'" "fv t' = fv t" "vmem (fmem t') = vmem (fmem t)"
    "kh_live (fheap t') = kh_live (fheap s)" "ofiles t' = ofiles s" "flocks t' = flocks s" "fileTables t' = fileTables s"
proof -
  let ?t = "t\<lparr>fheap := (fheap t)\<lparr>kh_live := kh_live (fheap s)\<rparr>, fmem := (fmem t)\<lparr>kobj := (kobj (fmem t))(b := None)\<rparr>\<rparr>"
  have "file_inv I ?t" using assms kheap_ok_tail [OF assms(3,2)] by (intro file_inv_frame [OF assms(1)]) simp_all
  then show thesis using that [of ?t] kfree_buf_live [OF assms(2)] assms(4-6) by simp
qed

lemma alloc_buffer:
  assumes "file_inv I s"
  obtains t where "kalloc len s = (None, t)" "file_inv I t" "same_who s t"
  | b t where "kalloc len s = (Some b, t)" "kh_live (fheap t) = b # kh_live (fheap s)" "kheap_ok (fheap t)"
      "fileTables t = fileTables s" "ofiles t = ofiles s" "flocks t = flocks s" "fv t = fv s" "vmem (fmem t) = vmem (fmem s)"
      "kobj (fmem t) b = Some (replicate (unat len) 0)" "\<not> tm_badfaultfunc (fmem t)"
  using file_invD(4) [OF assms]
proof (cases rule: kalloc_cases [where len = len])
  case (1 h)
  have "file_inv I (s\<lparr>fheap := h\<rparr>)" using 1 file_invD [OF assms] by (intro file_inv_frame [OF assms]) simp_all
  then show thesis using that(1) [of "s\<lparr>fheap := h\<rparr>"] 1 by (simp add: same_who_def)
next
  case (2 b h)
  show thesis by (rule that(2) [OF 2(1)]) (use 2 file_invD(5) [OF assms] in simp_all)
qed

text \<open>The buffer after \<^verbatim>\<open>copyin\<close>, whether it succeeded or not.\<close>

lemma copyin_buffer:
  assumes "kobj m b = Some xs" "length xs = unat len" "\<not> tm_badfaultfunc m"
  obtains r c where "copyin a (KPtr b 0) len m = Done (r, m\<lparr>kobj := (kobj m)(b \<mapsto> c)\<rparr>)" "length c = unat len"
    "r = None \<Longrightarrow> c = user_prefix (vmem m) a (unat len)"
    "r = None \<Longrightarrow> user_range a len \<and> length (user_prefix (vmem m) a (unat len)) = unat len" "r \<noteq> None \<Longrightarrow> r = Some EFAULT"
proof -
  let ?p = "user_prefix (vmem m) a (unat len)"
  have sp: "copyin a (KPtr b 0) len m = (if user_range a len
     then Done (if length ?p = unat len then None else Some EFAULT, m\<lparr>kobj := (kobj m)(b \<mapsto> overlay xs 0 ?p)\<rparr>)
     else Done (Some EFAULT, m))" using copyin_spec [OF assms(1) _ assms(3), of 0 len a] assms(2) by simp
  show thesis
  proof (cases "user_range a len")
    case True
    have l: "length (overlay xs 0 ?p) = unat len" using assms(2) length_user_prefix [of "vmem m" a "unat len"] by (simp add: overlay_def)
    have eq: "overlay xs 0 ?p = ?p" if "length ?p = unat len" using that assms(2) by (simp add: overlay_def)
    show thesis
    proof (rule that [of "if length ?p = unat len then None else Some EFAULT" "overlay xs 0 ?p"])
      show "copyin a (KPtr b 0) len m =
        Done (if length ?p = unat len then None else Some EFAULT, m\<lparr>kobj := (kobj m)(b \<mapsto> overlay xs 0 ?p)\<rparr>)"
        using sp True by simp
    qed (use l eq True in \<open>auto split: if_splits\<close>)
  next
    case False
    have same: "m\<lparr>kobj := (kobj m)(b \<mapsto> xs)\<rparr> = m" using assms(1) by (simp add: map_upd_triv)
    show thesis
    proof (rule that [of "Some EFAULT" xs])
      show "copyin a (KPtr b 0) len m = Done (Some EFAULT, m\<lparr>kobj := (kobj m)(b \<mapsto> xs)\<rparr>)" unfolding same using sp False by simp
    qed (use assms(2) in simp_all)
  qed
qed

section \<open>Writing and reading\<close>

text \<open>What is known of an open file that a descriptor names.\<close>

definition opened :: "'x fsys \<Rightarrow> ofptr \<Rightarrow> openfile \<Rightarrow> nat \<Rightarrow> lock \<Rightarrow> bool" where
  "opened s p f v lk \<longleftrightarrow> ofiles s p = Some f \<and> of_vn f = Some v \<and> of_lock f = Some (lk_self lk) \<and>
     flocks s (lk_self lk) = Some lk \<and> lock_good (fheap s) lk \<and> p \<in> files_on s v"

lemma fd_opened:
  assumes "tables_ok s" "0 \<le> fd" "fd < int OPEN_MAX" "curtab s ! nat fd = Some p"
  obtains f v lk where "opened s p f v lk" "countRef f = of_nat (count_list (curtab s) (Some p))" "Some p \<in> set (curtab s)"
  by (rule fd_file [OF assms]) (auto simp: opened_def intro: that)

definition with_lock :: "'x fsys \<Rightarrow> lock \<Rightarrow> 'x fsys" where
  "with_lock s lk = s\<lparr>flocks := (flocks s)(lk_self lk \<mapsto> lk\<lparr>lk_owner := Some (curthread (fv s))\<rparr>)\<rparr>"

lemma opened_acquire:
  assumes "opened s p f v lk" "ofiles t = ofiles s" "flocks t = flocks s"
  shows "flock_acquire (of_lock f) t = Done (with_lock t lk)"
  using assms flock_acquire_ok [of t "lk_self lk" lk] by (simp add: opened_def lock_good_def with_lock_def)

lemma opened_release:
  assumes "opened s p f v lk" "flocks t = flocks (with_lock s lk)" "curthread (fv t) = curthread (fv s)"
  shows "flock_release (of_lock f) t = Done (t\<lparr>flocks := flocks s\<rparr>)"
proof -
  have "flock_release (Some (lk_self lk)) t = Done (t\<lparr>flocks := (flocks t)(lk_self lk \<mapsto> lk)\<rparr>)"
    by (rule flock_release_ok) (use assms in \<open>simp_all add: opened_def lock_good_def with_lock_def\<close>)
  then show ?thesis using assms(1,2) flock_back [of "flocks s" "lk_self lk" lk] by (simp add: opened_def with_lock_def)
qed

context file_service
begin

lemma opened_ref: "file_inv I s \<Longrightarrow> opened s p f v lk \<Longrightarrow> ref (fv s) v > 0"
  using files_on_ref by (auto simp: opened_def)

lemma write_locked_ok:
  assumes inv: "file_inv I s" and op: "opened s p f v lk"
    and t: "kh_live (fheap t) = b # kh_live (fheap s)" "kheap_ok (fheap t)" "fileTables t = fileTables s"
      "ofiles t = ofiles s" "flocks t = flocks s" "fv t = fv s" "vmem (fmem t) = vmem (fmem s)"
      "kobj (fmem t) b = Some xs" "length xs = unat len" "\<not> tm_badfaultfunc (fmem t)"
  shows "\<exists>n t' u m' x. write_locked ops p f v b len t = Done (Inr n, t') \<and> n \<le> len \<and> file_inv I t' \<and> same_who s t' \<and>
     vop_write ops v (uio_kinit (KPtr b 0) len (of_offset f) UIO_WRITE) (fmem t) (fv s) = Done (None, u, m', x) \<and>
     n = len - uio_resid u \<and> fv t' = x \<and> ofiles t' = (ofiles s)(p \<mapsto> f\<lparr>of_offset := uio_offset u\<rparr>) \<and>
     kh_live (fheap t') = kh_live (fheap s)"
proof -
  note D = file_invD [OF inv] and r = opened_ref [OF inv op]
  have of: "ofiles s p = Some f" using op by (simp add: opened_def)
  obtain u m' x where w: "vop_write ops v (uio_kinit (KPtr b 0) len (of_offset f) UIO_WRITE) (fmem t) (fv s) = Done (None, u, m', x)"
    "I x" "fs_step (fv s) x none" "uio_resid u \<le> len" "buf_frame (fmem t) m'"
    using write_law [OF D(7) D(1) r t(8,9)] by blast
  note F = vfs_frame [OF inv w(3)]
  let ?t1 = "(with_lock t lk)\<lparr>fmem := m', fv := x\<rparr>"
  have io: "vop_io (vop_write ops) v (uio_kinit (KPtr b 0) len (of_offset f) UIO_WRITE) (with_lock t lk) = Done (None, u, ?t1)"
    using w(1) vnode_check_ok [OF D(7) r] t(6) by (simp add: vop_io_def with_lock_def)
  obtain t2 where t2: "kfree_buf b (t\<lparr>fmem := m', fv := x\<rparr>) = Done t2" "file_inv I t2" "fv t2 = x"
    "kh_live (fheap t2) = kh_live (fheap s)" "ofiles t2 = ofiles s" "flocks t2 = flocks s"
    by (rule free_buffer [OF inv, of "t\<lparr>fmem := m', fv := x\<rparr>" b]) (use t w F in \<open>auto simp: buf_frame_def\<close>)
  have fr: "kfree_buf b ?t1 = Done (t2\<lparr>flocks := flocks (with_lock t lk)\<rparr>)"
    using t2(1) kfree_buf_live [of ?t1 b "kh_live (fheap s)"] kfree_buf_live [of "t\<lparr>fmem := m', fv := x\<rparr>" b "kh_live (fheap s)"] t(1)
    by (auto simp: with_lock_def)
  let ?t3 = "t2\<lparr>flocks := flocks (with_lock t lk), ofiles := (ofiles s)(p \<mapsto> f\<lparr>of_offset := uio_offset u\<rparr>)\<rparr>"
  let ?t4 = "t2\<lparr>ofiles := (ofiles s)(p \<mapsto> f\<lparr>of_offset := uio_offset u\<rparr>)\<rparr>"
  have rel: "flock_release (of_lock f) ?t3 = Done ?t4"
    using opened_release [OF op, of ?t3] t2(3,6) F(3) t(5,6) by (simp add: with_lock_def)
  have "file_inv I ?t4" using file_inv_set_of [OF t2(2), of p f "\<lambda>f. f\<lparr>of_offset := uio_offset u\<rparr>"] t2(5) of by simp
  moreover have "write_locked ops p f v b len t = Done (Inr (len - uio_resid u), ?t4)"
    unfolding write_locked_def using opened_acquire [OF op t(4,5)] io fr rel of t(4) t2(5)
    by (simp add: set_of_def with_lock_def)
  moreover have "len - uio_resid u \<le> len" using w(4) by (simp add: word_sub_le)
  ultimately show ?thesis using w(1) t2(3,4) F(3,4) by (auto simp: same_who_def)
qed

end

text \<open>The checks before the transfer, shared by both directions.\<close>

lemma fd_cases:
  assumes "tables_ok s" "0 \<le> fd" "fd < int OPEN_MAX"
  obtains "nth_or_fault (curtab s) (nat fd) = Done None"
  | p f v lk where "nth_or_fault (curtab s) (nat fd) = Done (Some p)" "opened s p f v lk"
      "countRef f = of_nat (count_list (curtab s) (Some p))" "Some p \<in> set (curtab s)" "curtab s ! nat fd = Some p"
proof (cases "curtab s ! nat fd")
  case None
  then show thesis using that(1) fd_nth [OF assms] by simp
next
  case (Some p)
  show thesis by (rule fd_opened [OF assms Some]) (use that(2) [of p] fd_nth [OF assms] Some in simp)
qed

context file_service
begin

lemma sys_write_ok:
  assumes inv: "file_inv I s" and fd: "fd \<noteq> int OPEN_MAX"
  shows "done_inv I s (sys_write ops fd buf len s)"
proof (cases "0 \<le> fd \<and> fd < int OPEN_MAX")
  case False
  then have "fd < 0 \<or> fd > int OPEN_MAX" using fd by linarith
  then show ?thesis using done_same [OF inv] by (simp add: sys_write_def)
next
  case True
  have rng: "\<not> (fd < 0 \<or> fd > int OPEN_MAX)" using True by auto
  note D = file_invD [OF inv]
  show ?thesis
  proof (cases rule: fd_cases [OF D(6) conjunct1 [OF True] conjunct2 [OF True]])
    case 1
    then show ?thesis using rng done_same [OF inv] by (simp add: sys_write_def)
  next
    case fo: (2 p f v lk)
    have of: "ofiles s p = Some f" "of_vn f = Some v" using fo(2) by (auto simp: opened_def)
    show ?thesis
    proof (cases "of_mode f \<noteq> O_WRONLY \<and> of_mode f \<noteq> O_RDWR")
      case True
      then show ?thesis using rng fo(1) of done_same [OF inv] by (simp add: sys_write_def)
    next
      case mode: False
      from inv show ?thesis
      proof (cases rule: alloc_buffer [where len = len])
        case (1 t)
        then show ?thesis using rng fo(1) of mode by (intro done_invI [of _ "Inl ENOMEM" t]) (auto simp: sys_write_def)
      next
        case (2 b t)
        obtain r c where c: "copyin buf (KPtr b 0) len (fmem t) = Done (r, (fmem t)\<lparr>kobj := (kobj (fmem t))(b \<mapsto> c)\<rparr>)"
          "length c = unat len" by (rule copyin_buffer [OF 2(9) _ 2(10)]) auto
        let ?t = "t\<lparr>fmem := (fmem t)\<lparr>kobj := (kobj (fmem t))(b \<mapsto> c)\<rparr>\<rparr>"
        show ?thesis
        proof (cases r)
          case (Some e)
          obtain t' where "kfree_buf b ?t = Done t'" "file_inv I t'" "fv t' = fv ?t"
            by (rule free_buffer [OF inv, of ?t b]) (use 2 D in simp_all)
          then show ?thesis using rng fo(1) of mode 2 c(1) Some
            by (intro done_invI [of _ "Inl EFAULT" t']) (auto simp: sys_write_def same_who_def)
        next
          case None
          obtain n t' where "write_locked ops p f v b len ?t = Done (Inr n, t')" "file_inv I t'" "same_who s t'"
            using write_locked_ok [OF inv fo(2), of ?t b c len] 2 c(2) by auto
          then show ?thesis using rng fo(1) of mode 2(1) c(1) None
            by (intro done_invI [of _ "Inr n" t']) (auto simp: sys_write_def)
        qed
      qed
    qed
  qed
qed

end

end
