(* ===== verification/FileCalls.thy ===== *)
theory FileCalls
  imports FileIo
begin

text \<open>
  The file system calls keep the invariant of the file tables, against any file system that
  keeps its contract.
\<close>

section \<open>Closing and duplicating\<close>

lemma count_word:
  assumes "(r :: u32) = of_nat (count_list xs y)" "y \<in> set xs" "length xs = OPEN_MAX"
  shows "r - 1 = of_nat (count_list xs y - 1)" "r - 1 = 0 \<longleftrightarrow> count_list xs y = 1" "r + 1 = of_nat (count_list xs y + 1)"
proof -
  have c: "0 < count_list xs y" "count_list xs y \<le> 128"
    using assms(2,3) count_le_length [of xs y] by (simp_all add: in_set_count OPEN_MAX_def)
  then show e: "r - 1 = of_nat (count_list xs y - 1)" using assms(1) by (simp add: of_nat_diff)
  have "unat (of_nat k :: u32) = k" if "k \<le> 128" for k using that by (simp add: unat_of_nat)
  from this [of "count_list xs y - 1"] have "unat (of_nat (count_list xs y - 1) :: u32) = count_list xs y - 1" using c(2) by linarith
  then have "(of_nat (count_list xs y - 1) :: u32) = 0 \<longleftrightarrow> count_list xs y - 1 = 0" by (metis unat_eq_zero)
  then show "r - 1 = 0 \<longleftrightarrow> count_list xs y = 1" using e c(1) by auto
  show "r + 1 = of_nat (count_list xs y + 1)" using assms(1) by simp
qed

context file_service
begin

text \<open>The last descriptor of an open file goes, and with it the reference on the vnode; the lock
  is destroyed by \<^verbatim>\<open>sys_close\<close> and left by \<^verbatim>\<open>sys_dup2\<close>.\<close>

lemma drop_last:
  assumes inv: "file_inv I s" and op: "opened s p f v lk" and fd: "fd < OPEN_MAX" "curtab s ! fd = Some p"
    and one: "count_list (curtab s) (Some p) = 1"
    and s': "fileTables s' = (fileTables s)(curproc (fv s) := (curtab s)[fd := None])" "ofiles s' = (ofiles s)(p \<mapsto> f')"
      "\<And>l. l \<noteq> lk_self lk \<Longrightarrow> flocks s' l = flocks s l" "set (kh_live (fheap s)) - set (lk_blocks lk) \<subseteq> set (kh_live (fheap s'))"
      "kheap_ok (fheap s')" "fmem s' = fmem s"
  shows "\<exists>x. vfs_close ops v (fv s) = Done x \<and> file_inv I (s'\<lparr>fv := x\<rparr>) \<and> same_ctx (fv s) x"
proof -
  note D = file_invD [OF inv]
  have o: "ofiles s p = Some f" "of_vn f = Some v" "of_lock f = Some (lk_self lk)" "flocks s (lk_self lk) = Some lk"
    using op by (simp_all add: opened_def)
  have T: "tables_ok s'" "fref s = (\<lambda>w. fref s' w + one v w)"
    using tables_drop_last [OF D(6) fd(1), of "curproc (fv s)" p f v lk s' f'] fd(2) one o s'(1-4) by (simp_all add: curtab_def)
  have held: "vfs_ok (\<lambda>w. fref s' w + one v w) (fv s)" using D(2) T(2) by simp
  have nn: "0 \<le> fref s' w" for w by (simp add: fref_def)
  obtain x where x: "vnode_decref ops v (fv s) = Done x" "vfs_ok (fref s') x" "I x" "same_ctx (fv s) x"
    using decref_ok [OF held D(1) nn] by blast
  have "tables_ok (s'\<lparr>fv := x\<rparr>)" "fref (s'\<lparr>fv := x\<rparr>) = fref s'"
    using tables_ok_cong [OF T(1), of "s'\<lparr>fv := x\<rparr>"] same_tables(4) [of "s'\<lparr>fv := x\<rparr>" s'] by simp_all
  then have "file_inv I (s'\<lparr>fv := x\<rparr>)" using x s'(5,6) D(3,5) by (simp add: file_inv_def same_ctx_def)
  then show ?thesis using x(1,4) by (simp add: vfs_close_def)
qed

lemma drop_one:
  assumes inv: "file_inv I s" and op: "opened s p f v lk" and fd: "fd < OPEN_MAX" "curtab s ! fd = Some p"
    and c: "count_list (curtab s) (Some p) \<noteq> 1" "countRef f' = of_nat (count_list (curtab s) (Some p) - 1)"
    and f': "of_vn f' = of_vn f" "of_lock f' = of_lock f"
  shows "file_inv I (s\<lparr>ofiles := (ofiles s)(p \<mapsto> f'), fileTables := (fileTables s)(curproc (fv s) := (curtab s)[fd := None])\<rparr>)"
    (is "file_inv I ?s")
proof -
  note D = file_invD [OF inv]
  have o: "ofiles s p = Some f" using op by (simp add: opened_def)
  have len: "fd < length (curtab s)" using fd(1) tables_okD(1) [OF D(6)] by (simp add: curtab_def)
  have pin: "Some p \<in> set (curtab s)" using fd(2) len nth_mem by metis
  have n: "count_list ((curtab s)[fd := None]) (Some p) = count_list (curtab s) (Some p) - 1" "0 < count_list (curtab s) (Some p)"
    using count_list_update [OF len, of None "Some p"] fd(2) pin by (simp_all add: in_set_count)
  then have keep: "Some p \<in> set ((curtab s)[fd := None])" using c(1) unfolding in_set_count by simp
  have "tables_ok ?s" "fref ?s = fref s"
    using tables_recount [OF D(6) fd(1), of p "curproc (fv s)" f f' None ?s] pin o f' keep c(2) n(1) fd(2) by (simp_all add: curtab_def)
  then show ?thesis using D by (simp add: file_inv_def)
qed

lemma sys_close_ok:
  assumes inv: "file_inv I s"
  shows "done_inv I s (sys_close ops fd s)"
proof (cases "0 \<le> fd \<and> fd < int OPEN_MAX")
  case False
  then show ?thesis using done_same [OF inv] by (auto simp: sys_close_def)
next
  case True
  have rng: "\<not> (fd < 0 \<or> fd \<ge> int OPEN_MAX)" using True by auto
  note D = file_invD [OF inv]
  show ?thesis
  proof (cases rule: fd_cases [OF D(6) conjunct1 [OF True] conjunct2 [OF True]])
    case 1
    then show ?thesis using rng done_same [OF inv] by (simp add: sys_close_def)
  next
    case fo: (2 p f v lk)
    have o: "ofiles s p = Some f" "of_vn f = Some v" "of_lock f = Some (lk_self lk)" "flocks s (lk_self lk) = Some lk"
      "lock_good (fheap s) lk" using fo(2) by (simp_all add: opened_def)
    have fdn: "nat fd < OPEN_MAX" using True by (simp add: nat_less_iff)
    let ?f = "f\<lparr>countRef := countRef f - 1\<rparr>"
    let ?u = "\<lambda>t. t\<lparr>ofiles := (ofiles s)(p \<mapsto> ?f), fileTables := (fileTables s)(curproc (fv s) := (curtab s)[nat fd := None])\<rparr>"
    note cw = count_word [OF fo(3,4)] and len = tables_okD(1) [OF D(6), of "curproc (fv s)"]
    have start: "sys_close ops fd s = (if countRef f - 1 = 0 then
        obind (close_vnode ops (Some v) (?u (with_lock s lk))) (\<lambda>s.
        obind (flock_release (of_lock f) s) (\<lambda>s. obind (flock_destroy (of_lock f) s) (\<lambda>s. Done (None, s))))
      else obind (flock_release (of_lock f) (?u (with_lock s lk))) (\<lambda>s. Done (None, s)))"
      using rng fo(1) o opened_acquire [OF fo(2) refl refl]
      by (simp add: sys_close_def set_of_def set_fd_def curtab_def with_lock_def)
    show ?thesis
    proof (cases "count_list (curtab s) (Some p) = 1")
      case True
      obtain h where h: "lock_destroy (Some lk) (fheap s) = Done h" "kheap_ok h" "set (kh_live h) = set (kh_live (fheap s)) - set (lk_blocks lk)"
        by (rule lock_destroy_good [OF D(4) o(5)])
      let ?s' = "(?u s)\<lparr>fheap := h, flocks := (flocks s)(lk_self lk := None)\<rparr>"
      obtain x where x: "vfs_close ops v (fv s) = Done x" "file_inv I (?s'\<lparr>fv := x\<rparr>)" "same_ctx (fv s) x"
        using drop_last [OF inv fo(2) fdn fo(5) True, of ?s' ?f] h by (auto simp: fun_upd_apply)
      have rel: "flock_release (of_lock f) ((?u (with_lock s lk))\<lparr>fv := x\<rparr>) = Done ((?u s)\<lparr>fv := x\<rparr>)"
        using opened_release [OF fo(2), of "(?u (with_lock s lk))\<lparr>fv := x\<rparr>"] x(3) by (simp add: with_lock_def same_ctx_def)
      have "flock_destroy (of_lock f) ((?u s)\<lparr>fv := x\<rparr>) = Done (?s'\<lparr>fv := x\<rparr>)" using o h(1) by (simp add: flock_destroy_def)
      then have e: "sys_close ops fd s = Done (None, ?s'\<lparr>fv := x\<rparr>)"
        using start cw(2) len True x(1) rel by (simp add: close_vnode_def curtab_def with_lock_def)
      show ?thesis by (rule done_invI [OF e x(2)]) (use x(3) in \<open>simp add: same_who_def same_ctx_def\<close>)
    next
      case False
      have "file_inv I (?u s)" using drop_one [OF inv fo(2) fdn fo(5) False, of ?f] cw(1) len by (simp add: curtab_def)
      moreover have "flock_release (of_lock f) (?u (with_lock s lk)) = Done (?u s)"
        using opened_release [OF fo(2), of "?u (with_lock s lk)"] by (simp add: with_lock_def)
      ultimately show ?thesis using start cw(2) len False
        by (intro done_invI [of _ None "?u s"]) (auto simp: same_who_def curtab_def)
    qed
  qed
qed

end

context file_service
begin

lemma dup2_close_ok:
  assumes inv: "file_inv I s" and fdn: "fd < OPEN_MAX"
  shows "\<exists>s'. dup2_close ops fd s = Done s' \<and> file_inv I s' \<and> same_who s s' \<and>
    fileTables s' = (fileTables s)(curproc (fv s) := (curtab s)[fd := None])"
proof -
  note D = file_invD [OF inv]
  have rng: "0 \<le> int fd" "int fd < int OPEN_MAX" using fdn by simp_all
  show ?thesis
  proof (cases rule: fd_cases [OF D(6) rng])
    case 1
    have "fd < length (curtab s)" using fdn tables_okD(1) [OF D(6)] by (simp add: curtab_def)
    then have "(curtab s)[fd := None] = curtab s" using 1 by (simp add: nth_or_fault_def list_update_same_conv)
    then show ?thesis using 1 inv by (simp add: dup2_close_def same_who_def curtab_def)
  next
    case fo: (2 p f v lk)
    have o: "ofiles s p = Some f" "of_vn f = Some v" "of_lock f = Some (lk_self lk)" "flocks s (lk_self lk) = Some lk"
      "lock_good (fheap s) lk" using fo(2) by (simp_all add: opened_def)
    note cw = count_word [OF fo(3,4)] and len = tables_okD(1) [OF D(6), of "curproc (fv s)"]
    let ?f = "f\<lparr>countRef := countRef f - 1\<rparr>"
    let ?u = "\<lambda>t g. t\<lparr>fileTables := (fileTables s)(curproc (fv s) := (curtab s)[fd := None]), ofiles := (ofiles s)(p \<mapsto> g)\<rparr>"
    have start: "dup2_close ops fd s = (if countRef f - 1 = 0 then
        obind (close_vnode ops (Some v) (?u (with_lock s lk) (?f\<lparr>of_vn := None\<rparr>))) (flock_release (of_lock f))
      else flock_release (of_lock f) (?u (with_lock s lk) ?f))"
      using fo(1) o opened_acquire [OF fo(2) refl refl]
      by (simp add: dup2_close_def set_of_def set_fd_def curtab_def with_lock_def)
    show ?thesis
    proof (cases "count_list (curtab s) (Some p) = 1")
      case True
      obtain x where x: "vfs_close ops v (fv s) = Done x" "file_inv I ((?u s (?f\<lparr>of_vn := None\<rparr>))\<lparr>fv := x\<rparr>)" "same_ctx (fv s) x"
        using drop_last [OF inv fo(2) fdn _ True, of "?u s (?f\<lparr>of_vn := None\<rparr>)" "?f\<lparr>of_vn := None\<rparr>"] fo(5) D(4) by auto
      have "flock_release (of_lock f) ((?u (with_lock s lk) (?f\<lparr>of_vn := None\<rparr>))\<lparr>fv := x\<rparr>) = Done ((?u s (?f\<lparr>of_vn := None\<rparr>))\<lparr>fv := x\<rparr>)"
        using opened_release [OF fo(2), of "(?u (with_lock s lk) (?f\<lparr>of_vn := None\<rparr>))\<lparr>fv := x\<rparr>"] x(3) by (simp add: with_lock_def same_ctx_def)
      then have "dup2_close ops fd s = Done ((?u s (?f\<lparr>of_vn := None\<rparr>))\<lparr>fv := x\<rparr>)"
        using start cw(2) len True x(1) by (simp add: close_vnode_def curtab_def with_lock_def)
      then show ?thesis using x(2,3) by (simp add: same_who_def same_ctx_def)
    next
      case False
      have "file_inv I (s\<lparr>ofiles := (ofiles s)(p \<mapsto> ?f), fileTables := (fileTables s)(curproc (fv s) := (curtab s)[fd := None])\<rparr>)"
        using drop_one [OF inv fo(2) fdn _ False, of ?f] cw(1) len fo(5) by (simp add: curtab_def)
      moreover have "s\<lparr>ofiles := (ofiles s)(p \<mapsto> ?f), fileTables := (fileTables s)(curproc (fv s) := (curtab s)[fd := None])\<rparr> = ?u s ?f" by simp
      ultimately have "file_inv I (?u s ?f)" by simp
      moreover have "flock_release (of_lock f) (?u (with_lock s lk) ?f) = Done (?u s ?f)"
        using opened_release [OF fo(2), of "?u (with_lock s lk) ?f"] by (simp add: with_lock_def)
      ultimately show ?thesis using start cw(2) len False by (simp add: same_who_def curtab_def)
    qed
  qed
qed

lemma sys_dup2_ok:
  assumes inv: "file_inv I s"
  shows "done_inv I s (sys_dup2 ops old_fd new_fd s)"
proof (cases "old_fd < 0 \<or> old_fd \<ge> int OPEN_MAX \<or> new_fd < 0 \<or> new_fd \<ge> int OPEN_MAX")
  case True
  then have "sys_dup2 ops old_fd new_fd s = Done (Inl EBADF, s)" unfolding sys_dup2_def by (rule if_P)
  then show ?thesis using done_same [OF inv] by simp
next
  case rng: False
  note D = file_invD [OF inv]
  have r: "0 \<le> old_fd" "old_fd < int OPEN_MAX" "nat new_fd < OPEN_MAX" "nat old_fd < OPEN_MAX" using rng by auto
  show ?thesis
  proof (cases rule: fd_cases [OF D(6) r(1,2)])
    case 1
    then show ?thesis using rng done_same [OF inv] by (simp add: sys_dup2_def)
  next
    case old: (2 p f0 v0 lk0)
    show ?thesis
    proof (cases "old_fd = new_fd")
      case True
      then show ?thesis using rng old(1) done_same [OF inv] by (simp add: sys_dup2_def)
    next
      case ne: False
      obtain s1 where s1: "dup2_close ops (nat new_fd) s = Done s1" "file_inv I s1" "same_who s s1"
        "fileTables s1 = (fileTables s)(curproc (fv s) := (curtab s)[nat new_fd := None])" using dup2_close_ok [OF inv r(3)] by blast
      note D1 = file_invD [OF s1(2)]
      have len: "nat new_fd < length (curtab s1)" "nat old_fd < length (curtab s1)" using r tables_okD(1) [OF D1(6)] by (simp_all add: curtab_def)
      have ct: "curtab s1 = (curtab s)[nat new_fd := None]" using s1(3,4) by (simp add: curtab_def same_who_def fun_upd_apply)
      have e: "curtab s1 ! nat old_fd = Some p" "curtab s1 ! nat new_fd = None" using old(5) ne rng len ct by (auto simp: nth_list_update)
      obtain f v lk where fo: "opened s1 p f v lk" "countRef f = of_nat (count_list (curtab s1) (Some p))" "Some p \<in> set (curtab s1)"
        by (rule fd_opened [OF D1(6) r(1,2) e(1)])
      have o: "ofiles s1 p = Some f" "of_lock f = Some (lk_self lk)" using fo(1) by (simp_all add: opened_def)
      let ?f = "f\<lparr>countRef := countRef f + 1\<rparr>"
      let ?t = "s1\<lparr>ofiles := (ofiles s1)(p \<mapsto> ?f)\<rparr>"
      let ?u = "?t\<lparr>fileTables := (fileTables s1)(curproc (fv s1) := (curtab s1)[nat new_fd := Some p])\<rparr>"
      have rel: "flock_release (of_lock f) ((with_lock s1 lk)\<lparr>ofiles := (ofiles s1)(p \<mapsto> ?f)\<rparr>) = Done ?t"
        using opened_release [OF fo(1), of "(with_lock s1 lk)\<lparr>ofiles := (ofiles s1)(p \<mapsto> ?f)\<rparr>"] by (simp add: with_lock_def)
      have n: "count_list ((curtab s1)[nat new_fd := Some p]) (Some p) = count_list (curtab s1) (Some p) + 1"
        using count_list_update [OF len(1), of "Some p" "Some p"] e(2) by simp
      then have keep: "Some p \<in> set ((curtab s1)[nat new_fd := Some p])" unfolding in_set_count by simp
      have cr: "countRef ?f = of_nat (count_list ((curtab s1)[nat new_fd := Some p]) (Some p))" unfolding n using fo(2) by simp
      have "tables_ok ?u" "fref ?u = fref s1"
        by (rule tables_recount [OF D1(6) r(3), of p "curproc (fv s1)" f ?f "Some p" ?u];
            use fo(3) o(1) e(2) keep cr in \<open>simp add: curtab_def\<close>)+
      then have "file_inv I ?u" using D1 by (simp add: file_inv_def)
      moreover have "sys_dup2 ops old_fd new_fd s = Done (Inr new_fd, ?u)"
        using rng old(1) ne s1(1) len(2) e(1) o opened_acquire [OF fo(1) refl refl] rel
        by (simp add: sys_dup2_def nth_or_fault_def set_of_def set_fd_def with_lock_def curtab_def)
      ultimately show ?thesis using s1(3) by (intro done_invI [of _ "Inr new_fd" ?u]) (simp_all add: same_who_def)
    qed
  qed
qed

end

section \<open>Seeking\<close>

context file_service
begin

lemma stat_frame:
  assumes inv: "file_inv I s" and r: "ref (fv s) v > 0" and t: "fv t = fv s"
  obtains q x where "in_vfs (checked v (vop_stat ops v)) t = Done (q, t\<lparr>fv := x\<rparr>)" "I x" "fs_step (fv s) x none"
proof -
  note D = file_invD [OF inv]
  obtain q x where "vop_stat ops v (fv s) = Done (q, x)" "I x" "fs_step (fv s) x none"
    using stat_law [OF D(7) D(1) r] by (auto simp: returns_def)
  then show thesis using that [of q x] vnode_check_ok [OF D(7) r] t by (simp add: in_vfs_def checked_def)
qed

lemma lseek_target_frame:
  assumes inv: "file_inv I s" and r: "ref (fv s) v > 0" and t: "fv t = fv s"
  obtains q x where "lseek_target ops v f pos whence t = Done (q, t\<lparr>fv := x\<rparr>)" "I x" "fs_step (fv s) x none"
proof -
  note D = file_invD [OF inv]
  have same: "t\<lparr>fv := fv s\<rparr> = t" using t by simp
  show thesis
  proof (cases "whence = SEEK_END")
    case True
    obtain q x where "in_vfs (checked v (vop_stat ops v)) t = Done (q, t\<lparr>fv := x\<rparr>)" "I x" "fs_step (fv s) x none"
      by (rule stat_frame [OF assms])
    then show thesis using that True by (simp add: lseek_target_def SEEK_SET_def SEEK_CUR_def SEEK_END_def)
  next
    case False
    then have "\<exists>q. lseek_target ops v f pos whence t = Done (q, t)" by (simp add: lseek_target_def)
    then obtain q where "lseek_target ops v f pos whence t = Done (q, t)" by blast
    then show thesis using that [of q "fv s"] same D(1) fs_step_refl [OF D(7)] by simp
  qed
qed

lemma sys_lseek_ok:
  assumes inv: "file_inv I s"
  shows "done_inv I s (sys_lseek ops fd pos whence s)"
proof (cases "0 \<le> fd \<and> fd < int OPEN_MAX")
  case False
  then show ?thesis using done_same [OF inv] by (auto simp: sys_lseek_def)
next
  case True
  have rng: "\<not> (fd < 0 \<or> fd \<ge> int OPEN_MAX)" using True by auto
  note D = file_invD [OF inv]
  show ?thesis
  proof (cases rule: fd_cases [OF D(6) conjunct1 [OF True] conjunct2 [OF True]])
    case 1
    then show ?thesis using rng done_same [OF inv] by (simp add: sys_lseek_def)
  next
    case fo: (2 p f v lk)
    have o: "ofiles s p = Some f" "of_vn f = Some v" "of_lock f = Some (lk_self lk)" using fo(2) by (simp_all add: opened_def)
    note r = opened_ref [OF inv fo(2)]
    show ?thesis
    proof (cases "vop_isseekable ops v (fv s)")
      case False
      then show ?thesis using rng fo(1) o vnode_check_ok [OF D(7) r] done_same [OF inv] by (simp add: sys_lseek_def)
    next
      case seek: True
      obtain q x where x: "lseek_target ops v f pos whence (with_lock s lk) = Done (q, (with_lock s lk)\<lparr>fv := x\<rparr>)" "I x" "fs_step (fv s) x none"
        by (rule lseek_target_frame [OF inv r, of "with_lock s lk"]) (auto simp: with_lock_def)
      note F = vfs_frame [OF inv x(3)]
      have inv': "file_inv I (s\<lparr>fv := x\<rparr>)" using D x(2) F by (intro file_inv_frame [OF inv]) simp_all
      have rel: "flock_release (of_lock f) (((with_lock s lk)\<lparr>fv := x\<rparr>)\<lparr>ofiles := g\<rparr>) = Done ((s\<lparr>fv := x\<rparr>)\<lparr>ofiles := g\<rparr>)" for g
        using opened_release [OF fo(2), of "((with_lock s lk)\<lparr>fv := x\<rparr>)\<lparr>ofiles := g\<rparr>"] F(3) by (simp add: with_lock_def)
      have rel0: "flock_release (of_lock f) ((with_lock s lk)\<lparr>fv := x\<rparr>) = Done (s\<lparr>fv := x\<rparr>)"
        using rel [of "ofiles s"] by (simp add: with_lock_def)
      note start = rng fo(1) o vnode_check_ok [OF D(7) r] seek opened_acquire [OF fo(2) refl refl] x(1)
      show ?thesis
      proof (cases q)
        case (Inl e)
        then have "sys_lseek ops fd pos whence s = Done (Inl e, s\<lparr>fv := x\<rparr>)" using start rel0 by (simp add: sys_lseek_def)
        then show ?thesis by (rule done_invI [OF _ inv']) (use F in \<open>simp add: same_who_def\<close>)
      next
        case (Inr off)
        let ?n = "(scast (ucast off :: u32) :: u64)"
        let ?t = "(s\<lparr>fv := x\<rparr>)\<lparr>ofiles := (ofiles s)(p \<mapsto> f\<lparr>of_offset := ?n\<rparr>)\<rparr>"
        have "sys_lseek ops fd pos whence s = Done (Inr ?n, ?t)"
          using start rel [of "(ofiles s)(p \<mapsto> f\<lparr>of_offset := ?n\<rparr>)"] Inr by (simp add: sys_lseek_def set_of_def with_lock_def Let_def)
        moreover have "file_inv I ?t" using file_inv_set_of [OF inv', of p f "\<lambda>f. f\<lparr>of_offset := ?n\<rparr>"] o(1) by simp
        ultimately show ?thesis by (rule done_invI) (use F in \<open>simp add: same_who_def\<close>)
      qed
    qed
  qed
qed

end

section \<open>Opening\<close>

text \<open>A pathname copied into a buffer, whether it is usable or not.\<close>

lemma copyinstr_buffer:
  assumes "kobj m b = Some xs" "length xs = unat PATH_MAX" "\<not> tm_badfaultfunc m"
  obtains r c where "copyinstr a (KPtr b 0) PATH_MAX m = Done (r, m\<lparr>kobj := (kobj m)(b \<mapsto> c)\<rparr>)"
proof -
  have "0 < unat PATH_MAX" by (simp add: PATH_MAX_def)
  note sp = copyinstr_spec [OF assms(1) _ assms(3) this, of 0 a]
  have same: "m\<lparr>kobj := (kobj m)(b \<mapsto> xs)\<rparr> = m" using assms(1) by (simp add: map_upd_triv)
  show thesis
  proof (cases "2 ^ 32 < unat a + unat PATH_MAX \<or> 2 ^ 31 \<le> unat a")
    case True
    have "copyinstr a (KPtr b 0) PATH_MAX m = Done (Inl EFAULT, m\<lparr>kobj := (kobj m)(b \<mapsto> xs)\<rparr>)"
      unfolding same using sp True assms(2) by (simp split: if_splits)
    then show thesis by (rule that)
  next
    case False
    let ?p = "user_prefix (vmem m) a (min (unat PATH_MAX) (2 ^ 31 - unat a))"
    have "copyinstr a (KPtr b 0) PATH_MAX m = Done (if 0 \<in> set ?p then Inr (length (upto_nul ?p))
             else if length ?p < unat PATH_MAX then Inl EFAULT else Inl ENAMETOOLONG, m\<lparr>kobj := (kobj m)(b \<mapsto> overlay xs 0 (upto_nul ?p))\<rparr>)"
      using sp False assms(2) unfolding Let_def by (simp split: if_splits)
    then show thesis by (rule that)
  qed
qed

context file_service
begin

lemma vfs_open_frame:
  assumes inv: "file_inv I s" and t: "fv t = fv s"
  obtains r x where "in_vfs (vfs_open ops path fl mode) t = Done (r, t\<lparr>fv := x\<rparr>)" "I x" "vfs_ok (\<lambda>w. fref s w + handed r w) x"
    "vfs_biglock x = None" "curthread x = curthread (fv s)" "curproc x = curproc (fv s)"
proof -
  note D = file_invD [OF inv]
  obtain r x where r: "vfs_open ops path fl mode (fv s) = Done (r, x)" "since (fref s) (fv s) (handed r) x"
    using sinceE [OF D(2) open_returns [OF D(2,1)] handed_nonneg] .
  have ctx: "same_ctx (fv s) x" using r(2) by (simp add: since_def fs_step_def)
  show thesis
    by (rule that [of r x]) (use r t ctx since_ok [OF r(2)] since_facts(1) [OF r(2)] D(3) in \<open>simp_all add: in_vfs_def same_ctx_def\<close>)
qed

text \<open>Giving back the reference of a vnode that was just opened.\<close>

lemma close_opened:
  assumes inv: "file_inv I (s\<lparr>fv := y\<rparr>)" and x: "I x" "vfs_ok (\<lambda>w. fref s w + one v w) x" "vfs_biglock x = None" "fv s = x"
  obtains z where "close_vnode ops (Some v) s = Done (s\<lparr>fv := z\<rparr>)" "file_inv I (s\<lparr>fv := z\<rparr>)" "same_who s (s\<lparr>fv := z\<rparr>)"
proof -
  have nn: "0 \<le> fref s w" for w by (simp add: fref_def)
  obtain z where z: "vnode_decref ops v x = Done z" "vfs_ok (fref s) z" "I z" "same_ctx x z"
    using decref_ok [OF x(2,1) nn] by blast
  have "fref (s\<lparr>fv := y\<rparr>) = fref s" by (rule same_tables(4)) simp_all
  then have "file_inv I (s\<lparr>fv := z\<rparr>)" using z x(3) file_invD [OF inv]
    by (intro file_inv_frame [OF inv]) (simp_all add: same_ctx_def)
  then show thesis using that [of z] z x(4) by (simp add: close_vnode_def vfs_close_def same_who_def same_ctx_def)
qed

lemma sys_chdir_ok:
  assumes inv: "file_inv I s"
  shows "done_inv I s (sys_chdir ops pathname s)"
proof -
  note D = file_invD [OF inv]
  from inv show ?thesis
  proof (cases rule: alloc_buffer [where len = PATH_MAX])
    case (1 t)
    then show ?thesis by (intro done_invI [of _ "Some ENOMEM" t]) (simp_all add: sys_chdir_def)
  next
    case (2 b t)
    obtain r c where c: "copyinstr pathname (KPtr b 0) PATH_MAX (fmem t) = Done (r, (fmem t)\<lparr>kobj := (kobj (fmem t))(b \<mapsto> c)\<rparr>)"
      by (rule copyinstr_buffer [OF 2(9) _ 2(10)]) auto
    let ?m = "(fmem t)\<lparr>kobj := (kobj (fmem t))(b \<mapsto> c)\<rparr>"
    show ?thesis
    proof (cases r)
      case (Inl e)
      obtain t' where "kfree_buf b (t\<lparr>fmem := ?m\<rparr>) = Done t'" "file_inv I t'" "fv t' = fv (t\<lparr>fmem := ?m\<rparr>)"
        by (rule free_buffer [OF inv, of "t\<lparr>fmem := ?m\<rparr>" b]) (use 2 D in simp_all)
      then show ?thesis using 2 c Inl by (intro done_invI [of _ "Some e" t']) (simp_all add: sys_chdir_def same_who_def)
    next
      case (Inr n)
      obtain q x where q: "in_vfs (vfs_open ops (kstring b ?m) O_RDONLY 0x1a4) (t\<lparr>fmem := ?m\<rparr>) = Done (q, (t\<lparr>fmem := ?m\<rparr>)\<lparr>fv := x\<rparr>)" "I x"
        "vfs_ok (\<lambda>w. fref s w + handed q w) x" "vfs_biglock x = None" "curthread x = curthread (fv s)" "curproc x = curproc (fv s)"
        by (rule vfs_open_frame [OF inv, of "t\<lparr>fmem := ?m\<rparr>"]) (use 2(7) in auto)
      obtain t' where t': "kfree_buf b (t\<lparr>fmem := ?m\<rparr>) = Done t'" "file_inv I t'" "fv t' = fv (t\<lparr>fmem := ?m\<rparr>)"
        "ofiles t' = ofiles s" "flocks t' = flocks s" "fileTables t' = fileTables s"
        by (rule free_buffer [OF inv, of "t\<lparr>fmem := ?m\<rparr>" b]) (use 2 D in simp_all)
      have fr: "fref (t'\<lparr>fv := y\<rparr>) = fref s" for y by (rule same_tables(4)) (use t' in simp_all)
      have kf: "kfree_buf b ((t\<lparr>fmem := ?m\<rparr>)\<lparr>fv := x\<rparr>) = Done (t'\<lparr>fv := x\<rparr>)"
        using t'(1) by (auto simp: kfree_buf_def obind_Done_iff)
      show ?thesis
      proof (cases q)
        case (Inl e)
        have "file_inv I (t'\<lparr>fv := x\<rparr>)" using q Inl file_invD [OF t'(2)] fr [of "fv t'"]
          by (intro file_inv_frame [OF t'(2)]) simp_all
        then show ?thesis using 2 c \<open>r = Inr n\<close> q(1) kf Inl q(5,6)
          by (intro done_invI [of _ "Some e" "t'\<lparr>fv := x\<rparr>"]) (simp_all add: sys_chdir_def same_who_def)
      next
        case v: (Inr v)
        have h: "vfs_ok (\<lambda>w. fref s w + one v w) x" using q(3) v by simp
        have "ref x v > 0" by (rule vfs_ok_refs(4) [OF h]) (simp add: fref_def add_nonneg_pos)
        then obtain e y where y: "vfs_setcurdir ops v x = Done (e, y)" "vfs_ok (\<lambda>w. fref s w + one v w) y" "I y" "same_env x y"
          using setcurdir_ok [OF h q(2)] by blast
        have bl: "vfs_biglock y = None" "curthread y = curthread (fv s)" "curproc y = curproc (fv s)" using y(4) q(4-6) by (simp_all add: same_env_def)
        have inv': "file_inv I ((t'\<lparr>fv := y\<rparr>)\<lparr>fv := fv t'\<rparr>)" using t'(2) by simp
        obtain z where z: "close_vnode ops (Some v) (t'\<lparr>fv := y\<rparr>) = Done ((t'\<lparr>fv := y\<rparr>)\<lparr>fv := z\<rparr>)" "file_inv I ((t'\<lparr>fv := y\<rparr>)\<lparr>fv := z\<rparr>)"
          "same_who (t'\<lparr>fv := y\<rparr>) ((t'\<lparr>fv := y\<rparr>)\<lparr>fv := z\<rparr>)"
          by (rule close_opened [OF inv' y(3)]) (use y(2) fr bl(1) in simp_all)
        have "sys_chdir ops pathname s = Done (e, (t'\<lparr>fv := y\<rparr>)\<lparr>fv := z\<rparr>)"
          using 2 c \<open>r = Inr n\<close> q(1) kf v y(1) z(1) by (simp add: sys_chdir_def in_vfs_def)
        then show ?thesis by (rule done_invI [OF _ z(2)]) (use z(3) bl in \<open>simp add: same_who_def\<close>)
      qed
    qed
  qed
qed

end

context file_service
begin

text \<open>The state between taking the vnode and the end of \<^verbatim>\<open>sys_open\<close>: one reference on \<open>v\<close> is in
  hand, and the tables are those of a state with the invariant.\<close>

definition in_open :: "'x fsys \<Rightarrow> nat \<Rightarrow> bool" where
  "in_open s v \<longleftrightarrow> tables_ok s \<and> kheap_ok (fheap s) \<and> \<not> tm_badfaultfunc (fmem s) \<and> I (fv s) \<and>
     vfs_ok (\<lambda>w. fref s w + one v w) (fv s) \<and> vfs_biglock (fv s) = None"

lemma in_open_close:
  assumes "in_open s v"
  obtains t where "close_vnode ops (Some v) s = Done t" "file_inv I t" "same_who s t"
proof -
  have nn: "0 \<le> fref s w" for w by (simp add: fref_def)
  obtain z where z: "vnode_decref ops v (fv s) = Done z" "vfs_ok (fref s) z" "I z" "same_ctx (fv s) z"
    using decref_ok [of "fref s" v "fv s"] assms nn unfolding in_open_def by blast
  have "tables_ok (s\<lparr>fv := z\<rparr>)" "fref (s\<lparr>fv := z\<rparr>) = fref s"
    using assms tables_ok_cong [of s "s\<lparr>fv := z\<rparr>"] same_tables(4) [of "s\<lparr>fv := z\<rparr>" s] by (simp_all add: in_open_def)
  then have "file_inv I (s\<lparr>fv := z\<rparr>)" using z assms by (simp add: file_inv_def in_open_def same_ctx_def)
  then show thesis using that z by (simp add: close_vnode_def vfs_close_def same_who_def same_ctx_def)
qed

lemma in_open_unref:
  assumes "in_open s v" "p \<notin> refd s" "fileTables t = fileTables s" "ofiles t = (ofiles s)(p \<mapsto> f)" "flocks t = flocks s"
    "set (kh_live (fheap s)) \<subseteq> set (kh_live (fheap t))" "kheap_ok (fheap t)" "fmem t = fmem s"
    "I (fv t)" "vfs_ok (\<lambda>w. fref s w + one v w) (fv t)" "vfs_biglock (fv t) = None"
  shows "in_open t v"
proof -
  have "tables_ok t" "fref t = fref s"
    using tables_unref [of s p t f] assms by (simp_all add: in_open_def)
  then show ?thesis using assms by (simp add: in_open_def)
qed

lemma open_fail_ok:
  assumes op: "in_open s v" and p: "p \<notin> refd s" and fd: "fd < OPEN_MAX" "curtab s ! fd = None"
    and t: "fileTables t = (fileTables s)(curproc (fv s) := (curtab s)[fd := Some p])" "ofiles t = (ofiles s)(p \<mapsto> f)" "flocks t = flocks s"
      "set (kh_live (fheap s)) \<subseteq> set (kh_live (fheap t))" "kheap_ok (fheap t)" "fmem t = fmem s"
      "I (fv t)" "vfs_ok (\<lambda>w. fref s w + one v w) (fv t)" "vfs_biglock (fv t) = None" "same_who s t"
  shows "done_inv I s (open_fail ops v fd e t)"
proof -
  have len: "fd < length (fileTables s (curproc (fv s)))" using op fd(1) tables_okD(1) [of s] by (auto simp: in_open_def)
  have "fileTables (set_fd fd None t) = fileTables s"
  proof
    fix q show "fileTables (set_fd fd None t) q = fileTables s q"
      using t(1,10) fd(2) len by (auto simp: set_fd_def curtab_def same_who_def fun_upd_apply list_update_same_conv)
  qed
  then have "in_open (set_fd fd None t) v" using t by (intro in_open_unref [OF op p, of _ f]) (simp_all add: set_fd_def)
  then obtain t' where "close_vnode ops (Some v) (set_fd fd None t) = Done t'" "file_inv I t'" "same_who (set_fd fd None t) t'"
    by (rule in_open_close)
  then show ?thesis using t(10) by (intro done_invI [of _ "Inl e" t']) (simp_all add: open_fail_def same_who_def set_fd_def)
qed

lemma in_open_stat:
  assumes "in_open s v"
  obtains q x where "vop_stat ops v (fv s) = Done (q, x)" "I x" "vfs_ok (\<lambda>w. fref s w + one v w) x" "vfs_biglock x = None"
    "curthread x = curthread (fv s)" "curproc x = curproc (fv s)" "vnode_check v (fv s) = Done ()"
proof -
  have h: "vfs_ok (\<lambda>w. fref s w + one v w) (fv s)" "I (fv s)" "vfs_biglock (fv s) = None" using assms by (auto simp: in_open_def)
  have r: "ref (fv s) v > 0" by (rule vfs_ok_refs(4) [OF h(1)]) (simp add: fref_def add_nonneg_pos)
  obtain q x where x: "vop_stat ops v (fv s) = Done (q, x)" "I x" "fs_step (fv s) x none"
    using stat_law [OF vfs_okD(1) [OF h(1)] h(2) r] by (auto simp: returns_def)
  have "vfs_ok (\<lambda>w. fref s w + one v w + none w) x" by (rule vfs_ok_step [OF h(1) x(3)]) (simp add: fref_def)
  then show thesis using that x h(3) vnode_check_ok [OF vfs_okD(1) [OF h(1)] r] by (simp add: fs_step_def same_ctx_def)
qed

end

context file_service
begin

text \<open>From the seek position on, in a state \<open>t\<close> that differs from \<open>s\<close> by the new descriptor.\<close>

lemma open_mode_ok:
  assumes op: "in_open s v" and p: "p \<notin> refd s" and fd: "fd < OPEN_MAX" "curtab s ! fd = None" and f: "ofiles s p = Some f" "of_vn f = Some v"
  shows "done_inv I s (open_mode ops v fl p fd (set_fd fd (Some p) s))"
proof -
  let ?T = "(fileTables s)(curproc (fv s) := (curtab s)[fd := Some p])"
  have O: "tables_ok s" "kheap_ok (fheap s)" "\<not> tm_badfaultfunc (fmem s)" "I (fv s)" "vfs_ok (\<lambda>w. fref s w + one v w) (fv s)"
    "vfs_biglock (fv s) = None" using op by (auto simp: in_open_def)
  define st where "st = (if fl AND O_APPEND \<noteq> 0 then in_vfs (checked v (vop_stat ops v)) (set_fd fd (Some p) s)
            else Done (Inr \<lparr>st_size = 0, st_mode = 0, st_nlink = 0, st_blocks = 0, st_dev = 0, st_rdev = 0, st_blksize = 0\<rparr>, set_fd fd (Some p) s))"
  obtain q x where st: "st = Done (q, (set_fd fd (Some p) s)\<lparr>fv := x\<rparr>)" and X: "I x" "vfs_ok (\<lambda>w. fref s w + one v w) x"
    "vfs_biglock x = None" "curthread x = curthread (fv s)" "curproc x = curproc (fv s)"
  proof (cases "fl AND O_APPEND \<noteq> 0")
    case True
    obtain q x where x: "vop_stat ops v (fv s) = Done (q, x)" "I x" "vfs_ok (\<lambda>w. fref s w + one v w) x" "vfs_biglock x = None"
      "curthread x = curthread (fv s)" "curproc x = curproc (fv s)" "vnode_check v (fv s) = Done ()" by (rule in_open_stat [OF op])
    show thesis by (rule that [of q x]) (use True x in \<open>simp_all add: st_def in_vfs_def checked_def set_fd_def\<close>)
  next
    case False
    show thesis by (rule that [of _ "fv s"]) (use False O in \<open>auto simp: st_def set_fd_def\<close>)
  qed
  define t where "t = (set_fd fd (Some p) s)\<lparr>fv := x\<rparr>"
  have t: "fileTables t = ?T" "ofiles t = ofiles s" "flocks t = flocks s" "fheap t = fheap s" "fmem t = fmem s" "fv t = x"
    by (simp_all add: t_def set_fd_def)
  have fail: "done_inv I s (open_fail ops v fd e t')"
    if "fileTables t' = ?T" "ofiles t' = (ofiles s)(p \<mapsto> f')" "flocks t' = flocks s" "kh_live (fheap t') = kh_live (fheap s)"
      "kheap_ok (fheap t')" "fmem t' = fmem s" "fv t' = x" for e t' f'
    by (rule open_fail_ok [OF op p fd, of t' f']) (use that X in \<open>simp_all add: same_who_def\<close>)
  show ?thesis
  proof (cases q)
    case (Inl e)
    have "done_inv I s (open_fail ops v fd e t)" by (rule fail [of _ f]) (use t O f in \<open>simp_all add: map_upd_triv\<close>)
    then show ?thesis using Inl st by (simp add: open_mode_def st_def [symmetric] t_def)
  next
    case (Inr filest)
    let ?acc = "fl AND O_ACCMODE"
    let ?f1 = "f\<lparr>of_offset := (if fl AND O_APPEND \<noteq> 0 then st_size filest else 0)\<rparr>"
    let ?f2 = "?f1\<lparr>of_mode := ?acc\<rparr>"
    let ?t1 = "t\<lparr>ofiles := (ofiles s)(p \<mapsto> ?f1)\<rparr>" and ?t2 = "t\<lparr>ofiles := (ofiles s)(p \<mapsto> ?f2)\<rparr>"
    define rest where "rest = obind (flock_create ?t2) (\<lambda>(l, s). obind (set_of p (\<lambda>f. f\<lparr>of_lock := l\<rparr>) s) (\<lambda>s.
      if l = None then open_fail ops v fd ENOMEM s else obind (set_of p (\<lambda>f. f\<lparr>countRef := 1\<rparr>) s) (\<lambda>s. Done (Inr fd, s))))"
    have unf: "open_mode ops v fl p fd (set_fd fd (Some p) s) =
       (if ?acc \<noteq> O_RDONLY \<and> ?acc \<noteq> O_WRONLY \<and> ?acc \<noteq> O_RDWR then open_fail ops v fd EINVAL ?t1 else rest)"
      unfolding open_mode_def st_def [symmetric] st using Inr t(2) f(1)
      by (simp add: t_def [symmetric] set_of_def Let_def rest_def fun_upd_upd)
    have "done_inv I s (open_fail ops v fd EINVAL ?t1)" by (rule fail [of _ ?f1]) (use t O in simp_all)
    moreover have "done_inv I s rest"
    proof (cases "\<exists>h. lock_create (fheap s) = Done (None, h)")
      case True
      then obtain h where h: "lock_create (fheap s) = Done (None, h)" "kheap_ok h" "kh_live h = kh_live (fheap s)"
        using lock_create_fresh [OF O(2)] by auto
      have "done_inv I s (open_fail ops v fd ENOMEM (t\<lparr>ofiles := (ofiles s)(p \<mapsto> ?f2), fheap := h, ofiles := (ofiles s)(p \<mapsto> ?f2\<lparr>of_lock := None\<rparr>)\<rparr>))"
        by (rule fail [of _ "?f2\<lparr>of_lock := None\<rparr>"]) (use t h in simp_all)
      then show ?thesis using h(1) t(4) by (simp add: rest_def flock_create_def set_of_def fun_upd_upd)
    next
      case False
      then obtain lk h where h: "lock_create (fheap s) = Done (Some lk, h)" "kheap_ok h" "set (kh_live (fheap s)) \<subseteq> set (kh_live h)"
        "lock_good h lk" "set (lk_blocks lk) \<inter> set (kh_live (fheap s)) = {}" using lock_create_fresh [OF O(2)] by blast
      let ?f4 = "?f2\<lparr>of_lock := Some (lk_self lk), countRef := 1\<rparr>"
      let ?t4 = "t\<lparr>ofiles := (ofiles s)(p \<mapsto> ?f2), fheap := h, flocks := (flocks s)(lk_self lk \<mapsto> lk), ofiles := (ofiles s)(p \<mapsto> ?f4)\<rparr>"
      have "rest = Done (Inr fd, ?t4)" using h(1) t(3,4) by (simp add: rest_def flock_create_def set_of_def fun_upd_upd)
      moreover have "tables_ok ?t4" "fref ?t4 = (\<lambda>w. fref s w + one v w)"
        by (rule tables_add_new [OF O(1) p fd(1), of "curproc (fv s)" ?f4 v lk ?t4]; use fd(2) f(2) h t in \<open>simp add: curtab_def\<close>)+
      then have "file_inv I ?t4" using h(2) X O(3) t by (simp add: file_inv_def)
      ultimately show ?thesis using X t(6) by (intro done_invI [of _ "Inr fd" ?t4]) (simp_all add: same_who_def)
    qed
    ultimately show ?thesis using unf by simp
  qed
qed

end

lemma find_SomeD: "find A xs = Some x \<Longrightarrow> x \<in> set xs \<and> A x"
  by (induction xs) (auto split: if_splits)

context file_service
begin

lemma open_slot_ok:
  assumes op: "in_open s v"
  shows "done_inv I s (open_slot ops v fl s)"
proof (cases "find_slot s")
  case None
  obtain t where "close_vnode ops (Some v) s = Done t" "file_inv I t" "same_who s t" by (rule in_open_close [OF op])
  then show ?thesis using None by (intro done_invI [of _ "Inl ENFILE" t]) (simp_all add: open_slot_def)
next
  case (Some i)
  have O: "tables_ok s" "kheap_ok (fheap s)" "I (fv s)" "vfs_ok (\<lambda>w. fref s w + one v w) (fv s)" "vfs_biglock (fv s) = None"
    using op by (auto simp: in_open_def)
  obtain f where f: "ofiles s (SysFile i) = Some f" "of_vn f = None"
    using find_SomeD [OF Some [unfolded find_slot_def]] by (auto simp: slot_free_def split: option.splits)
  have p: "SysFile i \<notin> refd s"
  proof
    assume "SysFile i \<in> refd s"
    then obtain q where "file_ok s q (SysFile i)" using tables_okD(5) [OF O(1)] by (auto simp: refd_def)
    then show False using f by (auto simp: file_ok_def)
  qed
  let ?f = "f\<lparr>of_vn := Some v, of_offset := 0\<rparr>" and ?s = "s\<lparr>ofiles := (ofiles s)(SysFile i \<mapsto> f\<lparr>of_vn := Some v, of_offset := 0\<rparr>)\<rparr>"
  have op1: "in_open ?s v" by (rule in_open_unref [OF op p]) (use O in simp_all)
  have p1: "SysFile i \<notin> refd ?s" using p by (simp add: refd_def)
  show ?thesis
  proof (cases "find_fd ?s")
    case None
    obtain t where "close_vnode ops (Some v) ?s = Done t" "file_inv I t" "same_who ?s t" by (rule in_open_close [OF op1])
    then show ?thesis using \<open>find_slot s = Some i\<close> None f
      by (intro done_invI [of _ "Inl EMFILE" t]) (simp_all add: open_slot_def set_of_def same_who_def)
  next
    case (Some fd)
    have fd: "fd < OPEN_MAX" "curtab ?s ! fd = None" using find_SomeD [OF Some [unfolded find_fd_def]] by auto
    have "done_inv I ?s (open_mode ops v fl (SysFile i) fd (set_fd fd (Some (SysFile i)) ?s))"
      by (rule open_mode_ok [OF op1 p1 fd, of ?f]) simp_all
    then show ?thesis using \<open>find_slot s = Some i\<close> Some f by (auto simp: open_slot_def set_of_def done_inv_def same_who_def)
  qed
qed

lemma sys_open_ok:
  assumes inv: "file_inv I s"
  shows "done_inv I s (sys_open ops pathname fl mode s)"
proof (cases "pathname = 0")
  case True
  then show ?thesis using done_same [OF inv] by (simp add: sys_open_def)
next
  case nz: False
  note D = file_invD [OF inv]
  from inv show ?thesis
  proof (cases rule: alloc_buffer [where len = PATH_MAX])
    case (1 t)
    then show ?thesis using nz by (intro done_invI [of _ "Inl ENOMEM" t]) (simp_all add: sys_open_def)
  next
    case (2 b t)
    obtain r c where c: "copyinstr pathname (KPtr b 0) PATH_MAX (fmem t) = Done (r, (fmem t)\<lparr>kobj := (kobj (fmem t))(b \<mapsto> c)\<rparr>)"
      by (rule copyinstr_buffer [OF 2(9) _ 2(10)]) auto
    let ?m = "(fmem t)\<lparr>kobj := (kobj (fmem t))(b \<mapsto> c)\<rparr>"
    obtain t' where t': "kfree_buf b (t\<lparr>fmem := ?m\<rparr>) = Done t'" "file_inv I t'" "fv t' = fv (t\<lparr>fmem := ?m\<rparr>)"
      "ofiles t' = ofiles s" "flocks t' = flocks s" "fileTables t' = fileTables s"
      by (rule free_buffer [OF inv, of "t\<lparr>fmem := ?m\<rparr>" b]) (use 2 D in simp_all)
    show ?thesis
    proof (cases "isl r \<or> pathname \<ge> 0x80000000")
      case True
      then have "sys_open ops pathname fl mode s = Done (Inl EFAULT, t')" using nz 2(1) c t'(1) by (auto simp: sys_open_def Let_def)
      then show ?thesis by (rule done_invI [OF _ t'(2)]) (use t'(3) 2(7) in \<open>simp add: same_who_def\<close>)
    next
      case ok: False
      obtain q x where q: "in_vfs (vfs_open ops (kstring b ?m) fl mode) (t\<lparr>fmem := ?m\<rparr>) = Done (q, (t\<lparr>fmem := ?m\<rparr>)\<lparr>fv := x\<rparr>)" "I x"
        "vfs_ok (\<lambda>w. fref s w + handed q w) x" "vfs_biglock x = None" "curthread x = curthread (fv s)" "curproc x = curproc (fv s)"
        by (rule vfs_open_frame [OF inv, of "t\<lparr>fmem := ?m\<rparr>"]) (use 2(7) in auto)
      have fr: "fref (t'\<lparr>fv := y\<rparr>) = fref s" "tables_ok (t'\<lparr>fv := y\<rparr>)" for y
        using same_tables(4) [of "t'\<lparr>fv := y\<rparr>" s] t' tables_ok_cong [OF file_invD(6) [OF t'(2)], of "t'\<lparr>fv := y\<rparr>"] by simp_all
      have kf: "kfree_buf b ((t\<lparr>fmem := ?m\<rparr>)\<lparr>fv := x\<rparr>) = Done (t'\<lparr>fv := x\<rparr>)"
        using t'(1) by (auto simp: kfree_buf_def obind_Done_iff)
      have unf: "sys_open ops pathname fl mode s = (case q of Inl e \<Rightarrow> Done (Inl e, t'\<lparr>fv := x\<rparr>) | Inr v \<Rightarrow> open_slot ops v fl (t'\<lparr>fv := x\<rparr>))"
        using nz 2(1) c ok q(1) kf by (simp add: sys_open_def)
      show ?thesis
      proof (cases q)
        case (Inl e)
        have "file_inv I (t'\<lparr>fv := x\<rparr>)" using q Inl fr file_invD [OF t'(2)] by (simp add: file_inv_def)
        then show ?thesis using unf Inl q(5,6) by (intro done_invI [of _ "Inl e" "t'\<lparr>fv := x\<rparr>"]) (simp_all add: same_who_def)
      next
        case (Inr v)
        have "in_open (t'\<lparr>fv := x\<rparr>) v" using q Inr fr file_invD [OF t'(2)] by (simp add: in_open_def)
        then have "done_inv I (t'\<lparr>fv := x\<rparr>) (open_slot ops v fl (t'\<lparr>fv := x\<rparr>))" by (rule open_slot_ok)
        then show ?thesis using unf Inr q(5,6) by (auto simp: done_inv_def same_who_def)
      qed
    qed
  qed
qed

end

end
