(* ===== verification/FileShape.thy ===== *)
theory FileShape
  imports FileSys
begin

text \<open>
  What the file system calls do to the tables, whatever the file system below does: the tables keep
  their shape, and only \<^verbatim>\<open>sys_dup2\<close> gives an entry of \<^verbatim>\<open>systemFileTable\<close> back.
\<close>

section \<open>Steps that keep the tables\<close>

definition vns :: "'x fsys \<Rightarrow> ofptr \<Rightarrow> nat option option" where
  "vns s p = map_option of_vn (ofiles s p)"

definition same_tabs :: "'x fsys \<Rightarrow> 'x fsys \<Rightarrow> bool" where
  "same_tabs s s' \<longleftrightarrow> fileTables s' = fileTables s \<and> vns s' = vns s"

named_theorems tab_frames

lemma kalloc_frame [tab_frames]:
  "kalloc len s = (r, s') \<Longrightarrow> fileTables s' = fileTables s \<and> ofiles s' = ofiles s \<and> fv s' = fv s"
  by (auto simp: kalloc_def split: option.splits prod.splits)

lemma kfree_buf_frame [tab_frames]:
  "kfree_buf b s = Done s' \<Longrightarrow> fileTables s' = fileTables s \<and> ofiles s' = ofiles s \<and> fv s' = fv s"
  by (auto simp: kfree_buf_def outcome_simps)

lemma flock_acquire_frame [tab_frames]:
  "flock_acquire l s = Done s' \<Longrightarrow> fileTables s' = fileTables s \<and> ofiles s' = ofiles s \<and> fv s' = fv s"
  by (auto simp: flock_acquire_def outcome_simps split: option.splits if_splits)

lemma flock_release_frame [tab_frames]:
  "flock_release l s = Done s' \<Longrightarrow> fileTables s' = fileTables s \<and> ofiles s' = ofiles s \<and> fv s' = fv s"
  by (auto simp: flock_release_def outcome_simps split: option.splits if_splits)

lemma flock_create_frame [tab_frames]:
  "flock_create s = Done (r, s') \<Longrightarrow> fileTables s' = fileTables s \<and> ofiles s' = ofiles s \<and> fv s' = fv s"
  by (auto simp: flock_create_def outcome_simps split: option.splits)

lemma flock_destroy_frame [tab_frames]:
  "flock_destroy l s = Done s' \<Longrightarrow> fileTables s' = fileTables s \<and> ofiles s' = ofiles s \<and> fv s' = fv s"
  by (auto simp: flock_destroy_def outcome_simps split: option.splits)

lemma close_vnode_frame [tab_frames]:
  "close_vnode ops v s = Done s' \<Longrightarrow> fileTables s' = fileTables s \<and> ofiles s' = ofiles s"
  by (auto simp: close_vnode_def outcome_simps split: option.splits)

lemma in_vfs_frame [tab_frames]:
  "in_vfs f s = Done (r, s') \<Longrightarrow> fileTables s' = fileTables s \<and> ofiles s' = ofiles s"
  by (auto simp: in_vfs_def outcome_simps)

lemma vop_io_frame [tab_frames]:
  "vop_io f v u s = Done (r, u', s') \<Longrightarrow> fileTables s' = fileTables s \<and> ofiles s' = ofiles s"
  by (auto simp: vop_io_def outcome_simps)

lemma set_of_frame:
  "set_of p g s = Done s' \<Longrightarrow> fileTables s' = fileTables s \<and> fv s' = fv s \<and> (\<exists>x. ofiles s p = Some x \<and> ofiles s' = (ofiles s)(p \<mapsto> g x))"
  by (cases "ofiles s p") (auto simp: set_of_def)

lemma set_of_vns: "set_of p g s = Done s' \<Longrightarrow> \<forall>x. of_vn (g x) = of_vn x \<Longrightarrow> same_tabs s s'"
  by (auto dest!: set_of_frame simp: same_tabs_def vns_def fun_eq_iff fun_upd_apply)

lemma same_tabsI: "fileTables s' = fileTables s \<Longrightarrow> ofiles s' = ofiles s \<Longrightarrow> same_tabs s s'"
  by (simp add: same_tabs_def vns_def fun_eq_iff)

section \<open>Invariants of the tables\<close>

text \<open>What holds of the result and the state when a call returns.\<close>

definition post :: "('r \<Rightarrow> 'x fsys \<Rightarrow> bool) \<Rightarrow> ('r \<times> 'x fsys) outcome \<Rightarrow> bool" where
  "post R m \<longleftrightarrow> (\<forall>r t. m = Done (r, t) \<longrightarrow> R r t)"

lemma post_Done: "R r t \<Longrightarrow> post R (Done (r, t))"
  by (simp add: post_def)

lemma post_Stop: "post R (Stop e)"
  by (simp add: post_def)

lemma post_if: "(b \<Longrightarrow> post R m) \<Longrightarrow> (\<not> b \<Longrightarrow> post R m') \<Longrightarrow> post R (if b then m else m')"
  by simp

lemma post_option: "(x = None \<Longrightarrow> post R m) \<Longrightarrow> (\<And>y. x = Some y \<Longrightarrow> post R (f y)) \<Longrightarrow> post R (case x of None \<Rightarrow> m | Some y \<Rightarrow> f y)"
  by (cases x) simp_all

lemma post_sum: "(\<And>e. x = Inl e \<Longrightarrow> post R (g e)) \<Longrightarrow> (\<And>y. x = Inr y \<Longrightarrow> post R (f y)) \<Longrightarrow> post R (case x of Inl e \<Rightarrow> g e | Inr y \<Rightarrow> f y)"
  by (cases x) simp_all

lemma post_pure: "(\<And>y. m = Done y \<Longrightarrow> post R (f y)) \<Longrightarrow> post R (obind m f)"
  by (cases m) (simp_all add: post_def)

lemma post_prod: "(\<And>a b. m = Done (a, b) \<Longrightarrow> post R (f a b)) \<Longrightarrow> post R (obind m (\<lambda>(a, b). f a b))"
  by (cases m) (auto simp: post_def)

lemmas post_cases = post_if post_option post_sum

text \<open>A property of the tables that closing descriptors, taking entries and entering files keep.\<close>

locale table_inv =
  fixes Q :: "'x fsys \<Rightarrow> bool"
  assumes keep: "Q t \<Longrightarrow> same_tabs t t' \<Longrightarrow> Q t'"
    and drop: "Q t \<Longrightarrow> Q (set_fd fd None t)"
    and install: "Q t \<Longrightarrow> ofiles t p \<noteq> None \<Longrightarrow> Q (set_fd fd (Some p) t)"
    and take_slot: "Q t \<Longrightarrow> ofiles t (SysFile i) = Some f \<Longrightarrow> of_vn f = None \<Longrightarrow>
      Q (t\<lparr>ofiles := (ofiles t)(SysFile i \<mapsto> f\<lparr>of_vn := Some v, of_offset := 0\<rparr>)\<rparr>)"
begin

lemma keep_mem [simp]: "Q (t\<lparr>fmem := m\<rparr>) = Q t"
  using keep [of t "t\<lparr>fmem := m\<rparr>"] keep [of "t\<lparr>fmem := m\<rparr>" t] by (auto simp: same_tabs_def vns_def fun_eq_iff)

lemma keep_fv [simp]: "Q (t\<lparr>fv := x\<rparr>) = Q t"
  using keep [of t "t\<lparr>fv := x\<rparr>"] keep [of "t\<lparr>fv := x\<rparr>" t] by (auto simp: same_tabs_def vns_def fun_eq_iff)

lemma keep_same: "Q t0 \<Longrightarrow> fileTables t = fileTables t0 \<Longrightarrow> ofiles t = ofiles t0 \<Longrightarrow> Q t"
  using keep same_tabsI by blast

lemma bind_state:
  assumes "Q t0" "\<And>t. m = Done t \<Longrightarrow> fileTables t = fileTables t0 \<and> ofiles t = ofiles t0" "\<And>t. Q t \<Longrightarrow> post R (f t)"
  shows "post R (obind m f)"
  using assms(2) by (cases m) (auto simp: post_Stop intro!: assms(3) keep_same [OF assms(1)])

lemma bind_result:
  assumes "Q t0" "\<And>r t. m = Done (r, t) \<Longrightarrow> fileTables t = fileTables t0 \<and> ofiles t = ofiles t0" "\<And>r t. Q t \<Longrightarrow> post R (f r t)"
  shows "post R (obind m (\<lambda>(r, t). f r t))"
  using assms(2) by (cases m) (auto simp: post_Stop intro!: assms(3) keep_same [OF assms(1)])

lemma post_kalloc: "Q t0 \<Longrightarrow> (\<And>r t. Q t \<Longrightarrow> post R (f r t)) \<Longrightarrow> post R (case kalloc len t0 of (r, t) \<Rightarrow> f r t)"
  using kalloc_frame [of len t0] keep [of t0] by (cases "kalloc len t0") (auto intro: same_tabsI)

lemma post_kfree: "Q t0 \<Longrightarrow> (\<And>t. Q t \<Longrightarrow> post R (f t)) \<Longrightarrow> post R (obind (kfree_buf b t0) f)"
  by (erule bind_state) (auto dest: tab_frames)

lemma post_acquire: "Q t0 \<Longrightarrow> (\<And>t. Q t \<Longrightarrow> post R (f t)) \<Longrightarrow> post R (obind (flock_acquire l t0) f)"
  by (erule bind_state) (auto dest: tab_frames)

lemma post_release: "Q t0 \<Longrightarrow> (\<And>t. Q t \<Longrightarrow> post R (f t)) \<Longrightarrow> post R (obind (flock_release l t0) f)"
  by (erule bind_state) (auto dest: tab_frames)

lemma post_destroy: "Q t0 \<Longrightarrow> (\<And>t. Q t \<Longrightarrow> post R (f t)) \<Longrightarrow> post R (obind (flock_destroy l t0) f)"
  by (erule bind_state) (auto dest: tab_frames)

lemma post_close: "Q t0 \<Longrightarrow> (\<And>t. Q t \<Longrightarrow> post R (f t)) \<Longrightarrow> post R (obind (close_vnode ops v t0) f)"
  by (erule bind_state) (auto dest: tab_frames)

lemma post_create: "Q t0 \<Longrightarrow> (\<And>r t. Q t \<Longrightarrow> post R (f r t)) \<Longrightarrow> post R (obind (flock_create t0) (\<lambda>(r, t). f r t))"
  by (erule bind_result) (auto dest: tab_frames)

lemma post_vfs: "Q t0 \<Longrightarrow> (\<And>r t. Q t \<Longrightarrow> post R (f r t)) \<Longrightarrow> post R (obind (in_vfs g t0) (\<lambda>(r, t). f r t))"
  by (erule bind_result) (auto dest: tab_frames)

lemma post_io:
  "Q t0 \<Longrightarrow> (\<And>r u t. Q t \<Longrightarrow> post R (f r u t)) \<Longrightarrow> post R (obind (vop_io g v u0 t0) (\<lambda>(r, u, t). f r u t))"
  by (cases "vop_io g v u0 t0") (auto simp: post_Stop dest!: vop_io_frame intro: keep_same)

lemma post_set_of:
  "Q t0 \<Longrightarrow> \<forall>x. of_vn (g x) = of_vn x \<Longrightarrow> (\<And>t. Q t \<Longrightarrow> post R (f t)) \<Longrightarrow> post R (obind (set_of p g t0) f)"
  using keep set_of_vns [of p g t0] by (cases "set_of p g t0") (auto simp: post_def)

lemmas post_steps = post_kfree post_acquire post_release post_destroy post_close post_create post_vfs post_io post_set_of

lemma post_write_locked:
  assumes "Q s"
  shows "post (\<lambda>r. Q) (write_locked ops p f vn b len s)"
  using assms unfolding write_locked_def by (intro post_steps post_cases post_Done post_pure) (assumption | simp)+

lemma post_read_locked:
  assumes "Q s"
  shows "post (\<lambda>r. Q) (read_locked ops p f vn b buf len s)"
  using assms unfolding read_locked_def Let_def by (intro post_steps post_cases post_Done post_prod post_pure) (assumption | simp)+

lemma post_sys_write: "Q s \<Longrightarrow> post (\<lambda>r. Q) (sys_write ops fd buf len s)"
  unfolding sys_write_def Let_def
  by (intro post_kalloc post_steps post_cases post_Done post_prod post_pure post_write_locked) (assumption | simp)+

lemma post_sys_read: "Q s \<Longrightarrow> post (\<lambda>r. Q) (sys_read ops fd buf len s)"
  unfolding sys_read_def Let_def
  by (intro post_kalloc post_steps post_cases post_Done post_prod post_pure post_read_locked) (assumption | simp)+

lemma post_lseek_target: "Q s \<Longrightarrow> post (\<lambda>r. Q) (lseek_target ops vn f pos whence s)"
  unfolding lseek_target_def by (intro post_steps post_cases post_Done) (assumption | simp)+

lemma post_then: "post (\<lambda>r. Q) m \<Longrightarrow> (\<And>r t. Q t \<Longrightarrow> post R (f r t)) \<Longrightarrow> post R (obind m (\<lambda>(r, t). f r t))"
  by (cases m) (auto simp: post_def)

lemma post_sys_lseek: "Q s \<Longrightarrow> post (\<lambda>r. Q) (sys_lseek ops fd pos whence s)"
  unfolding sys_lseek_def Let_def
  by (intro post_then [OF post_lseek_target] post_steps post_cases post_Done post_Stop post_pure) (assumption | simp)+

lemma post_sys_chdir: "Q s \<Longrightarrow> post (\<lambda>r. Q) (sys_chdir ops pathname s)"
  unfolding sys_chdir_def Let_def by (intro post_kalloc post_steps post_cases post_Done post_prod) (assumption | simp)+

lemma post_sys_getcwd: "Q s \<Longrightarrow> post (\<lambda>r. Q) (sys_getcwd ops as nm colon buf len s)"
  by (auto simp: sys_getcwd_def Let_def post_def outcome_simps)

lemma post_sys_close: "Q s \<Longrightarrow> post (\<lambda>r. Q) (sys_close ops fd s)"
  unfolding sys_close_def Let_def
  by (intro post_steps post_cases post_Done post_pure) (assumption | simp add: drop)+

lemma post_open_fail: "Q s \<Longrightarrow> post (\<lambda>r. Q) (open_fail ops v fd e s)"
  unfolding open_fail_def by (intro post_steps post_Done) (assumption | simp add: drop)+

lemma post_in_vfs: "Q s \<Longrightarrow> post (\<lambda>r. Q) (in_vfs f s)"
  using in_vfs_frame keep_same by (fastforce simp: post_def)

lemma post_flock_create: "Q s \<Longrightarrow> post (\<lambda>r. Q) (flock_create s)"
  using flock_create_frame keep_same by (fastforce simp: post_def)

lemma post_open_mode: "Q s \<Longrightarrow> post (\<lambda>r. Q) (open_mode ops v fl p fd s)"
  unfolding open_mode_def Let_def
  by (intro post_then post_steps post_cases post_Done post_open_fail post_in_vfs post_flock_create) (assumption | simp)+

text \<open>The entry that is taken.\<close>

lemma find_slot_free: "find_slot s = Some i \<Longrightarrow> \<exists>f. ofiles s (SysFile i) = Some f \<and> of_vn f = None"
  by (auto simp: find_slot_def find_Some_iff slot_free_def split: option.splits)

lemma post_take_slot:
  assumes "find_slot s = Some i" "Q s" "\<And>t. Q t \<Longrightarrow> ofiles t (SysFile i) \<noteq> None \<Longrightarrow> post R (g t)"
  shows "post R (obind (set_of (SysFile i) (\<lambda>f. f\<lparr>of_vn := Some v, of_offset := 0\<rparr>) s) g)"
  using find_slot_free [OF assms(1)] take_slot [OF assms(2)] assms(3) by (auto simp: set_of_def fun_upd_apply)

lemma post_open_slot: "Q s \<Longrightarrow> post (\<lambda>r. Q) (open_slot ops v fl s)"
  unfolding open_slot_def
  by (intro post_cases post_take_slot post_close post_Done post_open_mode install) assumption+

lemma post_sys_open: "Q s \<Longrightarrow> post (\<lambda>r. Q) (sys_open ops pathname fl mode s)"
  unfolding sys_open_def Let_def
  by (intro post_kalloc post_steps post_cases post_Done post_prod post_open_slot) (assumption | simp)+

end

text \<open>A property that giving an entry back keeps, too.\<close>

locale table_shape = table_inv +
  assumes give_slot: "Q t \<Longrightarrow> ofiles t p = Some f \<Longrightarrow> Q (t\<lparr>ofiles := (ofiles t)(p \<mapsto> f\<lparr>of_vn := None\<rparr>)\<rparr>)"
begin

lemma post_give_slot:
  "Q s \<Longrightarrow> (\<And>t. Q t \<Longrightarrow> post R (g t)) \<Longrightarrow> post R (obind (set_of p (\<lambda>f. f\<lparr>of_vn := None\<rparr>) s) g)"
  using give_slot by (cases "ofiles s p") (auto simp: set_of_def post_Stop)

lemma post_last_close:
  assumes "Q t" "\<And>t. Q t \<Longrightarrow> post R (h t)"
  shows "post R (obind (if b then obind (set_of p (\<lambda>f. f\<lparr>of_vn := None\<rparr>) t) (\<lambda>s. close_vnode ops v s) else Done t) h)"
  using assms by (cases b) (simp_all add: obind_assoc post_give_slot post_close)

lemma post_dup2_close:
  assumes "Q s" "\<And>t. Q t \<Longrightarrow> post R (g t)"
  shows "post R (obind (dup2_close ops n s) g)"
proof (cases "n < length (curtab s)")
  case True
  show ?thesis
  proof (cases "curtab s ! n")
    case None
    then show ?thesis using True assms by (simp add: dup2_close_def)
  next
    case (Some p)
    then have "obind (dup2_close ops n s) g = obind (deref (ofiles s p)) (\<lambda>f.
      obind (flock_acquire (of_lock f) s) (\<lambda>s. obind (set_of p (\<lambda>f. f\<lparr>countRef := countRef f - 1\<rparr>) (set_fd n None s)) (\<lambda>s.
      obind (if countRef f - 1 = 0 then obind (set_of p (\<lambda>f. f\<lparr>of_vn := None\<rparr>) s) (\<lambda>s. close_vnode ops (of_vn f) s) else Done s) (\<lambda>s.
      obind (flock_release (of_lock f) s) g))))" using True by (simp add: dup2_close_def obind_assoc Let_def)
    then show ?thesis using assms(1)
      by (simp only:) (intro post_acquire post_set_of post_last_close post_release assms(2) post_pure drop; (assumption | simp)?)
  qed
qed (simp add: dup2_close_def post_Stop)

lemma ofiles_set_fd [simp]: "ofiles (set_fd fd e s) = ofiles s"
  by (simp add: set_fd_def)

lemma with_entry: "table_inv (\<lambda>t. Q t \<and> ofiles t p \<noteq> None)"
proof
  fix t t' :: "'a fsys"
  assume h: "Q t \<and> ofiles t p \<noteq> None" "same_tabs t t'"
  have "vns t' p = vns t p" using h(2) by (simp add: same_tabs_def)
  then show "Q t' \<and> ofiles t' p \<noteq> None" using h keep [of t t'] by (auto simp: vns_def)
qed (auto simp: drop install take_slot fun_upd_apply)

lemma post_share:
  assumes "Q s" "ofiles s p = Some f"
  shows "post (\<lambda>r. Q) (obind (flock_acquire l s) (\<lambda>s. obind (set_of p (\<lambda>f. f\<lparr>countRef := countRef f + 1\<rparr>) s) (\<lambda>s.
    obind (flock_release l s) (\<lambda>s. Done (r, set_fd n (Some p) s)))))"
proof -
  note W = table_inv.post_acquire [OF with_entry [of p]] table_inv.post_set_of [OF with_entry [of p]]
    table_inv.post_release [OF with_entry [of p]]
  show ?thesis using assms by (intro W post_Done install) (assumption | simp)+
qed

lemma post_sys_dup2: "Q s \<Longrightarrow> post (\<lambda>r. Q) (sys_dup2 ops old_fd new_fd s)"
  unfolding sys_dup2_def
  by (intro post_cases post_dup2_close post_share post_Done post_pure) (assumption | simp add: deref_def split: option.splits)+

end

section \<open>The shape of the tables\<close>

text \<open>Every process has \<^verbatim>\<open>OPEN_MAX\<close> descriptors, and one in use points to an entry that exists.\<close>

definition shape :: "'x fsys \<Rightarrow> bool" where
  "shape s \<longleftrightarrow> (\<forall>q. length (fileTables s q) = OPEN_MAX) \<and>
     (\<forall>q p. Some p \<in> set (fileTables s q) \<longrightarrow> ofiles s p \<noteq> None)"

interpretation shape: table_shape shape
proof
  fix t t' :: "'a fsys"
  assume h: "shape t" "same_tabs t t'"
  have "ofiles t' p = None \<longleftrightarrow> ofiles t p = None" for p
    using h(2) by (metis map_option_is_None same_tabs_def vns_def)
  then show "shape t'" using h by (simp add: shape_def same_tabs_def)
qed (auto simp: shape_def set_fd_def curtab_def fun_upd_apply dest!: set_update_subset_insert [THEN subsetD] split: if_splits)

section \<open>Sequences of calls\<close>

datatype fcall =
    FOpen u32 u32 u32
  | FClose int
  | FDup2 int int
  | FLseek int u64 int
  | FChdir u32
  | FWrite int u32 u32
  | FRead int u32 u32
  | FGetcwd "nat option" nat nat u32 u32

definition forget :: "('r \<times> 'x fsys) outcome \<Rightarrow> 'x fsys outcome" where
  "forget m = obind m (\<lambda>(r, s). Done s)"

fun do_fcall :: "'x vnode_ops \<Rightarrow> fcall \<Rightarrow> 'x fsys \<Rightarrow> 'x fsys outcome" where
  "do_fcall ops (FOpen pathname flags mode) s = forget (sys_open ops pathname flags mode s)"
| "do_fcall ops (FClose fd) s = forget (sys_close ops fd s)"
| "do_fcall ops (FDup2 old new) s = forget (sys_dup2 ops old new s)"
| "do_fcall ops (FLseek fd pos whence) s = forget (sys_lseek ops fd pos whence s)"
| "do_fcall ops (FChdir pathname) s = forget (sys_chdir ops pathname s)"
| "do_fcall ops (FWrite fd buf len) s = forget (sys_write ops fd buf len s)"
| "do_fcall ops (FRead fd buf len) s = forget (sys_read ops fd buf len s)"
| "do_fcall ops (FGetcwd as nm colon buf len) s = forget (sys_getcwd ops as nm colon buf len s)"

text \<open>Thread \<open>t\<close> of process \<open>p\<close> is running, with its address space.\<close>

definition run_as :: "nat \<Rightarrow> nat \<Rightarrow> (u32 \<rightharpoonup> u8) \<Rightarrow> 'x fsys \<Rightarrow> 'x fsys" where
  "run_as p t space s = s\<lparr>fv := (fv s)\<lparr>curproc := p, curthread := t\<rparr>, fmem := (fmem s)\<lparr>vmem := space\<rparr>\<rparr>"

fun frun :: "'x vnode_ops \<Rightarrow> (nat \<times> nat \<times> (u32 \<rightharpoonup> u8) \<times> fcall) list \<Rightarrow> 'x fsys \<Rightarrow> 'x fsys outcome" where
  "frun ops [] s = Done s"
| "frun ops ((p, t, space, c) # cs) s = obind (do_fcall ops c (run_as p t space s)) (frun ops cs)"

lemma forget_post: "post (\<lambda>r. Q) m \<Longrightarrow> forget m = Done s' \<Longrightarrow> Q s'"
  by (cases m) (auto simp: forget_def post_def)

lemma do_fcall_shape: "shape s \<Longrightarrow> do_fcall ops c s = Done s' \<Longrightarrow> shape s'"
  by (cases c) (auto elim!: forget_post [rotated] intro: shape.post_sys_open shape.post_sys_close shape.post_sys_dup2
      shape.post_sys_lseek shape.post_sys_chdir shape.post_sys_write shape.post_sys_read shape.post_sys_getcwd)

lemma run_as_tabs: "same_tabs s (run_as p t space s)"
  by (simp add: run_as_def same_tabs_def vns_def fun_eq_iff)

section \<open>Entries of the system table are not given back\<close>

definition free_slots :: "'x fsys \<Rightarrow> nat" where
  "free_slots s = card {i. i < SYSTEM_OPEN_MAX \<and> slot_free s i}"

lemma free_slots_bound: "free_slots s \<le> SYSTEM_OPEN_MAX"
proof -
  have "card {i. i < SYSTEM_OPEN_MAX \<and> slot_free s i} \<le> card {..<SYSTEM_OPEN_MAX}" by (rule card_mono) auto
  then show ?thesis by (simp add: free_slots_def)
qed

lemma slot_free_vns: "slot_free s i \<longleftrightarrow> vns s (SysFile i) = Some None"
  by (auto simp: slot_free_def vns_def split: option.splits)

lemma free_slots_vns: "vns s' = vns s \<Longrightarrow> free_slots s' = free_slots s"
  by (simp add: free_slots_def slot_free_vns)

lemma free_slots_take:
  assumes "find_slot t = Some i" "ofiles t (SysFile i) = Some f"
  shows "free_slots (t\<lparr>ofiles := (ofiles t)(SysFile i \<mapsto> f\<lparr>of_vn := Some v, of_offset := 0\<rparr>)\<rparr>) < free_slots t"
proof -
  have i: "i < SYSTEM_OPEN_MAX" "slot_free t i" using assms(1) by (auto simp: find_slot_def find_Some_iff)
  have "{j. j < SYSTEM_OPEN_MAX \<and> slot_free (t\<lparr>ofiles := (ofiles t)(SysFile i \<mapsto> f\<lparr>of_vn := Some v, of_offset := 0\<rparr>)\<rparr>) j}
      \<subset> {j. j < SYSTEM_OPEN_MAX \<and> slot_free t j}" using i by (auto simp: slot_free_def fun_upd_apply)
  then show ?thesis unfolding free_slots_def by (intro psubset_card_mono) simp_all
qed

interpretation slots: table_inv "\<lambda>t. free_slots t \<le> n" for n
proof
  fix t t' :: "'a fsys"
  assume "free_slots t \<le> n" "same_tabs t t'"
  then show "free_slots t' \<le> n" using free_slots_vns [of t' t] by (simp add: same_tabs_def)
next
  fix t :: "'a fsys" and i f v
  assume h: "free_slots t \<le> n" "ofiles t (SysFile i) = Some f"
  let ?t = "t\<lparr>ofiles := (ofiles t)(SysFile i \<mapsto> f\<lparr>of_vn := Some v, of_offset := 0\<rparr>)\<rparr>"
  have "{j. j < SYSTEM_OPEN_MAX \<and> slot_free ?t j} \<subseteq> {j. j < SYSTEM_OPEN_MAX \<and> slot_free t j}"
    by (auto simp: slot_free_def fun_upd_apply split: if_splits)
  then have "free_slots ?t \<le> free_slots t" unfolding free_slots_def by (intro card_mono) simp_all
  then show "free_slots ?t \<le> n" using h by simp
qed (simp_all add: free_slots_def slot_free_def set_fd_def)

definition spent :: "nat \<Rightarrow> (errno + nat) \<Rightarrow> 'x fsys \<Rightarrow> bool" where
  "spent n r t \<longleftrightarrow> free_slots t \<le> n \<and> (\<not> isl r \<longrightarrow> free_slots t < n)"

lemma open_slot_spends: "free_slots s \<le> n \<Longrightarrow> post (spent n) (open_slot ops v fl s)"
proof (cases "find_slot s")
  case None
  assume "free_slots s \<le> n"
  then show ?thesis using None unfolding open_slot_def
    by simp (intro slots.post_close post_Done, assumption, simp add: spent_def)
next
  case (Some i)
  assume n: "free_slots s \<le> n"
  obtain f where f: "ofiles s (SysFile i) = Some f" using slots.find_slot_free [OF Some] by blast
  let ?t = "s\<lparr>ofiles := (ofiles s)(SysFile i \<mapsto> f\<lparr>of_vn := Some v, of_offset := 0\<rparr>)\<rparr>"
  have less: "free_slots ?t < n" by (rule less_le_trans [OF free_slots_take [OF Some f] n])
  have sp: "post (spent n) m" if "post (\<lambda>r t. free_slots t \<le> n - 1) m" for m :: "((errno + nat) \<times> 'a fsys) outcome"
    using that less by (fastforce simp: post_def spent_def)
  have le: "free_slots ?t \<le> n - 1" using less by simp
  show ?thesis
  proof (cases "find_fd ?t")
    case None
    have "post (\<lambda>r t. free_slots t \<le> n - 1) (obind (close_vnode ops (Some v) ?t) (\<lambda>s. Done (Inl EMFILE, s)))"
      using le by (intro slots.post_close post_Done)
    then show ?thesis using None sp Some f by (simp add: open_slot_def set_of_def)
  next
    case (Some fd)
    have "free_slots (set_fd fd (Some (SysFile i)) ?t) \<le> n - 1" using slots.install [OF le] by simp
    then show ?thesis using sp [OF slots.post_open_mode] Some \<open>find_slot s = Some i\<close> f by (simp add: open_slot_def set_of_def)
  qed
qed

lemma sys_open_spends: "free_slots s \<le> n \<Longrightarrow> post (spent n) (sys_open ops pathname fl mode s)"
  unfolding sys_open_def Let_def
  by (intro slots.post_kalloc slots.post_steps post_cases post_Done post_prod open_slot_spends)
    (assumption | simp add: spent_def)+

text \<open>Opening files and closing each at once.\<close>

fun open_close_all ::
  "'x vnode_ops \<Rightarrow> (nat \<times> nat \<times> (u32 \<rightharpoonup> u8) \<times> u32 \<times> u32 \<times> u32) list \<Rightarrow> 'x fsys \<Rightarrow> (nat \<times> 'x fsys) outcome" where
  "open_close_all ops [] s = Done (0, s)"
| "open_close_all ops ((p, t, space, pathname, fl, mode) # cs) s =
     obind (sys_open ops pathname fl mode (run_as p t space s)) (\<lambda>(r, s).
     case r of Inl e \<Rightarrow> open_close_all ops cs s | Inr fd \<Rightarrow>
     obind (sys_close ops (int fd) s) (\<lambda>(_, s).
     obind (open_close_all ops cs s) (\<lambda>(n, s). Done (Suc n, s))))"

lemma open_close_all_spends: "free_slots s \<le> n \<Longrightarrow> post (\<lambda>k t. k + free_slots t \<le> n) (open_close_all ops cs s)"
proof (induction cs arbitrary: s n)
  case (Cons x cs)
  obtain p t space pathname fl mode where x: "x = (p, t, space, pathname, fl, mode)" by (cases x)
  have go: "post (\<lambda>k t. k + free_slots t \<le> n) (case r of Inl e \<Rightarrow> open_close_all ops cs s1 | Inr fd \<Rightarrow>
      obind (sys_close ops (int fd) s1) (\<lambda>(_, s). obind (open_close_all ops cs s) (\<lambda>(n, s). Done (Suc n, s))))"
    if "spent n r s1" for r s1
  proof (cases r)
    case (Inl e)
    then show ?thesis using that Cons.IH by (simp add: spent_def)
  next
    case (Inr fd)
    then have "free_slots s1 \<le> n - 1" "0 < n" using that by (auto simp: spent_def)
    then have "post (\<lambda>r t. free_slots t \<le> n - 1) (sys_close ops (int fd) s1)" "0 < n" by (simp_all add: slots.post_sys_close)
    then show ?thesis using Cons.IH [of _ "n - 1"] Inr
      by (fastforce simp: post_def outcome_simps split: prod.splits)
  qed
  have "free_slots (run_as p t space s) \<le> n" by (rule slots.keep [OF Cons.prems run_as_tabs])
  then have o: "post (spent n) (sys_open ops pathname fl mode (run_as p t space s))" by (rule sys_open_spends)
  show ?case
  proof (cases "sys_open ops pathname fl mode (run_as p t space s)")
    case (Done y)
    then show ?thesis using o go x by (cases y) (simp add: post_def)
  qed (simp add: x post_Stop)
qed (simp add: post_Done)

end
