(* ===== verification/FileRun.thy ===== *)
theory FileRun
  imports FileCalls FileShape
begin

text \<open>
  Sequences of file system calls by any threads of any processes, over character devices; the
  calls that break the file table.
\<close>

section \<open>Sequences of calls\<close>

text \<open>The descriptor 128 is outside the table, but \<^verbatim>\<open>sys_write\<close> lets it pass; \<^verbatim>\<open>sys_read\<close> at the end of
  a file leaves the lock of the file taken.\<close>

fun fcall_ok :: "fcall \<Rightarrow> bool" where
  "fcall_ok (FWrite fd buf len) \<longleftrightarrow> fd \<noteq> int OPEN_MAX"
| "fcall_ok (FRead fd buf len) \<longleftrightarrow> False"
| "fcall_ok (FGetcwd as nm colon buf len) \<longleftrightarrow> False"
| "fcall_ok c \<longleftrightarrow> True"

context file_service
begin

lemma run_as_ok:
  assumes inv: "file_inv I s"
  shows "file_inv I (run_as p t space s)"
proof -
  note D = file_invD [OF inv]
  let ?x = "(fv s)\<lparr>curproc := p, curthread := t\<rparr>"
  have same: "fs_same (fv s) ?x" by (simp add: fs_same_def ref_def)
  have "lock_ok (fv s)" by (rule vfs_okD(2) [OF D(2)])
  then have "vfs_ok (fref s) ?x" using D(2,3) by (simp add: vfs_ok_def vnodes_ok_def held_def ref_def lock_ok_def)
  then show ?thesis using D I_same [OF D(1) same] unfolding run_as_def by (intro file_inv_frame [OF inv]) simp_all
qed

lemma forget_ok: "done_inv I s m \<Longrightarrow> \<exists>s'. forget m = Done s' \<and> file_inv I s'"
  by (auto simp: done_inv_def forget_def)

lemma do_fcall_ok:
  assumes inv: "file_inv I s" and ok: "fcall_ok c"
  shows "\<exists>s'. do_fcall ops c s = Done s' \<and> file_inv I s'"
proof (cases c)
  case (FOpen pathname flags mode)
  then show ?thesis using forget_ok [OF sys_open_ok [OF inv]] by simp
next
  case (FClose fd)
  then show ?thesis using forget_ok [OF sys_close_ok [OF inv]] by simp
next
  case (FDup2 old new)
  then show ?thesis using forget_ok [OF sys_dup2_ok [OF inv]] by simp
next
  case (FLseek fd pos whence)
  then show ?thesis using forget_ok [OF sys_lseek_ok [OF inv]] by simp
next
  case (FChdir pathname)
  then show ?thesis using forget_ok [OF sys_chdir_ok [OF inv]] by simp
next
  case (FWrite fd buf len)
  then show ?thesis using forget_ok [OF sys_write_ok [OF inv]] ok by simp
qed (use ok in simp_all)

lemma frun_ok:
  assumes "file_inv I s" "list_all (\<lambda>(p, t, space, c). fcall_ok c) cs"
  shows "\<exists>s'. frun ops cs s = Done s' \<and> file_inv I s'"
  using assms
proof (induction cs arbitrary: s)
  case (Cons x cs)
  obtain p t space c where x: "x = (p, t, space, c)" by (cases x)
  obtain s' where "do_fcall ops c (run_as p t space s) = Done s'" "file_inv I s'"
    using do_fcall_ok [OF run_as_ok [OF Cons.prems(1)], of c p t space] Cons.prems(2) x by auto
  then show ?case using Cons.IH Cons.prems(2) x by simp
qed simp

end

context file_service
begin

lemma open_close_all_ok:
  assumes "file_inv I s"
  shows "\<exists>n s'. open_close_all ops cs s = Done (n, s') \<and> file_inv I s'"
  using assms
proof (induction cs arbitrary: s)
  case (Cons x cs)
  obtain p t space pathname fl mode where x: "x = (p, t, space, pathname, fl, mode)" by (cases x)
  obtain r s1 where o: "sys_open ops pathname fl mode (run_as p t space s) = Done (r, s1)" "file_inv I s1"
    using sys_open_ok [OF run_as_ok [OF Cons.prems]] unfolding done_inv_def by blast
  show ?case
  proof (cases r)
    case (Inl e)
    then show ?thesis using o Cons.IH x by simp
  next
    case (Inr fd)
    obtain r' s2 where c: "sys_close ops (int fd) s1 = Done (r', s2)" "file_inv I s2"
      using sys_close_ok [OF o(2)] unfolding done_inv_def by blast
    obtain n s3 where "open_close_all ops cs s2 = Done (n, s3)" "file_inv I s3" using Cons.IH [OF c(2)] by blast
    then show ?thesis using o(1) c(1) Inr x by simp
  qed
qed simp

end

section \<open>Character devices\<close>

text \<open>What the file calls rely on of a driver: moving data to and from a kernel buffer returns without
  an error and leaves the vnodes and other memory alone.\<close>

definition is_chr :: "device \<Rightarrow> bool" where
  "is_chr dv \<longleftrightarrow> d_blocks dv = 0"

locale char_driver = device_driver dops F is_chr for dops :: "'d device_ops" and F +
  assumes io_law: "vnodes_ok s \<Longrightarrow> dev_inv is_chr s \<Longrightarrow> dev_tab (fsx s) d = Some dv \<Longrightarrow> kobj m b = Some xs \<Longrightarrow>
    length xs = unat len \<Longrightarrow>
    \<exists>u m' s'. devop_io dops d (uio_kinit (KPtr b 0) len off rw) m s = Done (None, u, m', s') \<and>
      dev_inv is_chr s' \<and> fs_step s s' none \<and> uio_resid u \<le> len \<and> buf_frame m m'"

lemma chr_seek: "dev_inv is_chr s \<Longrightarrow> dev_tab (fsx s) d = Some dv \<Longrightarrow> dev_tryseek dv off = Done None"
  by (simp add: dev_inv_def dev_tryseek_def is_chr_def)

sublocale char_driver \<subseteq> file_service "dev_vnode_ops dops F" "dev_inv is_chr"
proof
  fix s :: "'d devs vfs" and v
  assume ok: "vnodes_ok s" "dev_inv is_chr s" "ref s v > 0"
  obtain d dv where d: "dev_of v s = Done (d, dv)" "dev_tab (fsx s) d = Some dv" using dev_of_ok [OF ok(2,3)] by blast
  show "returns (dev_inv is_chr) no_refs s (vop_stat (dev_vnode_ops dops F) v s)"
    using d ok vnode_check_ok [OF ok(1,3)] by (simp add: dev_vnode_ops_def dev_stat_def dev_gettype_def returns_same)
  fix m :: memory and b xs len off
  assume b: "kobj m b = Some xs" "length xs = unat (len :: u32)"
  have io: "\<exists>u m' s'. dev_io dops rw v (uio_kinit (KPtr b 0) len off rw) m s = Done (None, u, m', s') \<and>
      dev_inv is_chr s' \<and> fs_step s s' none \<and> uio_resid u \<le> len \<and> buf_frame m m'" for rw
    using io_law [OF ok(1,2) d(2) b] d chr_seek [OF ok(2) d(2)] by (simp add: dev_io_def uio_kinit_def kassert_def)
  show "\<exists>u m' s'. vop_read (dev_vnode_ops dops F) v (uio_kinit (KPtr b 0) len off UIO_READ) m s = Done (None, u, m', s') \<and>
      dev_inv is_chr s' \<and> fs_step s s' none \<and> uio_resid u \<le> len \<and> buf_frame m m'"
    and "\<exists>u m' s'. vop_write (dev_vnode_ops dops F) v (uio_kinit (KPtr b 0) len off UIO_WRITE) m s = Done (None, u, m', s') \<and>
      dev_inv is_chr s' \<and> fs_step s s' none \<and> uio_resid u \<le> len \<and> buf_frame m m'"
    using io by (simp_all add: dev_vnode_ops_def dev_read_def dev_write_def)
qed

interpretation null_files: char_driver null_devops F for F
  by unfold_locales (auto simp: null_devops_def nullio_def uio_kinit_def fs_step_refl buf_frame_def)

section \<open>Properties of the file system calls\<close>

text \<open>Two processes with empty tables and the null device; user memory is a page of bytes at
  \<open>0x1000\<close>, with the path of the device in front.\<close>

definition demo_space :: "u32 \<rightharpoonup> u8" where
  "demo_space a = (if a < 0x1000 \<or> 0x2000 \<le> a then None
     else Some ((map (\<lambda>c. of_nat (of_char c)) ''null:'' @ [0, 65, 66, 67]) ! (unat (a - 0x1000) mod 9)))"

definition demo_files :: "unit devs fsys" where
  "demo_files = \<lparr>fv = demo_devs, fmem = \<lparr>kobj = Map.empty, vmem = demo_space, tm_badfaultfunc = False\<rparr>,
     fheap = \<lparr>kh_next = 0, kh_live = [], kh_avail = (\<lambda>n. True)\<rparr>,
     ofiles = (\<lambda>p. case p of HeapFile b \<Rightarrow> None | SysFile i \<Rightarrow>
       if i < SYSTEM_OPEN_MAX then Some \<lparr>of_vn = None, of_offset = 0, of_mode = 0, countRef = 0, of_lock = None\<rparr> else None),
     fileTables = (\<lambda>q. replicate OPEN_MAX None), flocks = Map.empty\<rparr>"

lemma demo_is_chr: "is_chr = (\<lambda>dv. d_blocks dv = 0)"
  by (simp add: is_chr_def fun_eq_iff)

lemma demo_files_inv: "file_inv (dev_inv is_chr) demo_files"
proof -
  have r: "refd demo_files = {}" by (simp add: refd_def demo_files_def)
  then have f: "fref demo_files = none" by (simp add: fref_def files_on_def none_def fun_eq_iff)
  have "tables_ok demo_files" using r by (auto simp: tables_ok_def refd_def demo_files_def)
  then show ?thesis using demo_devs_ok by (simp add: file_inv_def f demo_is_chr)
     (simp add: demo_files_def demo_devs_def kheap_ok_def)
qed


lemma null_file_service: "file_service (dev_vnode_ops null_devops F) (dev_inv is_chr)"
  by (rule null_files.file_service_axioms)

definition demo_calls :: "(nat \<times> nat \<times> (u32 \<rightharpoonup> u8) \<times> fcall) list" where
  "demo_calls = [(0, 1, demo_space, FOpen 0x1000 O_RDWR 0), (0, 1, demo_space, FDup2 3 7),
     (1, 2, demo_space, FOpen 0x1000 O_WRONLY 0), (0, 1, demo_space, FWrite 7 0x1000 20),
     (0, 1, demo_space, FClose 3), (1, 2, demo_space, FClose 3), (0, 4, demo_space, FClose 7), (0, 1, demo_space, FClose 7)]"




text \<open>C17: \<^verbatim>\<open>sys_close\<close> does not give back the entry of \<^verbatim>\<open>systemFileTable\<close>: in a sequence of opens, each
  closed at once, at most as many succeed as entries were unused at the start, never more than
  1280 in the life of the system.\<close>

theorem open_close_budget:
  assumes "file_service ops I" "file_inv I s"
  shows "\<exists>n s'. open_close_all ops cs s = Done (n, s') \<and> n + free_slots s' \<le> free_slots s \<and> free_slots s \<le> 1280"
  using file_service.open_close_all_ok [OF assms, of cs] open_close_all_spends [of s "free_slots s" ops cs] free_slots_bound [of s]
  by (auto simp: post_def SYSTEM_OPEN_MAX_def OPEN_MAX_def)

theorem open_close_budget_witness:
  "\<exists>n s'. open_close_all (dev_vnode_ops null_devops demo_fs) (replicate 2000 (0, 1, demo_space, 0x1000, O_RDWR, 0)) demo_files
     = Done (n, s') \<and> n \<le> 1280"
  using open_close_budget [OF null_file_service demo_files_inv] by fastforce

end
