(* ===== verification/FileData.thy ===== *)
theory FileData
  imports FileRun
begin

text \<open>
  Reading and writing through descriptors: the bytes that move, the position of the file, and what
  happens at the end of a file.
\<close>

section \<open>User buffers and descriptors\<close>

definition user_buffer :: "'x fsys \<Rightarrow> u32 \<Rightarrow> u32 \<Rightarrow> bool" where
  "user_buffer s buf len \<longleftrightarrow> user_range buf len \<and> length (user_prefix (vmem (fmem s)) buf (unat len)) = unat len"

definition descriptor :: "'x fsys \<Rightarrow> int \<Rightarrow> ofptr \<Rightarrow> openfile \<Rightarrow> bool" where
  "descriptor s fd p f \<longleftrightarrow> 0 \<le> fd \<and> fd < int OPEN_MAX \<and> curtab s ! nat fd = Some p \<and> ofiles s p = Some f"

definition can_alloc :: "'x fsys \<Rightarrow> bool" where
  "can_alloc s \<longleftrightarrow> fst (kmalloc (fheap s)) \<noteq> None"

lemma copyout_buffer:
  assumes "user_range buf len" "length (user_prefix (vmem m) buf (unat len)) = unat len" "\<not> tm_badfaultfunc m"
    "kobj m b = Some c" "length c = unat len" "n \<le> len"
  shows "copyout (KPtr b 0) buf n m =
    (if n = 0 then Done (Some EFAULT, m) else Done (None, m\<lparr>vmem := write_user (vmem m) buf (take (unat n) c)\<rparr>))"
proof -
  have n: "unat n \<le> unat len" using assms(6) by (simp add: word_le_nat_alt)
  have r: "user_range buf n \<longleftrightarrow> n \<noteq> 0" using assms(1) n by (auto simp: user_range_def unat_gt_0)
  have "take (unat n) (user_prefix (vmem m) buf (unat len)) = user_prefix (vmem m) buf (unat n)"
    using n by (simp add: user_prefix_take min_absorb1)
  from arg_cong [OF this, of length] have "length (user_prefix (vmem m) buf (unat n)) = unat n" using assms(2) n by simp
  then show ?thesis using copyout_spec [OF assms(4) _ assms(3), of 0 n buf] r n assms(5) by simp
qed

lemma descriptor_opened:
  assumes "tables_ok s" "descriptor s fd p f"
  obtains v lk where "opened s p f v lk" "nth_or_fault (curtab s) (nat fd) = Done (Some p)"
proof -
  have d: "0 \<le> fd" "fd < int OPEN_MAX" "curtab s ! nat fd = Some p" "ofiles s p = Some f"
    using assms(2) by (simp_all add: descriptor_def)
  obtain f' v lk where o: "opened s p f' v lk" using fd_opened [OF assms(1) d(1-3)] by metis
  have eq: "f' = f" using o d(4) by (simp add: opened_def)
  show thesis by (rule that [of v lk]) (use o eq fd_nth [OF assms(1) d(1,2)] d(3) in simp_all)
qed

text \<open>The buffer filled from user memory.\<close>

lemma filled_buffer:
  assumes inv: "file_inv I s" and u: "user_buffer s buf len" and a: "can_alloc s"
  obtains b t c where "kalloc len s = (Some b, t)" "c = user_prefix (vmem (fmem s)) buf (unat len)" "length c = unat len"
    "copyin buf (KPtr b 0) len (fmem t) = Done (None, (fmem t)\<lparr>kobj := (kobj (fmem t))(b \<mapsto> c)\<rparr>)"
    "kh_live (fheap t) = b # kh_live (fheap s)" "kheap_ok (fheap t)" "fileTables t = fileTables s" "ofiles t = ofiles s"
    "flocks t = flocks s" "fv t = fv s" "vmem (fmem t) = vmem (fmem s)" "\<not> tm_badfaultfunc (fmem t)"
  using inv
proof (cases rule: alloc_buffer [where len = len])
  case (1 t)
  obtain n h where "kmalloc (fheap s) = (Some n, h)" using a by (cases "kmalloc (fheap s)") (auto simp: can_alloc_def)
  then show ?thesis using 1(1) by (simp add: kalloc_def)
next
  case (2 b t)
  let ?c = "user_prefix (vmem (fmem s)) buf (unat len)"
  have "copyin buf (KPtr b 0) len (fmem t) = Done (None, (fmem t)\<lparr>kobj := (kobj (fmem t))(b \<mapsto> ?c)\<rparr>)"
    using copyin_spec [OF 2(9) _ 2(10), of 0 len buf] u 2(8) by (simp add: user_buffer_def overlay_def)
  then show ?thesis using 2 u by (intro that [OF 2(1) refl]) (simp_all add: user_buffer_def)
qed

section \<open>The transfer\<close>

definition repositioned :: "'x fsys \<Rightarrow> ofptr \<Rightarrow> openfile \<Rightarrow> uio \<Rightarrow> ofptr \<Rightarrow> openfile option" where
  "repositioned s p f u = (ofiles s)(p \<mapsto> f\<lparr>of_offset := uio_offset u\<rparr>)"

context file_service
begin

lemma read_locked_step:
  assumes inv: "file_inv I s" and op: "opened s p f v lk"
    and t: "ofiles t = ofiles s" "flocks t = flocks s" "fv t = fv s" "kobj (fmem t) b = Some xs" "length xs = unat len"
  obtains u m' x c where
    "vop_read ops v (uio_kinit (KPtr b 0) len (of_offset f) UIO_READ) (fmem t) (fv s) = Done (None, u, m', x)"
    "I x" "fs_step (fv s) x none" "uio_resid u \<le> len" "buf_frame (fmem t) m'" "kobj m' b = Some c" "length c = unat len"
    "read_locked ops p f v b buf len t = obind (copyout (KPtr b 0) buf (len - uio_resid u) m') (\<lambda>(r, m).
       let s2 = (with_lock t lk)\<lparr>fmem := m', fv := x, ofiles := repositioned s p f u, fmem := m\<rparr> in
       if r \<noteq> None then Done (Inl EFAULT, s2) else
       obind (flock_release (of_lock f) s2) (\<lambda>s. obind (kfree_buf b s) (\<lambda>s. Done (Inr (len - uio_resid u), s))))"
proof -
  note D = file_invD [OF inv] and r = opened_ref [OF inv op]
  have of: "ofiles s p = Some f" using op by (simp add: opened_def)
  obtain u m' x where w: "vop_read ops v (uio_kinit (KPtr b 0) len (of_offset f) UIO_READ) (fmem t) (fv s) = Done (None, u, m', x)"
    "I x" "fs_step (fv s) x none" "uio_resid u \<le> len" "buf_frame (fmem t) m'"
    using read_law [OF D(7) D(1) r t(4,5)] by blast
  have "map_option length (kobj m' b) = Some (unat len)" using w(5) t(4,5) by (simp add: buf_frame_def)
  then obtain c where c: "kobj m' b = Some c" "length c = unat len" by auto
  have io: "vop_io (vop_read ops) v (uio_kinit (KPtr b 0) len (of_offset f) UIO_READ) (with_lock t lk) =
      Done (None, u, (with_lock t lk)\<lparr>fmem := m', fv := x\<rparr>)"
    using w(1) vnode_check_ok [OF D(7) r] t(3) by (simp add: vop_io_def with_lock_def)
  define t2 where "t2 = (with_lock t lk)\<lparr>fmem := m', fv := x, ofiles := repositioned s p f u\<rparr>"
  have so: "set_of p (\<lambda>f. f\<lparr>of_offset := uio_offset u\<rparr>) ((with_lock t lk)\<lparr>fmem := m', fv := x\<rparr>) = Done t2" "fmem t2 = m'"
    using of t(1) by (simp_all add: set_of_def with_lock_def repositioned_def t2_def)
  have wl: "ofiles (with_lock t lk) p = Some f" using of t(1) by (simp add: with_lock_def)
  have "read_locked ops p f v b buf len t = obind (copyout (KPtr b 0) buf (len - uio_resid u) m') (\<lambda>(r, m).
       let s2 = t2\<lparr>fmem := m\<rparr> in
       if r \<noteq> None then Done (Inl EFAULT, s2) else
       obind (flock_release (of_lock f) s2) (\<lambda>s. obind (kfree_buf b s) (\<lambda>s. Done (Inr (len - uio_resid u), s))))"
    unfolding read_locked_def using opened_acquire [OF op t(1,2)] io wl so by (simp add: Let_def)
  then have "read_locked ops p f v b buf len t = obind (copyout (KPtr b 0) buf (len - uio_resid u) m') (\<lambda>(r, m).
       let s2 = (with_lock t lk)\<lparr>fmem := m', fv := x, ofiles := repositioned s p f u, fmem := m\<rparr> in
       if r \<noteq> None then Done (Inl EFAULT, s2) else
       obind (flock_release (of_lock f) s2) (\<lambda>s. obind (kfree_buf b s) (\<lambda>s. Done (Inr (len - uio_resid u), s))))"
    unfolding t2_def .
  then show thesis by (rule that [OF w c])
qed

lemma read_locked_data:
  assumes inv: "file_inv I s" and op: "opened s p f v lk"
    and t: "ofiles t = ofiles s" "flocks t = flocks s" "fv t = fv s" "fileTables t = fileTables s"
      "kh_live (fheap t) = b # kh_live (fheap s)" "kheap_ok (fheap t)" "vmem (fmem t) = vmem (fmem s)"
      "\<not> tm_badfaultfunc (fmem t)" "kobj (fmem t) b = Some xs" "length xs = unat len"
    and ub: "user_buffer s buf len"
    and rd: "vop_read ops v (uio_kinit (KPtr b 0) len (of_offset f) UIO_READ) (fmem t) (fv s) = Done (None, u, m', x)"
      "uio_resid u < len" "kobj m' b = Some c"
  shows "\<exists>t'. read_locked ops p f v b buf len t = Done (Inr (len - uio_resid u), t') \<and> file_inv I t' \<and>
     vmem (fmem t') = write_user (vmem (fmem s)) buf (take (unat (len - uio_resid u)) c) \<and>
     ofiles t' = repositioned s p f u \<and> fv t' = x \<and> kh_live (fheap t') = kh_live (fheap s)"
proof (rule read_locked_step [OF inv op t(1-3,9,10), of buf])
  fix u' m'' x' c'
  let ?n = "len - uio_resid u"
  let ?m = "m'\<lparr>vmem := write_user (vmem (fmem s)) buf (take (unat ?n) c)\<rparr>"
  assume w': "vop_read ops v (uio_kinit (KPtr b 0) len (of_offset f) UIO_READ) (fmem t) (fv s) = Done (None, u', m'', x')"
    "I x'" "fs_step (fv s) x' none" "uio_resid u' \<le> len" "buf_frame (fmem t) m''" "kobj m'' b = Some c'" "length c' = unat len"
    "read_locked ops p f v b buf len t = obind (copyout (KPtr b 0) buf (len - uio_resid u') m'') (\<lambda>(r, m).
       let s2 = (with_lock t lk)\<lparr>fmem := m'', fv := x', ofiles := repositioned s p f u', fmem := m\<rparr> in
       if r \<noteq> None then Done (Inl EFAULT, s2) else
       obind (flock_release (of_lock f) s2) (\<lambda>s. obind (kfree_buf b s) (\<lambda>s. Done (Inr (len - uio_resid u'), s))))"
  have same: "u' = u" "m'' = m'" "x' = x" "c' = c" using w'(1,6) rd(1,3) by auto
  note w = w' [unfolded same]
  have n: "?n \<noteq> 0" "?n \<le> len" using rd(2) by (auto simp: word_sub_le)
  have out: "copyout (KPtr b 0) buf ?n m' = Done (None, ?m)"
    using copyout_buffer [of buf len m' b c ?n] ub w(5,6,7) n t(7,8) by (simp add: user_buffer_def buf_frame_def)
  note F = vfs_frame [OF inv w(3)]
  let ?s2 = "(with_lock t lk)\<lparr>fmem := m', fv := x, ofiles := repositioned s p f u, fmem := ?m\<rparr>"
  let ?s3 = "t\<lparr>fmem := ?m, fv := x, ofiles := repositioned s p f u\<rparr>"
  have rel: "flock_release (of_lock f) ?s2 = Done ?s3"
    using opened_release [OF op, of ?s2] t(2,3) F(3) by (simp add: with_lock_def)
  obtain t2 where t2: "kfree_buf b (t\<lparr>fmem := ?m, fv := x\<rparr>) = Done t2" "file_inv I t2" "fv t2 = x"
    "vmem (fmem t2) = vmem ?m" "kh_live (fheap t2) = kh_live (fheap s)" "ofiles t2 = ofiles s"
    by (rule free_buffer [OF inv, of "t\<lparr>fmem := ?m, fv := x\<rparr>" b]) (use t w F in \<open>auto simp: buf_frame_def\<close>)
  have fr: "kfree_buf b ?s3 = Done (t2\<lparr>ofiles := repositioned s p f u\<rparr>)"
    using t2(1) kfree_buf_live [of ?s3 b "kh_live (fheap s)"] kfree_buf_live [of "t\<lparr>fmem := ?m, fv := x\<rparr>" b "kh_live (fheap s)"] t(5)
    by auto
  have "ofiles s p = Some f" using op by (simp add: opened_def)
  then have "file_inv I (t2\<lparr>ofiles := repositioned s p f u\<rparr>)"
    using file_inv_set_of [OF t2(2), of p f "\<lambda>f. f\<lparr>of_offset := uio_offset u\<rparr>"] t2(6) by (simp add: repositioned_def)
  then show ?thesis using w(8) out rel fr t2(3-5) by (simp add: Let_def)
qed

end

lemma sys_read_reaches:
  assumes "tables_ok s" "descriptor s fd p f" "opened s p f v lk" "of_mode f = O_RDONLY \<or> of_mode f = O_RDWR"
    "kalloc len s = (Some b, t)" "copyin buf (KPtr b 0) len (fmem t) = Done (None, m)"
  shows "sys_read ops fd buf len s = read_locked ops p f v b buf len (t\<lparr>fmem := m\<rparr>)"
  using assms fd_nth [OF assms(1), of fd] by (auto simp: sys_read_def descriptor_def opened_def)

lemma sys_write_reaches:
  assumes "tables_ok s" "descriptor s fd p f" "opened s p f v lk" "of_mode f = O_WRONLY \<or> of_mode f = O_RDWR"
    "kalloc len s = (Some b, t)" "copyin buf (KPtr b 0) len (fmem t) = Done (None, m)"
  shows "sys_write ops fd buf len s = write_locked ops p f v b len (t\<lparr>fmem := m\<rparr>)"
  using assms fd_nth [OF assms(1), of fd] by (auto simp: sys_write_def descriptor_def opened_def)

section \<open>Properties\<close>



text \<open>C16: a read at the end of a file fails with \<^verbatim>\<open>EFAULT\<close> instead of returning zero, because the copy of
  no bytes to the user is refused; the kernel buffer is lost and the lock of the file stays taken, so
  that the next close of the descriptor by the same thread fails the assertion of
  \<^verbatim>\<open>lock_acquire\<close> and stops the kernel.\<close>

theorem sys_read_eof_jams:
  assumes "file_service ops I" "file_inv I s" "descriptor s fd p f" "of_mode f = O_RDONLY \<or> of_mode f = O_RDWR"
    "of_vn f = Some v" "user_buffer s buf len" "can_alloc s"
    "\<And>b m. \<exists>u m' x. vop_read ops v (uio_kinit (KPtr b 0) len (of_offset f) UIO_READ) m (fv s) = Done (None, u, m', x) \<and>
       uio_resid u = len"
  shows "\<exists>s'. sys_read ops fd buf len s = Done (Inl EFAULT, s') \<and>
    length (kh_live (fheap s')) = Suc (length (kh_live (fheap s))) \<and> sys_close ops fd s' = Stop Panic"
proof -
  note D = file_invD [OF assms(2)]
  obtain v' lk where o': "opened s p f v' lk" by (rule descriptor_opened [OF D(6) assms(3)])
  have o: "opened s p f v lk" using o' assms(5) by (simp add: opened_def)
  obtain b t c where b: "kalloc len s = (Some b, t)" "length c = unat len"
    "copyin buf (KPtr b 0) len (fmem t) = Done (None, (fmem t)\<lparr>kobj := (kobj (fmem t))(b \<mapsto> c)\<rparr>)"
    "kh_live (fheap t) = b # kh_live (fheap s)" "fileTables t = fileTables s" "ofiles t = ofiles s"
    "flocks t = flocks s" "fv t = fv s" "vmem (fmem t) = vmem (fmem s)" "\<not> tm_badfaultfunc (fmem t)"
    by (rule filled_buffer [OF assms(2,6,7)])
  let ?t = "t\<lparr>fmem := (fmem t)\<lparr>kobj := (kobj (fmem t))(b \<mapsto> c)\<rparr>\<rparr>"
  have kt: "kobj (fmem ?t) b = Some c" by simp
  show ?thesis
  proof (rule file_service.read_locked_step [OF assms(1,2) o _ _ _ kt b(2), of buf])
    fix u m' x d
    let ?s2 = "(with_lock ?t lk)\<lparr>fmem := m', fv := x, ofiles := repositioned s p f u, fmem := m'\<rparr>"
    assume w: "vop_read ops v (uio_kinit (KPtr b 0) len (of_offset f) UIO_READ) (fmem ?t) (fv s) = Done (None, u, m', x)"
      "fs_step (fv s) x none" "buf_frame (fmem ?t) m'" "kobj m' b = Some d" "length d = unat len"
      "read_locked ops p f v b buf len ?t = obind (copyout (KPtr b 0) buf (len - uio_resid u) m') (\<lambda>(r, m).
       let s2 = (with_lock ?t lk)\<lparr>fmem := m', fv := x, ofiles := repositioned s p f u, fmem := m\<rparr> in
       if r \<noteq> None then Done (Inl EFAULT, s2) else
       obind (flock_release (of_lock f) s2) (\<lambda>s. obind (kfree_buf b s) (\<lambda>s. Done (Inr (len - uio_resid u), s))))"
    have z: "len - uio_resid u = 0" using assms(8) [of b "fmem ?t"] w(1) by auto
    have "copyout (KPtr b 0) buf 0 m' = Done (Some EFAULT, m')"
      using copyout_buffer [of buf len m' b d 0] assms(6) w(3-5) b(9,10) by (simp add: user_buffer_def buf_frame_def)
    then have "sys_read ops fd buf len s = Done (Inl EFAULT, ?s2)"
      using sys_read_reaches [OF D(6) assms(3) o assms(4) b(1,3), of ops] w(6) z by (simp add: Let_def)
    moreover have "sys_close ops fd ?s2 = Stop Panic"
    proof -
      have c: "curtab ?s2 = curtab s" using b(5) vfs_frame(4) [OF assms(2) w(2)] by (simp add: curtab_def with_lock_def)
      have "flock_acquire (of_lock f) ?s2 = Stop Panic"
        using o b(8) vfs_frame(3) [OF assms(2) w(2)] by (simp add: flock_acquire_def opened_def with_lock_def)
      then show ?thesis using assms(3) fd_nth [OF D(6), of fd] c
        by (simp add: sys_close_def descriptor_def repositioned_def nth_or_fault_def split: if_splits)
    qed
    ultimately show ?thesis using b(4) by (auto simp: with_lock_def)
  qed (use b in simp_all)
qed

section \<open>Witnesses\<close>

text \<open>Process 0 with descriptor 3 open on the device, and a device that delivers as many letters as
  asked for.\<close>

definition demo_lock :: lock where
  "demo_lock = \<lparr>lk_self = 0, lk_name = 1, lk_sem = \<lparr>sem_self = 2, sem_name = 3, sem_wchan = 4, sem_waiters = [],
     sem_locked = False, sem_count = 1\<rparr>, lk_locked = False, lk_owner = None\<rparr>"

definition demo_file :: "u32 \<Rightarrow> openfile" where
  "demo_file mode = \<lparr>of_vn = Some 7, of_offset = 0, of_mode = mode, countRef = 1, of_lock = Some 0\<rparr>"

definition demo_open :: "u32 \<Rightarrow> unit devs fsys" where
  "demo_open mode = demo_files\<lparr>
     fv := demo_devs\<lparr>vnodes := [7 \<mapsto> \<lparr>vn_refcount = 2, vn_fs = None, vn_data = Some 3, vn_ops = Some DevOps\<rparr>]\<rparr>,
     fheap := \<lparr>kh_next = 5, kh_live = [4, 3, 2, 1, 0], kh_avail = (\<lambda>n. True)\<rparr>,
     ofiles := (ofiles demo_files)(SysFile 0 \<mapsto> demo_file mode),
     fileTables := (fileTables demo_files)(0 := (replicate OPEN_MAX None)[3 := Some (SysFile 0)]),
     flocks := [0 \<mapsto> demo_lock]\<rparr>"

definition demo_io :: "nat \<Rightarrow> 'd devs vop_uio" where
  "demo_io d u m s =
     (case iov_base (hd (uio_iov u)) of UPtr a \<Rightarrow> Done (Some EINVAL, u, m, s) | KPtr b i \<Rightarrow>
      Done (None, u\<lparr>uio_offset := uio_offset u + ucast (uio_resid u), uio_resid := 0\<rparr>,
        if uio_rw u = UIO_READ then m\<lparr>kobj := (kobj m)(b \<mapsto> replicate (unat (uio_resid u)) 120)\<rparr> else m, s))"

definition demo_devops :: "'d device_ops" where
  "demo_devops = null_devops\<lparr>devop_io := demo_io\<rparr>"

interpretation letters: char_driver demo_devops F for F
  by unfold_locales (auto simp: demo_devops_def null_devops_def nullopen_def returns_same demo_io_def uio_kinit_def fs_step_refl
      buf_frame_def fun_upd_apply)

lemma demo_service: "file_service (dev_vnode_ops demo_devops F) (dev_inv is_chr)"
  by (rule letters.file_service_axioms)

lemma count_list_replicate_update: "i < n \<Longrightarrow> x \<noteq> y \<Longrightarrow> count_list ((replicate n y)[i := x]) x = 1"
proof (induction n arbitrary: i)
  case (Suc n)
  then show ?case by (cases i) auto
qed simp

lemma demo_tab: "Some p \<in> set (fileTables (demo_open mode) q) \<longleftrightarrow> q = 0 \<and> p = SysFile 0"
proof -
  have "Some p \<in> set ((replicate OPEN_MAX None)[3 := Some (SysFile 0)]) \<longleftrightarrow> p = SysFile 0"
    by (auto simp: set_update_memI OPEN_MAX_def dest!: set_update_subset_insert [THEN subsetD])
  then show ?thesis by (simp add: demo_open_def demo_files_def fun_upd_apply)
qed

lemma demo_open_vfs: "vfs_ok (one 7) (fv (demo_open mode))" "dev_inv is_chr (fv (demo_open mode))"
  by (auto simp: vfs_ok_def vnodes_ok_def lock_ok_def held_def ref_def one_def kd_ok_def demo_devs_def demo_open_def
      dev_inv_def fs_live_def fun_upd_apply is_chr_def split: if_splits option.splits)

lemma demo_open_inv: "file_inv (dev_inv is_chr) (demo_open mode)"
proof -
  have r: "refd (demo_open mode) = {SysFile 0}" by (simp add: refd_def demo_tab)
  have "files_on (demo_open mode) v = (if v = 7 then {SysFile 0} else {})" for v
    unfolding files_on_def r by (auto simp: demo_open_def demo_file_def)
  then have f: "fref (demo_open mode) = one 7" by (simp add: fref_def one_def fun_eq_iff)
  have "lock_good (fheap (demo_open mode)) demo_lock" by (simp add: lock_good_def lk_blocks_def demo_lock_def demo_open_def)
  moreover have "flocks (demo_open mode) (lk_self demo_lock) = Some demo_lock" "lk_self demo_lock = 0"
    by (simp_all add: demo_open_def demo_lock_def)
  moreover have "count_list (fileTables (demo_open mode) 0) (Some (SysFile 0)) = 1"
    by (simp add: demo_open_def count_list_replicate_update OPEN_MAX_def)
  ultimately have "file_ok (demo_open mode) 0 (SysFile 0)"
    unfolding file_ok_def by (intro exI [of _ "demo_file mode"] exI [of _ demo_lock]) (simp add: demo_open_def demo_file_def)
  then have "tables_ok (demo_open mode)" unfolding tables_ok_def r demo_tab
    by (intro conjI) (simp_all add: demo_open_def demo_files_def fun_upd_apply)
  then show ?thesis unfolding file_inv_def f
    by (intro conjI demo_open_vfs) (simp_all add: demo_open_def demo_files_def demo_devs_def kheap_ok_def)
qed

lemma demo_descriptor: "descriptor (demo_open mode) 3 (SysFile 0) (demo_file mode)"
  by (simp add: descriptor_def demo_open_def curtab_def demo_devs_def OPEN_MAX_def)

lemma user_prefix_mapped: "(\<And>i. i < n \<Longrightarrow> m (a + of_nat i) \<noteq> None) \<Longrightarrow> length (user_prefix m a n) = n"
proof (induction n arbitrary: a)
  case (Suc n)
  have "m a \<noteq> None" using Suc.prems [of 0] by simp
  moreover have "length (user_prefix m (a + 1) n) = n"
    using Suc.prems [of "Suc i" for i] by (intro Suc.IH) (simp add: add.assoc)
  ultimately show ?case by auto
qed simp

lemma demo_space_mapped: "0x1000 \<le> a \<Longrightarrow> a < 0x2000 \<Longrightarrow> demo_space a \<noteq> None"
  by (simp add: demo_space_def not_less not_le)

lemma demo_buffer: "user_buffer (demo_open mode) 0x1000 4"
proof -
  have "length (user_prefix demo_space 0x1000 4) = 4"
  proof (rule user_prefix_mapped)
    fix i :: nat
    assume "i < 4"
    then have "i = 0 \<or> i = 1 \<or> i = 2 \<or> i = 3" by auto
    then show "demo_space (0x1000 + of_nat i) \<noteq> None" by (intro demo_space_mapped) auto
  qed
  then show ?thesis by (simp add: user_buffer_def user_range_def demo_open_def demo_files_def del: user_prefix_numeral)
qed

lemma demo_can_alloc: "can_alloc (demo_open mode)"
  by (simp add: can_alloc_def demo_open_def kmalloc_def Let_def)


lemma demo_reads:
  "\<exists>u m' x. vop_read (dev_vnode_ops demo_devops demo_fs) 7 (uio_kinit (KPtr b 0) 4 off UIO_READ) m (fv (demo_open mode)) =
     Done (None, u, m', x) \<and> uio_resid u < 4"
  by (simp add: dev_vnode_ops_def dev_read_def dev_io_def dev_of_def demo_open_def demo_devs_def
        dev_tryseek_def kassert_def demo_devops_def demo_io_def uio_kinit_def)

lemma null_reads:
  "\<exists>u m' x. vop_read (dev_vnode_ops null_devops demo_fs) 7 (uio_kinit (KPtr b 0) 4 off UIO_READ) m (fv (demo_open mode)) =
     Done (None, u, m', x) \<and> uio_resid u = 4"
  by (simp add: dev_vnode_ops_def dev_read_def dev_io_def dev_of_def demo_open_def demo_devs_def
        dev_tryseek_def kassert_def null_devops_def nullio_def uio_kinit_def)

lemma demo_readable: "of_mode (demo_file O_RDONLY) = O_RDONLY \<or> of_mode (demo_file O_RDONLY) = O_RDWR"
  "of_vn (demo_file mode) = Some 7"
  by (simp_all add: demo_file_def)


theorem sys_read_eof_jams_witness:
  "\<exists>s'. sys_read (dev_vnode_ops null_devops demo_fs) 3 0x1000 4 (demo_open O_RDONLY) = Done (Inl EFAULT, s') \<and>
     sys_close (dev_vnode_ops null_devops demo_fs) 3 s' = Stop Panic"
  using sys_read_eof_jams [OF null_file_service demo_open_inv demo_descriptor demo_readable demo_buffer demo_can_alloc null_reads]
  by blast

text \<open>C20: the bound on the descriptor in \<^verbatim>\<open>sys_write\<close> lets 128 pass, one past the end of the table of
  the process: what follows the array would be used as a pointer to an open file.  The bound of
  \<^verbatim>\<open>sys_read\<close> is right.\<close>

theorem sys_write_past_table:
  assumes "shape s"
  shows "sys_write ops (int OPEN_MAX) buf len s = Stop Fault \<and> sys_read ops (int OPEN_MAX) buf len s = Done (Inl EBADF, s)"
  using assms by (simp add: sys_write_def sys_read_def shape_def curtab_def nth_or_fault_def)

theorem sys_write_past_table_witness:
  "sys_write (dev_vnode_ops null_devops demo_fs) (int OPEN_MAX) 0x1000 1 demo_files = Stop Fault"
  using sys_write_past_table [of demo_files] by (simp add: shape_def demo_files_def)

lemma cut_to_32:
  fixes pos :: u64
  assumes "0 \<le> sint pos"
  shows "(scast (ucast pos :: u32) :: u64) = pos \<longleftrightarrow> sint pos < 2 ^ 31"
proof
  assume eq: "(scast (ucast pos :: u32) :: u64) = pos"
  have "sint (scast (ucast pos :: u32) :: u64) = sint (ucast pos :: u32)" by (simp add: sint_up_scast is_up)
  then show "sint pos < 2 ^ 31" using eq sint_lt [of "ucast pos :: u32"] by simp
next
  assume lt: "sint pos < 2 ^ 31"
  have "sint (ucast pos :: u32) = signed_take_bit 31 (sint pos)"
    by transfer (simp add: signed_take_bit_take_bit signed_take_bit_signed_take_bit)
  also have "\<dots> = sint pos" using assms lt by (simp add: signed_take_bit_int_eq_self)
  finally have "sint (scast (ucast pos :: u32) :: u64) = sint pos" by (simp add: sint_up_scast is_up)
  then show "(scast (ucast pos :: u32) :: u64) = pos" by (rule signed_word_eqI)
qed

text \<open>C19: seeking to a position below 2 GiB sets exactly that position and nothing else; from
  2 GiB on the position passes through a 32 bit \<^verbatim>\<open>int\<close>, and another position, negative or too small, is
  stored and returned as if the seek had succeeded.\<close>

theorem sys_lseek_set:
  assumes "file_inv I s" "descriptor s fd p f" "of_vn f = Some v" "vop_isseekable ops v (fv s)" "0 \<le> sint pos"
  shows "\<exists>new_off. sys_lseek ops fd pos SEEK_SET s =
      Done (Inr new_off, s\<lparr>ofiles := (ofiles s)(p \<mapsto> f\<lparr>of_offset := new_off\<rparr>)\<rparr>) \<and>
    new_off = scast (ucast pos :: u32) \<and> (new_off = pos \<longleftrightarrow> sint pos < 2 ^ 31)"
proof -
  note D = file_invD [OF assms(1)]
  let ?n = "scast (ucast pos :: u32) :: u64"
  obtain v' lk where o': "opened s p f v' lk" "nth_or_fault (curtab s) (nat fd) = Done (Some p)"
    by (rule descriptor_opened [OF D(6) assms(2)])
  have o: "opened s p f v lk" "ofiles s p = Some f" using o' assms(3) by (auto simp: opened_def)
  have c: "vnode_check v (fv s) = Done ()" using files_on_ref [OF assms(1), of p v] o(1) vnode_check_ok [OF D(7)] by (simp add: opened_def)
  have a: "flock_acquire (of_lock f) s = Done (with_lock s lk)" by (rule opened_acquire [OF o(1) refl refl])
  let ?t = "(with_lock s lk)\<lparr>ofiles := (ofiles s)(p \<mapsto> f\<lparr>of_offset := ?n\<rparr>)\<rparr>"
  have so: "set_of p (\<lambda>f. f\<lparr>of_offset := ?n\<rparr>) (with_lock s lk) = Done ?t" using o(2) by (simp add: set_of_def with_lock_def)
  have "flock_release (of_lock f) ?t = Done (?t\<lparr>flocks := flocks s\<rparr>)"
    by (rule opened_release [OF o(1)]) (simp_all add: with_lock_def)
  moreover have "?t\<lparr>flocks := flocks s\<rparr> = s\<lparr>ofiles := (ofiles s)(p \<mapsto> f\<lparr>of_offset := ?n\<rparr>)\<rparr>" by (simp add: with_lock_def)
  ultimately have r: "flock_release (of_lock f) ?t = Done (s\<lparr>ofiles := (ofiles s)(p \<mapsto> f\<lparr>of_offset := ?n\<rparr>)\<rparr>)" by simp
  have "lseek_target ops v f pos SEEK_SET (with_lock s lk) = Done (Inr pos, with_lock s lk)"
    using assms(5) by (simp add: lseek_target_def)
  then have "sys_lseek ops fd pos SEEK_SET s = Done (Inr ?n, s\<lparr>ofiles := (ofiles s)(p \<mapsto> f\<lparr>of_offset := ?n\<rparr>)\<rparr>)"
    using assms(2-4) o(2) o'(2) c a so r by (simp add: sys_lseek_def descriptor_def Let_def)
  then show ?thesis using cut_to_32 [OF assms(5)] by blast
qed


text \<open>The same state over a disk of eight sectors.\<close>

definition demo_disk :: "unit devs fsys" where
  "demo_disk = (demo_open O_RDWR)\<lparr>fv := (fv (demo_open O_RDWR))\<lparr>fsx := \<lparr>dev_tab = [3 \<mapsto> \<lparr>d_blocks = 8, d_blocksize = 512\<rparr>], drv = ()\<rparr>\<rparr>\<rparr>"

lemma demo_disk_inv: "file_inv (\<lambda>s. True) demo_disk"
proof -
  have inv: "file_inv (\<lambda>s. True) (demo_open O_RDWR)" using demo_open_inv [of O_RDWR] by (simp add: file_inv_def)
  note D = file_invD [OF inv]
  have "vfs_ok (fref (demo_open O_RDWR)) (fv demo_disk)" using D(2)
    by (simp add: vfs_ok_def vnodes_ok_def lock_ok_def held_def ref_def demo_disk_def)
  then show ?thesis using D by (intro file_inv_frame [OF inv]) (simp_all add: demo_disk_def)
qed

theorem sys_lseek_set_witness:
  "\<exists>s'. sys_lseek (dev_vnode_ops null_devops demo_fs) 3 0x80000000 SEEK_SET demo_disk = Done (Inr 0xffffffff80000000, s')"
proof -
  have d: "descriptor demo_disk 3 (SysFile 0) (demo_file O_RDWR)" using demo_descriptor [of O_RDWR]
    by (simp add: descriptor_def demo_disk_def curtab_def)
  have k: "vop_isseekable (dev_vnode_ops null_devops demo_fs) 7 (fv demo_disk)"
    by (simp add: dev_vnode_ops_def dev_isseekable_def dev_of_def demo_disk_def demo_open_def)
  have p: "0 \<le> sint (0x80000000 :: u64)" by simp
  show ?thesis using sys_lseek_set [OF demo_disk_inv d demo_readable(2) k p] by auto
qed

end
