(* ===== verification/Spec2Isabelle.thy ===== *)
theory Spec2Isabelle
  imports KArray KBitmap KMisc UserMem Uio ThreadList Spl KHeap Sched SchedInv Migrate Synch DumbVM AddrSpace
    VmCorrect ExecArgs VfsList FileData
begin

text \<open>
  A verification of the OS/161 kernel of this repository (\<^verbatim>\<open>src/os161-base-2.0.3\<close>), in the
  configuration \<^verbatim>\<open>conf/SHELL\<close>: \<^verbatim>\<open>OPT_SHELL\<close>, the dumbvm memory system with freeing, semaphore based
  locks, and \<^verbatim>\<open>KASSERT\<close> enabled.  Paths below are relative to \<^verbatim>\<open>kern/\<close>.

  \<^bold>\<open>How code becomes definitions.\<close>  Each C function is one definition, or a chain of them when the
  function is long, with its branches and early returns in source order.  State is passed
  explicitly.  A call yields an \<open>outcome\<close>: \<open>Done\<close> with result and state, or \<open>Stop\<close> with \<open>Panic\<close> (a
  failed \<^verbatim>\<open>KASSERT\<close> or a call of \<^verbatim>\<open>panic\<close>), \<open>Fault\<close> (a pointer or index that the kernel must not
  follow) or \<open>Blocked\<close> (a wait that another thread would have to end).  Error numbers are values of
  the datatype \<open>errno\<close>, in results \<open>errno option\<close> or \<open>errno + 'a\<close>.  Machine integers are words of their
  width.  \<open>kmalloc\<close> may fail at any call: which calls fail is an arbitrary stream of the state.

  \<^bold>\<open>Theories and sources.\<close>
  \<^item> \<open>Prelude\<close>: error numbers, outcomes and the lemmas the components share.
  \<^item> \<open>KArray\<close> (\<^verbatim>\<open>lib/array.c\<close>), \<open>KBitmap\<close> (\<^verbatim>\<open>lib/bitmap.c\<close>), \<open>KMisc\<close> (\<^verbatim>\<open>lib/bswap.c\<close>, \<^verbatim>\<open>lib/time.c\<close>): the arrays
    refine lists, the bitmap allocates the lowest free bit, byte orders and time stamps.
  \<^item> \<open>UserMem\<close> (\<^verbatim>\<open>vm/copyinout.c\<close>) and \<open>Uio\<close> (\<^verbatim>\<open>lib/uio.c\<close>, \<^verbatim>\<open>memmove.c\<close>): copies between kernel objects and a
    partial map of user memory, confined to their ranges, and scatter and gather over blocks.
  \<^item> \<open>ThreadList\<close> (\<^verbatim>\<open>thread/threadlist.c\<close>): doubly linked lists over a heap of nodes refine lists.
  \<^item> \<open>Spl\<close> (\<^verbatim>\<open>thread/spl.c\<close>, \<^verbatim>\<open>thread/spinlock.c\<close>): interrupt levels; spinlocks with processors interleaved at
    single accesses exclude each other.
  \<^item> \<open>KHeap\<close>: the contract of \<^verbatim>\<open>kmalloc\<close> and \<^verbatim>\<open>kfree\<close> that the other theories use.
  \<^item> \<open>Sched\<close>, \<open>SchedInv\<close>, \<open>Migrate\<close> (\<^verbatim>\<open>thread/thread.c\<close>, \<^verbatim>\<open>thread/clock.c\<close>): context switch, wait channels, fork,
    exit and load balancing.  Every thread is in exactly one place and its state says which.
  \<^item> \<open>Synch\<close> (\<^verbatim>\<open>thread/synch.c\<close>): semaphores, locks and condition variables as a step relation over all
    interleavings: mutual exclusion, no deadlock, no lost wakeup, conservation of units.
  \<^item> \<open>DumbVM\<close>, \<open>AddrSpace\<close>, \<open>VmCorrect\<close> (\<^verbatim>\<open>arch/mips/vm/dumbvm.c\<close>, \<^verbatim>\<open>ram.c\<close>): the frame allocator, address
    spaces, the fault handler and the TLB: exclusive frames, exact copies, isolation.
  \<^item> \<open>ExecArgs\<close> (\<^verbatim>\<open>syscall/exec.c\<close>): the argument vector of a new program, from the memory of the old
    one through the kernel buffer to the new stack.
  \<^item> \<open>Vfs\<close>, \<open>VfsRefs\<close>, \<open>VfsList\<close> (\<^verbatim>\<open>vfs/vnode.c\<close>, \<^verbatim>\<open>vfslist.c\<close>, \<^verbatim>\<open>vfslookup.c\<close>, \<^verbatim>\<open>vfscwd.c\<close>, \<^verbatim>\<open>vfspath.c\<close>): the VFS
    layer over an arbitrary file system.  The locale \<open>filesystem\<close> states what \<^verbatim>\<open>vnode.h\<close> asks of the vnode
    operations; under it every operation gives back the references it takes.
  \<^item> \<open>Device\<close> (\<^verbatim>\<open>vfs/device.c\<close>, \<^verbatim>\<open>devnull.c\<close>, \<^verbatim>\<open>vfsfail.c\<close>): device vnodes over an arbitrary driver, which
    satisfy the locale \<open>filesystem\<close>; the null device is interpreted.
  \<^item> \<open>FileSys\<close> (\<^verbatim>\<open>syscall/file_syscalls.c\<close>): the calls on descriptors.  \<open>FileInv\<close> states the invariant of the
    tables, \<open>FileIo\<close> and \<open>FileCalls\<close> show that the calls keep it, under the locale \<open>file_service\<close>, which adds
    reading, writing and stat to the contract of a file system.  \<open>FileShape\<close> holds what needs no
    contract, \<open>FileRun\<close> the sequences of calls and character devices, \<open>FileData\<close> the data that moves.

  \<^bold>\<open>How the parts interact.\<close>  The file calls use the copies of \<open>UserMem\<close>, the heap, the locks of \<open>Synch\<close>
  and the VFS layer; the VFS layer uses a file system through its table of operations, and device
  vnodes are such a table over a driver.  The calls of a process run one after the other between
  the points where they may sleep; a call that finds the lock of its file taken is \<open>Blocked\<close>.

  \<^bold>\<open>Termination.\<close>  Loops are recursive functions with termination proofs, and no fuel is used.  Two
  loops may run forever and are a \<open>partial_function\<close>: the capacity loop of \<^verbatim>\<open>array_preallocate\<close>, proved to
  return and to diverge for the requests its theorem names, and the walk \<^verbatim>\<open>THREADLIST_FORALL\<close>, proved to
  return on every well formed list.  The idle loop of \<^verbatim>\<open>thread_switch\<close> is one round: an empty run
  queue is \<open>Blocked\<close>, and the theorem that \<^verbatim>\<open>thread_yield\<close> returns assumes a thread that is ready.

  \<^bold>\<open>Not modelled.\<close>  Processes and their system calls (\<^verbatim>\<open>proc/proc.c\<close>, \<^verbatim>\<open>syscall/proc_syscalls.c\<close>,
  \<^verbatim>\<open>runprogram.c\<close>, \<^verbatim>\<open>loadelf.c\<close>, \<^verbatim>\<open>loadexec\<close>) and the dispatcher \<^verbatim>\<open>arch/mips/syscall/syscall.c\<close>; the file systems
  SFS and semfs, which the VFS layer takes as a parameter; the inside of \<^verbatim>\<open>kmalloc.c\<close>; the lamebus
  and generic device drivers, traps and assembly, which are accesses to hardware; the menu, the
  kernel tests, the deadlock detector \<^verbatim>\<open>hangman.c\<close> (not in the configuration) and the userland.
\<close>

end
